(* ===== verification/Go_Prelude.thy ===== *)
theory Go_Prelude
  imports Main
begin

text \<open>
  What every part of the model uses of the Go language: results that may be a run-time fault,
  slice indexing and re-slicing with their bounds checks, the zero value of a missing map key,
  and sends on a buffered channel. The laws below are the simp rules and introduction rules
  the component theories rest on.
\<close>

section \<open>Faults and results\<close>

text \<open>
  \<open>Panic\<close> is a Go run-time panic (an index or slice bound out of range); \<open>WouldBlock\<close> is a send
  on a full channel, which does not return until a receiver has drained it; \<open>Disabled\<close> is a step
  the scheduler cannot take because its guard does not hold.
\<close>

datatype fault = Panic | WouldBlock | Disabled

type_synonym 'a go = "fault + 'a"

fun go_bind :: "'a go \<Rightarrow> ('a \<Rightarrow> 'b go) \<Rightarrow> 'b go" where
  "go_bind (Inl e) f = Inl e"
| "go_bind (Inr x) f = f x"

definition go_guard :: "bool \<Rightarrow> 'a go \<Rightarrow> 'a go" where
  "go_guard b m = (if b then m else Inl Disabled)"

named_theorems go_simps \<open>equations that evaluate the Go primitives\<close>

lemma go_bind_Inr_iff [go_simps]:
  "go_bind m f = Inr y \<longleftrightarrow> (\<exists>x. m = Inr x \<and> f x = Inr y)"
  by (cases m) auto

lemma go_bind_Inl_iff:
  "go_bind m f = Inl e \<longleftrightarrow> m = Inl e \<or> (\<exists>x. m = Inr x \<and> f x = Inl e)"
  by (cases m) auto

lemma go_bindE:
  assumes "go_bind m f = Inr y"
  obtains x where "m = Inr x" and "f x = Inr y"
  using assms by (auto simp: go_simps)

lemma go_bind_no_panic:
  "m \<noteq> Inl Panic \<Longrightarrow> (\<And>x. m = Inr x \<Longrightarrow> f x \<noteq> Inl Panic) \<Longrightarrow> go_bind m f \<noteq> Inl Panic"
  by (cases m) auto

lemma go_guard_Inr_iff [go_simps]: "go_guard b m = Inr y \<longleftrightarrow> b \<and> m = Inr y"
  by (auto simp: go_guard_def)

lemma go_guard_no_panic: "(b \<Longrightarrow> m \<noteq> Inl Panic) \<Longrightarrow> go_guard b m \<noteq> Inl Panic"
  by (auto simp: go_guard_def)

section \<open>Slices\<close>

text \<open>
  \<open>s[i]\<close>, \<open>s[:k]\<close> and \<open>s[k:]\<close>. Go allows \<open>s[:k]\<close> for \<open>k\<close> up to the capacity of the slice and then
  shows stale elements of the backing array; the model reports every \<open>k\<close> beyond the length as
  \<open>Panic\<close>, so a theorem that excludes \<open>Panic\<close> also excludes a read of stale elements.
\<close>

definition go_index :: "'a list \<Rightarrow> int \<Rightarrow> 'a go" where
  "go_index xs i = (if 0 \<le> i \<and> i < int (length xs) then Inr (xs ! nat i) else Inl Panic)"

definition go_slice_to :: "'a list \<Rightarrow> int \<Rightarrow> 'a list go" where
  "go_slice_to xs k = (if 0 \<le> k \<and> k \<le> int (length xs) then Inr (take (nat k) xs) else Inl Panic)"

definition go_slice_from :: "'a list \<Rightarrow> int \<Rightarrow> 'a list go" where
  "go_slice_from xs k = (if 0 \<le> k \<and> k \<le> int (length xs) then Inr (drop (nat k) xs) else Inl Panic)"

lemma go_index_Inr_iff [go_simps]:
  "go_index xs i = Inr x \<longleftrightarrow> 0 \<le> i \<and> i < int (length xs) \<and> x = xs ! nat i"
  by (auto simp: go_index_def)

lemma go_slice_to_Inr_iff [go_simps]:
  "go_slice_to xs k = Inr ys \<longleftrightarrow> 0 \<le> k \<and> k \<le> int (length xs) \<and> ys = take (nat k) xs"
  by (auto simp: go_slice_to_def)

lemma go_slice_from_Inr_iff [go_simps]:
  "go_slice_from xs k = Inr ys \<longleftrightarrow> 0 \<le> k \<and> k \<le> int (length xs) \<and> ys = drop (nat k) xs"
  by (auto simp: go_slice_from_def)

section \<open>Maps and channels\<close>

text \<open>Reading a missing key of a Go map gives the zero value \<open>d\<close> of its element type.\<close>

definition go_get :: "'v \<Rightarrow> ('k \<rightharpoonup> 'v) \<Rightarrow> 'k \<Rightarrow> 'v" where
  "go_get d m k = (case m k of None \<Rightarrow> d | Some v \<Rightarrow> v)"

lemma go_get_upd [simp]: "go_get d (m(k \<mapsto> v)) k' = (if k' = k then v else go_get d m k')"
  by (simp add: go_get_def)

lemma go_get_empty [simp]: "go_get d Map.empty k = d"
  by (simp add: go_get_def)

text \<open>
  A channel whose values carry no information is the number of values it buffers. All channels of
  this kind in the code have capacity 1.
\<close>

definition chan_send :: "nat \<Rightarrow> nat go" where
  "chan_send buffered = (if buffered < 1 then Inr (Suc buffered) else Inl WouldBlock)"

lemma chan_send_Inr_iff [go_simps]: "chan_send b = Inr b' \<longleftrightarrow> b = 0 \<and> b' = 1"
  by (auto simp: chan_send_def)

lemma chan_send_no_panic [simp]: "chan_send b \<noteq> Inl Panic"
  by (simp add: chan_send_def)

section \<open>Lists\<close>

lemma nat_int_pred [simp]: "nat (int n - 1) = n - Suc 0"
  by simp

lemma set_list_update_subset: "x \<in> set (xs[i := y]) \<Longrightarrow> x = y \<or> x \<in> set xs"
  using set_update_subset_insert by fastforce

lemma nth_list_update_if:
  "j < length xs \<Longrightarrow> xs[i := y] ! j = (if i = j then y else xs ! j)"
  by (auto simp: nth_list_update)

end
