(* ===== verification/Raft_Types.thy ===== *)
theory Raft_Types
  imports Go_Prelude
begin

text \<open>
  The data of package \<open>raft\<close>: the message and log types of \<open>rpc.go\<close>, the persister's state of
  \<open>persister.go\<close> and the struct \<open>Raft\<close> of \<open>raft.go\<close>. Fields carry the name of their struct as a
  prefix where two structs share a field name. Go's \<open>int\<close> is modelled by \<open>int\<close>: terms and indexes
  start at 0 and move by one election or one command at a time. \<open>interface{}\<close> commands are
  \<open>'c option\<close>, with \<open>None\<close> for nil.
\<close>

section \<open>Messages\<close>

datatype role = Leader | Cand | Follwer

datatype election_result = DidNotWin | Win

datatype network_status = Connect | Disconnect

datatype job = Append | CommitAndHeartBeat | HeartBeat

record 'c ApplyMsg =
  ApplyMsg_Command :: "'c option"
  ApplyMsg_CommandValid :: bool
  ApplyMsg_CommandIndex :: int

record 'c Entry =
  Entry_Index :: int
  Entry_Command :: "'c option"
  Entry_Term :: int
  Entry_Id :: int

definition zero_Entry :: "'c Entry" where
  "zero_Entry = \<lparr>Entry_Index = 0, Entry_Command = None, Entry_Term = 0, Entry_Id = 0\<rparr>"

record 'c AppendEntriesArgs =
  AE_Job :: job
  AE_Term :: int
  AE_LeaderId :: int
  AE_Entries :: "'c Entry list"
  AE_PrevLogIndex :: int
  AE_PrevLogTerm :: int
  AE_LeaderCommit :: int

record AppendEntriesReply =
  AER_LastIndex :: int
  AER_Term :: int
  AER_Success :: bool

definition zero_AppendEntriesReply :: AppendEntriesReply where
  "zero_AppendEntriesReply = \<lparr>AER_LastIndex = 0, AER_Term = 0, AER_Success = False\<rparr>"

record RequestVoteArgs =
  RV_PeerId :: int
  RV_Term :: int
  RV_LastLogIndex :: int
  RV_LastLogTerm :: int

record RequestVoteReply =
  RVR_Term :: int
  RVR_VoteGranted :: bool
  RVR_State :: role

section \<open>Durable state\<close>

text \<open>
  A byte buffer written by an encoder is the list of the values encoded into it, in order. A gob
  buffer holds integers and one log; a JSON file holds numbers and commands. The persister is
  generic in the units of the two buffers it stores.
\<close>

datatype 'c gob_value = GobInt int | GobLog "'c Entry list"

datatype 'c json_value = JsonInt int | JsonCommand "'c option"

record 'b Persister =
  Persister_raftstate :: "'b list"
  Persister_snapshot :: "'b list"

section \<open>The struct Raft\<close>

text \<open>
  \<open>ReceiveHB\<close> and \<open>BecomeFollwerFromLeader\<close> are the numbers of buffered values. \<open>ApplyChan\<close> is the
  sequence of all messages sent to the service so far: the service is the only receiver and takes
  them in order. \<open>MatchIndex\<close> is an association list because \<open>updateCommitForLeader\<close> ranges over
  it. \<open>yys\<close> is the contents of the file \<open>PeersRun[Me] + ".yys"\<close>. The mutex and the RPC end points
  are not state of the model: every locked region is one step.
\<close>

record 'c Raft =
  persister :: "'c gob_value Persister"
  Me :: int
  dead :: bool
  Log :: "'c Entry list"
  IsLeader :: bool
  State :: role
  Term :: int
  VotedFor :: int
  ReceiveHB :: nat
  BecomeFollwerFromLeader :: nat
  NextIndex :: "int \<rightharpoonup> int"
  MatchIndex :: "(int \<times> int) list"
  PeerAlive :: "int \<rightharpoonup> bool"
  OpenCommit :: "int \<rightharpoonup> bool"
  CommitIndex :: int
  LastApply :: int
  ApplyChan :: "'c ApplyMsg list"
  PeerNumber :: int
  Test :: bool
  Network :: network_status
  yys :: "'c json_value list option"

end
