(* ===== verification/Raft_Log.thy ===== *)
theory Raft_Log
  imports Raft_Types "HOL-Library.AList"
begin

text \<open>
  \<open>getters.go\<close>: the state setters and the log accessors, with the index arithmetic that maps a
  log index (counted from 1) to a slice position. The well-formedness \<open>log_wf\<close> of a log says that
  the entry at position \<open>i\<close> carries index \<open>i + 1\<close>; under it every accessor is total.
\<close>

section \<open>Setters and accessors\<close>

definition setLeader :: "'c Raft \<Rightarrow> 'c Raft" where
  "setLeader rf = rf\<lparr>IsLeader := True, State := Leader\<rparr>"

definition setFollwer :: "'c Raft \<Rightarrow> 'c Raft" where
  "setFollwer rf = rf\<lparr>State := Follwer, IsLeader := False\<rparr>"

definition getLastLogEntryWithoutLock :: "'c Raft \<Rightarrow> 'c Entry" where
  "getLastLogEntryWithoutLock rf = (if Log rf = [] then zero_Entry else last (Log rf))"

text \<open>The accessors that take \<open>rf.mu\<close> for their whole body are one atomic read of the record.\<close>

definition getState :: "'c Raft \<Rightarrow> role" where
  "getState rf = State rf"

definition getTerm :: "'c Raft \<Rightarrow> int" where
  "getTerm rf = Term rf"

definition getLastLogEntry :: "'c Raft \<Rightarrow> 'c Entry" where
  "getLastLogEntry rf = getLastLogEntryWithoutLock rf"

definition getLogAtIndexWithoutLock :: "'c Raft \<Rightarrow> int \<Rightarrow> ('c Entry \<times> bool) go" where
  "getLogAtIndexWithoutLock rf index =
     (if index = 0 then Inr (zero_Entry, True)
      else if Log rf = [] then Inr (zero_Entry, False)
      else if index < -1 \<or> index > Entry_Index (getLastLogEntryWithoutLock rf)
        then Inr (zero_Entry, False)
      else let localIndex = index - Entry_Index (Log rf ! 0)
           in go_bind (go_index (Log rf) localIndex) (\<lambda>e. Inr (e, True)))"

definition getLogAtIndex :: "'c Raft \<Rightarrow> int \<Rightarrow> ('c Entry \<times> bool) go" where
  "getLogAtIndex rf index = getLogAtIndexWithoutLock rf index"

definition termForLog :: "'c Raft \<Rightarrow> int \<Rightarrow> int go" where
  "termForLog rf index =
     go_bind (getLogAtIndexWithoutLock rf index)
       (\<lambda>(entry, ok). Inr (if ok then Entry_Term entry else -1))"

definition indexInLog :: "int \<Rightarrow> int" where
  "indexInLog index = (if index > 0 then index - 1 else -1)"

definition GetState :: "'c Raft \<Rightarrow> int \<times> bool" where
  "GetState rf = (Term rf, IsLeader rf)"

definition GetState2 :: "'c Raft \<Rightarrow> int \<times> string" where
  "GetState2 rf = (Term rf,
     (if State rf = Follwer then ''Follower''
      else if State rf = Cand then ''Candidate'' else ''Leader''))"

definition go_min :: "int \<Rightarrow> int \<Rightarrow> int" where
  "go_min a b = (if a < b then a else b)"

section \<open>Contiguous logs\<close>

text \<open>\<open>contig i es\<close>: the entries carry the indexes \<open>i, i + 1, \<dots>\<close> in order.\<close>

fun contig :: "int \<Rightarrow> 'c Entry list \<Rightarrow> bool" where
  "contig i [] = True"
| "contig i (e # es) = (Entry_Index e = i \<and> contig (i + 1) es)"

definition log_wf :: "'c Raft \<Rightarrow> bool" where
  "log_wf rf = contig 1 (Log rf)"

lemma contig_append [simp]:
  "contig i (xs @ ys) \<longleftrightarrow> contig i xs \<and> contig (i + int (length xs)) ys"
  by (induction xs arbitrary: i) (auto simp: algebra_simps)

lemma contig_take [intro]: "contig i xs \<Longrightarrow> contig i (take k xs)"
  by (induction xs arbitrary: i k) (auto simp: take_Cons split: nat.splits)

lemma contig_drop [intro]: "contig i xs \<Longrightarrow> contig (i + int (min k (length xs))) (drop k xs)"
proof -
  assume "contig i xs"
  then have "contig i (take k xs @ drop k xs)" by simp
  then show ?thesis by (simp only: contig_append length_take) (simp add: min.commute)
qed

lemma contig_nth: "contig i xs \<Longrightarrow> k < length xs \<Longrightarrow> Entry_Index (xs ! k) = i + int k"
  by (induction xs arbitrary: i k) (auto simp: nth_Cons split: nat.splits)

lemma contig_last: "contig i xs \<Longrightarrow> xs \<noteq> [] \<Longrightarrow> Entry_Index (last xs) = i + int (length xs) - 1"
  using contig_nth [of i xs "length xs - 1"] by (cases xs) (auto simp: last_conv_nth)

lemma contig_update_Term:
  "contig i (xs[k := (xs ! k)\<lparr>Entry_Term := t\<rparr>]) = contig i xs"
  by (induction xs arbitrary: i k) (auto split: nat.splits)

section \<open>Association lists\<close>

lemma set_AList_update: "x \<in> set (AList.update k v al) \<Longrightarrow> x = (k, v) \<or> x \<in> set al"
  by (induction al) (auto split: if_splits)

section \<open>The accessors on a well-formed log\<close>

lemma last_index_wf:
  "log_wf rf \<Longrightarrow> Entry_Index (getLastLogEntryWithoutLock rf) = int (length (Log rf))"
  by (auto simp: log_wf_def getLastLogEntryWithoutLock_def zero_Entry_def contig_last)

lemma head_index_wf: "log_wf rf \<Longrightarrow> Log rf \<noteq> [] \<Longrightarrow> Entry_Index (Log rf ! 0) = 1"
  using contig_nth [of 1 "Log rf" 0] by (simp add: log_wf_def)

text \<open>The accessor as a total function on indexes that are not negative.\<close>

definition entry_at :: "'c Entry list \<Rightarrow> int \<Rightarrow> 'c Entry \<times> bool" where
  "entry_at l index =
     (if index = 0 then (zero_Entry, True)
      else if 0 < index \<and> index \<le> int (length l) then (l ! nat (index - 1), True)
      else (zero_Entry, False))"

lemma getLogAtIndex_wf:
  assumes "log_wf rf" and "0 \<le> index"
  shows "getLogAtIndexWithoutLock rf index = Inr (entry_at (Log rf) index)"
  using assms last_index_wf [OF assms(1)] head_index_wf [OF assms(1)]
  by (auto simp: getLogAtIndexWithoutLock_def entry_at_def go_index_def)

lemma termForLog_wf:
  assumes "log_wf rf" and "0 \<le> index"
  shows "termForLog rf index =
    Inr (case entry_at (Log rf) index of (e, ok) \<Rightarrow> if ok then Entry_Term e else -1)"
  using assms by (simp add: termForLog_def getLogAtIndex_wf split: prod.splits)

lemma termForLog_zero [simp]: "termForLog rf 0 = Inr 0"
  by (simp add: termForLog_def getLogAtIndexWithoutLock_def zero_Entry_def)

lemma indexInLog_Suc [simp]: "0 \<le> i \<Longrightarrow> indexInLog (i + 1) = i"
  by (simp add: indexInLog_def)

lemma log_wf_cong: "Log rf' = Log rf \<Longrightarrow> log_wf rf' = log_wf rf"
  by (simp add: log_wf_def)

lemma getLast_cong:
  "Log rf' = Log rf \<Longrightarrow> getLastLogEntryWithoutLock rf' = getLastLogEntryWithoutLock rf"
  by (simp add: getLastLogEntryWithoutLock_def)

end
