(* ===== verification/Raft_Persist.thy ===== *)
theory Raft_Persist
  imports Raft_Log
begin

text \<open>
  \<open>persister.go\<close>, the functions \<open>persist\<close> and \<open>readPersist\<close> of \<open>raft.go\<close> and the two constructors
  \<open>Make\<close> and \<open>MakeRun\<close>. The contract of durable storage is the locale \<open>durable_store\<close>; the gob
  image used in test mode is its first interpretation (the JSON file of the running server is the
  second, in the theory of the server that reads it back).
\<close>

section \<open>The persister\<close>

definition MakePersister :: "'b Persister" where
  "MakePersister = \<lparr>Persister_raftstate = [], Persister_snapshot = []\<rparr>"

definition Copy :: "'b Persister \<Rightarrow> 'b Persister" where
  "Copy ps = MakePersister\<lparr>Persister_raftstate := Persister_raftstate ps,
     Persister_snapshot := Persister_snapshot ps\<rparr>"

definition SaveRaftState :: "'b Persister \<Rightarrow> 'b list \<Rightarrow> 'b Persister" where
  "SaveRaftState ps state = ps\<lparr>Persister_raftstate := state\<rparr>"

definition ReadRaftState :: "'b Persister \<Rightarrow> 'b list" where
  "ReadRaftState ps = Persister_raftstate ps"

definition RaftStateSize :: "'b Persister \<Rightarrow> nat" where
  "RaftStateSize ps = length (Persister_raftstate ps)"

definition SaveStateAndSnapshot :: "'b Persister \<Rightarrow> 'b list \<Rightarrow> 'b list \<Rightarrow> 'b Persister" where
  "SaveStateAndSnapshot ps state snapshot =
     ps\<lparr>Persister_raftstate := state, Persister_snapshot := snapshot\<rparr>"

definition ReadSnapshot :: "'b Persister \<Rightarrow> 'b list" where
  "ReadSnapshot ps = Persister_snapshot ps"

definition SnapshotSize :: "'b Persister \<Rightarrow> nat" where
  "SnapshotSize ps = length (Persister_snapshot ps)"

section \<open>Encoding and decoding the durable fields\<close>

text \<open>
  \<open>Decode(&v)\<close> takes the next value of the buffer. At the end of the buffer, or on a value of another
  type, it returns an error, which the code ignores, and leaves \<open>v\<close> as it was.
\<close>

fun gob_decode_int :: "int \<Rightarrow> 'c gob_value list \<Rightarrow> int \<times> 'c gob_value list" where
  "gob_decode_int v [] = (v, [])"
| "gob_decode_int v (GobInt n # r) = (n, r)"
| "gob_decode_int v (GobLog l # r) = (v, r)"

fun gob_decode_log ::
  "'c Entry list \<Rightarrow> 'c gob_value list \<Rightarrow> 'c Entry list \<times> 'c gob_value list" where
  "gob_decode_log v [] = (v, [])"
| "gob_decode_log v (GobLog l # r) = (l, r)"
| "gob_decode_log v (GobInt n # r) = (v, r)"

type_synonym 'c durable = "int \<times> int \<times> 'c Entry list"

definition gob_image :: "'c durable \<Rightarrow> 'c gob_value list" where
  "gob_image s = (case s of (t, v, l) \<Rightarrow> [GobInt t, GobInt v, GobLog l])"

definition gob_parse :: "'c gob_value list \<Rightarrow> 'c durable" where
  "gob_parse data =
     (let (CurrentTerm, d1) = gob_decode_int 0 data;
          (VotedFor, d2) = gob_decode_int 0 d1;
          (Logs, d3) = gob_decode_log [] d2
      in (CurrentTerm, VotedFor, Logs))"

definition json_entry :: "'c Entry \<Rightarrow> 'c json_value list" where
  "json_entry e = [JsonCommand (Entry_Command e), JsonInt (Entry_Id e),
     JsonInt (Entry_Index e), JsonInt (Entry_Term e)]"

definition json_image :: "'c durable \<Rightarrow> 'c json_value list" where
  "json_image s = (case s of (t, v, l) \<Rightarrow>
     JsonInt t # JsonInt v # JsonInt (int (length l)) # concat (map json_entry l))"

definition durable_of :: "'c Raft \<Rightarrow> 'c durable" where
  "durable_of rf = (Term rf, VotedFor rf, Log rf)"

definition persist :: "'c Raft \<Rightarrow> 'c Raft" where
  "persist rf =
     (if Test rf
      then rf\<lparr>persister := SaveRaftState (persister rf) (gob_image (durable_of rf))\<rparr>
      else rf\<lparr>yys := Some (json_image (durable_of rf))\<rparr>)"

definition readPersist :: "'c Raft \<Rightarrow> 'c gob_value list \<Rightarrow> 'c Raft" where
  "readPersist rf data =
     (let (CurrentTerm, voted, Logs) = gob_parse data
      in rf\<lparr>Term := CurrentTerm, VotedFor := voted, Log := Logs\<rparr>)"

section \<open>Construction\<close>

text \<open>
  \<open>&Raft{}\<close>: every field is its zero value. The zero of the integer \<open>State\<close> and \<open>Network\<close> names no
  constant of \<open>rpc.go\<close>; the constructors set \<open>State\<close> (and \<open>MakeRun\<close> sets \<open>Network\<close>) before any use.
\<close>

definition zero_Raft :: "'c Raft" where
  "zero_Raft = \<lparr>persister = MakePersister, Me = 0, dead = False, Log = [], IsLeader = False,
     State = Follwer, Term = 0, VotedFor = 0, ReceiveHB = 0, BecomeFollwerFromLeader = 0,
     NextIndex = Map.empty, MatchIndex = [], PeerAlive = Map.empty, OpenCommit = Map.empty,
     CommitIndex = 0, LastApply = 0, ApplyChan = [], PeerNumber = 0, Test = False,
     Network = Connect, yys = None\<rparr>"

definition setRaft :: "'c Raft \<Rightarrow> int \<Rightarrow> 'c Raft" where
  "setRaft rf me = rf\<lparr>Me := me, State := Follwer, Log := [], VotedFor := -1, IsLeader := False,
     Term := 0, ReceiveHB := 0, BecomeFollwerFromLeader := 0, NextIndex := Map.empty,
     MatchIndex := [], PeerAlive := Map.empty, OpenCommit := Map.empty, ApplyChan := [],
     CommitIndex := 0, LastApply := 0\<rparr>"

definition Make :: "int \<Rightarrow> int \<Rightarrow> 'c gob_value Persister \<Rightarrow> 'c Raft" where
  "Make npeers me ps =
     (let rf = setRaft (zero_Raft\<lparr>PeerNumber := npeers, Test := True, persister := ps\<rparr>) me
      in readPersist rf (ReadRaftState ps))"

definition MakeRun :: "'c Raft \<Rightarrow> int \<Rightarrow> int \<Rightarrow> 'c Raft" where
  "MakeRun rf npeers me =
     setRaft (rf\<lparr>Test := False, Network := Connect, PeerNumber := npeers\<rparr>) me"

section \<open>The contract of durable storage\<close>

text \<open>
  \<open>save\<close> stores a state over the old contents of the medium and \<open>load\<close> reads it back; \<open>storable\<close> is
  the set of states the format can carry.
\<close>

locale durable_store =
  fixes storable :: "'st \<Rightarrow> bool"
    and save :: "'st \<Rightarrow> 'disk \<Rightarrow> 'disk"
    and load :: "'disk \<Rightarrow> 'st"
  assumes load_save: "storable s \<Longrightarrow> load (save s d) = s"
begin

lemma last_save_wins: "storable s \<Longrightarrow> load (save s (fold save ss d)) = s"
  by (rule load_save)

lemma save_inj: "storable s \<Longrightarrow> storable s' \<Longrightarrow> save s d = save s' d' \<Longrightarrow> s = s'"
  using load_save by metis

end

definition gob_save :: "'c durable \<Rightarrow> 'c gob_value Persister \<Rightarrow> 'c gob_value Persister" where
  "gob_save s ps = SaveRaftState ps (gob_image s)"

definition gob_load :: "'c gob_value Persister \<Rightarrow> 'c durable" where
  "gob_load ps = gob_parse (ReadRaftState ps)"

lemma gob_parse_image [simp]: "gob_parse (gob_image s) = s"
  by (cases s) (simp add: gob_parse_def gob_image_def)

interpretation gob: durable_store "\<lambda>_. True" gob_save gob_load
  by unfold_locales (simp add: gob_save_def gob_load_def SaveRaftState_def ReadRaftState_def)

section \<open>What persisting changes\<close>

named_theorems persist_simps \<open>the effect of persist on the fields of a server\<close>

lemma persist_fields [persist_simps, simp]:
  "Me (persist rf) = Me rf" "dead (persist rf) = dead rf" "Log (persist rf) = Log rf"
  "IsLeader (persist rf) = IsLeader rf" "State (persist rf) = State rf"
  "Term (persist rf) = Term rf" "VotedFor (persist rf) = VotedFor rf"
  "ReceiveHB (persist rf) = ReceiveHB rf"
  "BecomeFollwerFromLeader (persist rf) = BecomeFollwerFromLeader rf"
  "NextIndex (persist rf) = NextIndex rf" "MatchIndex (persist rf) = MatchIndex rf"
  "PeerAlive (persist rf) = PeerAlive rf" "OpenCommit (persist rf) = OpenCommit rf"
  "CommitIndex (persist rf) = CommitIndex rf" "LastApply (persist rf) = LastApply rf"
  "ApplyChan (persist rf) = ApplyChan rf" "PeerNumber (persist rf) = PeerNumber rf"
  "Test (persist rf) = Test rf" "Network (persist rf) = Network rf"
  by (simp_all add: persist_def)

lemma persist_gob_load: "Test rf \<Longrightarrow> gob_load (persister (persist rf)) = durable_of rf"
  using gob.load_save [of "durable_of rf" "persister rf"]
  by (simp add: persist_def gob_save_def)

lemma gob_load_Copy [simp]: "gob_load (Copy ps) = gob_load ps"
  by (simp add: gob_load_def ReadRaftState_def Copy_def MakePersister_def)

lemma Make_durable: "durable_of (Make n me ps) = gob_load ps"
  by (simp add: Make_def durable_of_def readPersist_def gob_load_def split: prod.splits)

lemma Make_fields [simp]:
  "Me (Make n me ps) = me" "PeerNumber (Make n me ps) = n" "Test (Make n me ps)"
  "State (Make n me ps) = Follwer" "\<not> IsLeader (Make n me ps)" "\<not> dead (Make n me ps)"
  "persister (Make n me ps) = ps" "LastApply (Make n me ps) = 0" "CommitIndex (Make n me ps) = 0"
  "ApplyChan (Make n me ps) = []" "MatchIndex (Make n me ps) = []"
  "ReceiveHB (Make n me ps) = 0" "BecomeFollwerFromLeader (Make n me ps) = 0"
  by (simp_all add: Make_def setRaft_def readPersist_def zero_Raft_def split: prod.splits)

end
