(* ===== verification/Raft_Handlers.thy ===== *)
theory Raft_Handlers
  imports Raft_Persist
begin

text \<open>
  The two RPC handlers of \<open>handler.go\<close>, each one locked region, with \<open>startApply\<close> of \<open>raft.go\<close>, which
  the append handler runs on a commit.
\<close>

section \<open>Applying committed entries\<close>

definition apply_msg :: "'c Entry list \<Rightarrow> int \<Rightarrow> 'c ApplyMsg" where
  "apply_msg l i = \<lparr>ApplyMsg_Command = Entry_Command (l ! nat (i - 1)),
     ApplyMsg_CommandValid = True, ApplyMsg_CommandIndex = i\<rparr>"

function startApply :: "'c Raft \<Rightarrow> int \<Rightarrow> 'c Raft go" where
  "startApply rf commitIndex =
     (if commitIndex > LastApply rf \<and> \<not> dead rf then
        let rf1 = rf\<lparr>LastApply := LastApply rf + 1\<rparr> in
        go_bind (go_index (Log rf1) (indexInLog (LastApply rf1))) (\<lambda>e.
          let am = \<lparr>ApplyMsg_Command = Entry_Command e, ApplyMsg_CommandValid = True,
                    ApplyMsg_CommandIndex = LastApply rf1\<rparr>
          in startApply (rf1\<lparr>ApplyChan := ApplyChan rf1 @ [am]\<rparr>) commitIndex)
      else Inr rf)"
  by pat_completeness auto
termination
  by (relation "measure (\<lambda>(rf, c). nat (c - LastApply rf))") auto

declare startApply.simps [simp del]

text \<open>On a log that holds every index up to the commit index, the loop sends exactly the missing
  messages, in order.\<close>

lemma startApply_spec:
  assumes "0 \<le> LastApply rf" and "commitIndex \<le> int (length (Log rf))"
  shows "startApply rf commitIndex = Inr
    (if commitIndex > LastApply rf \<and> \<not> dead rf
     then rf\<lparr>LastApply := commitIndex,
       ApplyChan := ApplyChan rf @ map (apply_msg (Log rf)) [LastApply rf + 1..commitIndex]\<rparr>
     else rf)"
  using assms
proof (induction rf commitIndex rule: startApply.induct)
  case (1 rf c)
  show ?case
  proof (cases "c > LastApply rf \<and> \<not> dead rf")
    case False
    then show ?thesis by (auto simp: startApply.simps [of rf c])
  next
    case True
    let ?l = "LastApply rf + 1"
    let ?rf' = "rf\<lparr>LastApply := ?l, ApplyChan := ApplyChan rf @ [apply_msg (Log rf) ?l]\<rparr>"
    have e: "go_index (Log rf) (indexInLog ?l) = Inr (Log rf ! nat (?l - 1))"
      using True "1.prems" by (simp add: go_index_def)
    have "startApply rf c = startApply ?rf' c"
      using True e by (simp add: startApply.simps [of rf c] apply_msg_def)
    also have "\<dots> = Inr (if c > ?l then ?rf'\<lparr>LastApply := c,
        ApplyChan := ApplyChan ?rf' @ map (apply_msg (Log rf)) [?l + 1..c]\<rparr> else ?rf')"
      using "1.IH" [OF True refl refl, of "Log rf ! nat (?l - 1)"] True "1.prems"
      by (simp add: apply_msg_def)
    finally show ?thesis
      using True by (auto simp: upto_rec1 [of ?l c])
  qed
qed

section \<open>HandleAppendEntries\<close>

text \<open>
  The notification both handlers send before they step down: \<open>BecomeFollwerFromLeader <- true\<close> on a
  leader, \<open>ReceiveHB <- true\<close> otherwise.
\<close>

definition notifyFollwer :: "'c Raft \<Rightarrow> 'c Raft go" where
  "notifyFollwer rf =
     (if IsLeader rf
      then go_bind (chan_send (BecomeFollwerFromLeader rf))
             (\<lambda>b. Inr (rf\<lparr>BecomeFollwerFromLeader := b\<rparr>))
      else go_bind (chan_send (ReceiveHB rf)) (\<lambda>b. Inr (rf\<lparr>ReceiveHB := b\<rparr>)))"

definition setLastTerm :: "int \<Rightarrow> 'c Entry list \<Rightarrow> 'c Entry list" where
  "setLastTerm t l =
     (if length l > 0
      then l[length l - 1 := (l ! (length l - 1))\<lparr>Entry_Term := t\<rparr>] else l)"

definition handleAppendJob ::
  "'c Raft \<Rightarrow> 'c AppendEntriesArgs \<Rightarrow> AppendEntriesReply \<Rightarrow> ('c Raft \<times> AppendEntriesReply) go" where
  "handleAppendJob rf args reply =
     go_bind (getLogAtIndexWithoutLock rf (AE_PrevLogIndex args)) (\<lambda>(entr, find).
       if \<not> find then
         Inr (rf, reply\<lparr>AER_LastIndex := Entry_Index (getLastLogEntryWithoutLock rf),
           AER_Success := False\<rparr>)
       else if Entry_Term entr \<noteq> AE_PrevLogTerm args then
         go_bind (go_slice_to (Log rf) (indexInLog (AE_PrevLogIndex args))) (\<lambda>l.
           Inr (rf\<lparr>Log := l\<rparr>, reply\<lparr>AER_LastIndex := -1, AER_Success := False\<rparr>))
       else
         go_bind (go_slice_to (Log rf) (indexInLog (AE_PrevLogIndex args + 1))) (\<lambda>l.
           Inr (rf\<lparr>Log := setLastTerm (AE_Term args) (l @ AE_Entries args)\<rparr>,
             reply\<lparr>AER_LastIndex := -1, AER_Success := True\<rparr>)))"

definition handleCommitJob ::
  "'c Raft \<Rightarrow> 'c AppendEntriesArgs \<Rightarrow> AppendEntriesReply \<Rightarrow> ('c Raft \<times> AppendEntriesReply) go" where
  "handleCommitJob rf args reply =
     (let rf1 = rf\<lparr>CommitIndex :=
        go_min (AE_LeaderCommit args) (Entry_Index (getLastLogEntryWithoutLock rf))\<rparr>
      in go_bind (startApply rf1 (CommitIndex rf1)) (\<lambda>rf2. Inr (rf2, reply)))"

definition HandleAppendEntries ::
  "'c Raft \<Rightarrow> 'c AppendEntriesArgs \<Rightarrow> ('c Raft \<times> AppendEntriesReply) go" where
  "HandleAppendEntries rf args =
     (if AE_Term args \<ge> Term rf then
        go_bind (notifyFollwer (rf\<lparr>Term := AE_Term args\<rparr>)) (\<lambda>rf1.
          let rf2 = setFollwer rf1;
              reply = zero_AppendEntriesReply\<lparr>AER_Success := True, AER_Term := Term rf2\<rparr>
          in go_bind
               (case AE_Job args of
                  Append \<Rightarrow> handleAppendJob rf2 args reply
                | CommitAndHeartBeat \<Rightarrow> handleCommitJob rf2 args reply
                | HeartBeat \<Rightarrow> Inr (rf2, reply))
               (\<lambda>(rf3, reply'). Inr (persist rf3, reply')))
      else
        Inr (persist rf, zero_AppendEntriesReply\<lparr>AER_Term := Term rf, AER_Success := False\<rparr>))"

section \<open>HandleRequestVote\<close>

definition upToDate :: "int \<Rightarrow> int \<Rightarrow> RequestVoteArgs \<Rightarrow> bool" where
  "upToDate lastTerm lastIndex args \<longleftrightarrow>
     lastTerm < RV_LastLogTerm args \<or>
     lastTerm = RV_LastLogTerm args \<and> lastIndex \<le> RV_LastLogIndex args"

definition HandleRequestVote ::
  "'c Raft \<Rightarrow> RequestVoteArgs \<Rightarrow> ('c Raft \<times> RequestVoteReply) go" where
  "HandleRequestVote rf args =
     (let rfLastIndex = Entry_Index (getLastLogEntryWithoutLock rf) in
      go_bind (termForLog rf rfLastIndex) (\<lambda>rfLastTerm.
        go_bind
          (if RV_Term args > Term rf then
             go_bind (notifyFollwer (rf\<lparr>Term := RV_Term args\<rparr>)) (\<lambda>rf1.
               Inr ((setFollwer rf1)\<lparr>VotedFor := -1\<rparr>))
           else Inr rf)
          (\<lambda>rf2.
             let grant = (VotedFor rf2 = -1 \<and> upToDate rfLastTerm rfLastIndex args);
                 rf3 = (if grant then rf2\<lparr>VotedFor := RV_PeerId args\<rparr> else rf2)
             in Inr (persist rf3,
                  \<lparr>RVR_Term = Term rf3, RVR_VoteGranted = grant, RVR_State = State rf3\<rparr>))))"

end
