(* ===== verification/Raft_Candidate.thy ===== *)
theory Raft_Candidate
  imports Raft_Handlers
begin

text \<open>
  \<open>startAsCand\<close> of \<open>raft.go\<close>, region by region: the locked prologue that opens the campaign, the
  locked region of the goroutine that receives one vote reply, the condition the campaign waits on
  and its decision. The record \<open>campaign\<close> holds the local variables its goroutines share.
\<close>

record campaign =
  hearedBack :: int
  votes :: int
  needReturn :: bool
  campaign_args :: RequestVoteArgs

definition startAsCand_begin :: "'c Raft \<Rightarrow> ('c Raft \<times> campaign) go" where
  "startAsCand_begin rf =
     (let rf1 = rf\<lparr>State := Cand, Term := Term rf + 1, VotedFor := Me rf\<rparr>;
          lastLogIndex = Entry_Index (getLastLogEntryWithoutLock rf1)
      in go_bind (termForLog rf1 lastLogIndex) (\<lambda>lastLogTerm.
           Inr (persist rf1,
             \<lparr>hearedBack = 1, votes = 1, needReturn = False,
              campaign_args = \<lparr>RV_PeerId = Me rf1, RV_Term = Term rf1,
                RV_LastLogIndex = lastLogIndex, RV_LastLogTerm = lastLogTerm\<rparr>\<rparr>)))"

text \<open>The reply is \<open>None\<close> when the RPC failed.\<close>

definition startAsCand_reply ::
  "'c Raft \<Rightarrow> campaign \<Rightarrow> RequestVoteReply option \<Rightarrow> ('c Raft \<times> campaign) go" where
  "startAsCand_reply rf cp reply =
     (let cp1 = cp\<lparr>hearedBack := hearedBack cp + 1\<rparr> in
      case reply of
        None \<Rightarrow> Inr (rf, cp1)
      | Some r \<Rightarrow>
          if needReturn cp then Inr (rf, cp1)
          else if RVR_Term r > Term rf \<and> State rf \<noteq> Follwer then
            go_bind (chan_send (ReceiveHB rf)) (\<lambda>b.
              Inr (persist ((setFollwer (rf\<lparr>ReceiveHB := b\<rparr>))\<lparr>Term := RVR_Term r\<rparr>), cp1))
          else if RVR_VoteGranted r \<and> State rf = Cand then
            Inr (rf, cp1\<lparr>votes := votes cp1 + 1\<rparr>)
          else Inr (rf, cp1))"

definition startAsCand_waits :: "'c Raft \<Rightarrow> campaign \<Rightarrow> bool" where
  "startAsCand_waits rf cp \<longleftrightarrow>
     hearedBack cp \<noteq> PeerNumber rf \<and> votes cp \<le> PeerNumber rf div 2 \<and>
     \<not> needReturn cp \<and> State rf = Cand"

definition startAsCand_decide :: "'c Raft \<Rightarrow> campaign \<Rightarrow> election_result" where
  "startAsCand_decide rf cp =
     (if votes cp > PeerNumber rf div 2 \<and> State rf = Cand \<and> \<not> needReturn cp
      then Win else DidNotWin)"

end
