(* ===== verification/Raft_Leader.thy ===== *)
theory Raft_Leader
  imports Raft_Candidate
begin

text \<open>
  The leader's side of \<open>raft.go\<close>: \<open>startAsLeader\<close>, \<open>sendHeartBeat\<close>, \<open>Start\<close>, \<open>StartOnePeerAppend\<close> and
  \<open>updateCommitForLeader\<close>. A function that takes the lock several times is one definition per locked
  region; \<open>Raft_Cluster\<close> composes them.
\<close>

section \<open>startAsLeader\<close>

definition startAsLeader_server :: "int \<Rightarrow> 'c Raft \<Rightarrow> 'c Raft" where
  "startAsLeader_server server rf =
     (let rf1 = rf\<lparr>NextIndex := (NextIndex rf)
                    (server \<mapsto> Entry_Index (getLastLogEntryWithoutLock rf) + 1),
                  MatchIndex := AList.update server 0 (MatchIndex rf),
                  PeerAlive := (PeerAlive rf)(server \<mapsto> False),
                  OpenCommit := (OpenCommit rf)(server \<mapsto> False)\<rparr>
      in rf1\<lparr>Log := setLastTerm (Term rf1) (Log rf1)\<rparr>)"

definition startAsLeader_setup :: "'c Raft \<Rightarrow> 'c Raft" where
  "startAsLeader_setup rf = setLeader (fold startAsLeader_server [0..PeerNumber rf - 1] rf)"

section \<open>sendHeartBeat\<close>

definition heartBeatArgs :: "'c Raft \<Rightarrow> int \<Rightarrow> 'c AppendEntriesArgs" where
  "heartBeatArgs rf server =
     \<lparr>AE_Job = (if go_get False (OpenCommit rf) server then CommitAndHeartBeat else HeartBeat),
      AE_Term = Term rf, AE_LeaderId = Me rf, AE_Entries = [], AE_PrevLogIndex = 0,
      AE_PrevLogTerm = 0, AE_LeaderCommit = CommitIndex rf\<rparr>"

definition markDead :: "'c Raft \<Rightarrow> int \<Rightarrow> 'c Raft" where
  "markDead rf server = rf\<lparr>PeerAlive := (PeerAlive rf)(server \<mapsto> False),
     OpenCommit := (OpenCommit rf)(server \<mapsto> False)\<rparr>"

text \<open>The Boolean result says whether the region starts \<open>StartOnePeerAppend(server)\<close>.\<close>

definition sendHeartBeat_reply ::
  "'c Raft \<Rightarrow> int \<Rightarrow> AppendEntriesReply option \<Rightarrow> ('c Raft \<times> bool) go" where
  "sendHeartBeat_reply rf server reply =
     (case reply of
        None \<Rightarrow> Inr (markDead rf server, False)
      | Some r \<Rightarrow>
          if AER_Term r > Term rf \<and> State rf = Leader then
            go_bind (chan_send (BecomeFollwerFromLeader rf)) (\<lambda>b.
              Inr (persist (setFollwer
                (rf\<lparr>Term := AER_Term r, BecomeFollwerFromLeader := b\<rparr>)), False))
          else if \<not> go_get False (PeerAlive rf) server \<and> State rf = Leader then
            Inr (rf\<lparr>PeerAlive := (PeerAlive rf)(server \<mapsto> True)\<rparr>, True)
          else Inr (rf, False))"

section \<open>Start\<close>

definition Start_append :: "'c Raft \<Rightarrow> 'c option \<Rightarrow> 'c Raft \<times> int \<times> int" where
  "Start_append rf command =
     (let newE = zero_Entry\<lparr>Entry_Command := command,
            Entry_Index := Entry_Index (getLastLogEntryWithoutLock rf) + 1,
            Entry_Term := Term rf\<rparr>;
          rf1 = rf\<lparr>Log := Log rf @ [newE]\<rparr>
      in (persist rf1, Entry_Index (getLastLogEntryWithoutLock rf1), Term rf))"

definition Start_waits :: "'c Raft \<Rightarrow> int \<Rightarrow> int \<Rightarrow> bool" where
  "Start_waits rf index heared \<longleftrightarrow>
     heared \<noteq> PeerNumber rf \<and> CommitIndex rf < index \<and> IsLeader rf"

definition Start_result :: "'c Raft \<Rightarrow> int \<Rightarrow> int \<Rightarrow> int \<times> int \<times> bool" where
  "Start_result rf index trm = (if \<not> IsLeader rf then (-1, -1, False) else (index, trm, True))"

section \<open>updateCommitForLeader\<close>

definition lastIndex :: "'c Raft \<Rightarrow> int" where
  "lastIndex rf = Entry_Index (getLastLogEntryWithoutLock rf)"

definition granted :: "'c Raft \<Rightarrow> int \<Rightarrow> int" where
  "granted rf beginIndex =
     fold (\<lambda>(server, serverMatchIndex) g.
        if server = Me rf \<or> \<not> go_get False (PeerAlive rf) server then g
        else if serverMatchIndex \<ge> beginIndex then g + 1 else g) (MatchIndex rf) 1"

function commitLoop :: "'c Raft \<Rightarrow> int \<Rightarrow> int \<Rightarrow> int" where
  "commitLoop rf beginIndex lastCommittedIndex =
     (if beginIndex \<le> lastIndex rf then
        commitLoop rf (beginIndex + 1)
          (if granted rf beginIndex \<ge> PeerNumber rf div 2 + 1 then beginIndex
           else lastCommittedIndex)
      else lastCommittedIndex)"
  by pat_completeness auto
termination
  by (relation "measure (\<lambda>(rf, b, l). nat (lastIndex rf + 1 - b))") auto

declare commitLoop.simps [simp del]

definition updateCommitForLeader :: "'c Raft \<Rightarrow> 'c Raft \<times> bool" where
  "updateCommitForLeader rf =
     (let lastCommittedIndex = commitLoop rf (CommitIndex rf + 1) (-1)
      in if lastCommittedIndex > CommitIndex rf \<and> IsLeader rf
         then (rf\<lparr>CommitIndex := lastCommittedIndex\<rparr>, True) else (rf, False))"

section \<open>StartOnePeerAppend\<close>

function collectEntries :: "'c Raft \<Rightarrow> int \<Rightarrow> 'c Entry list \<Rightarrow> 'c Entry list go" where
  "collectEntries rf i entries =
     (if i \<le> lastIndex rf then
        go_bind (getLogAtIndexWithoutLock rf i) (\<lambda>(entry, find).
          if \<not> find then Inr [] else collectEntries rf (i + 1) (entries @ [entry]))
      else Inr entries)"
  by pat_completeness auto
termination
  by (relation "measure (\<lambda>(rf, i, es). nat (lastIndex rf + 1 - i))") auto

declare collectEntries.simps [simp del]

definition matchOf :: "'c Raft \<Rightarrow> int \<Rightarrow> int" where
  "matchOf rf server = go_get 0 (map_of (MatchIndex rf)) server"

definition StartOnePeerAppend_setup :: "'c Raft \<Rightarrow> int \<Rightarrow> 'c AppendEntriesArgs go" where
  "StartOnePeerAppend_setup rf server =
     go_bind (collectEntries rf (matchOf rf server + 1) []) (\<lambda>entries.
       go_bind (termForLog rf (matchOf rf server)) (\<lambda>prevTerm.
         Inr \<lparr>AE_Job = Append, AE_Term = Term rf, AE_LeaderId = Me rf, AE_Entries = entries,
              AE_PrevLogIndex = matchOf rf server, AE_PrevLogTerm = prevTerm,
              AE_LeaderCommit = CommitIndex rf\<rparr>))"

text \<open>The guard of the resend loop and of its body, each under its own lock.\<close>

definition StartOnePeerAppend_continues :: "'c Raft \<Rightarrow> bool" where
  "StartOnePeerAppend_continues rf \<longleftrightarrow> State rf = Leader \<and> \<not> dead rf"

definition StartOnePeerAppend_sends :: "'c Raft \<Rightarrow> int \<Rightarrow> bool" where
  "StartOnePeerAppend_sends rf server \<longleftrightarrow> go_get False (PeerAlive rf) server \<and> IsLeader rf"

definition StartOnePeerAppend_success ::
  "'c Raft \<Rightarrow> int \<Rightarrow> 'c AppendEntriesArgs \<Rightarrow> 'c Raft go" where
  "StartOnePeerAppend_success rf server args =
     (let m = int (length (AE_Entries args)) + AE_PrevLogIndex args;
          rf1 = rf\<lparr>MatchIndex := AList.update server m (MatchIndex rf),
                   NextIndex := (NextIndex rf)(server \<mapsto> m + 1),
                   OpenCommit := (OpenCommit rf)(server \<mapsto> True),
                   PeerAlive := (PeerAlive rf)(server \<mapsto> True)\<rparr>;
          (rf2, updated) = updateCommitForLeader rf1
      in if updated \<and> IsLeader rf2 then startApply rf2 (CommitIndex rf2) else Inr rf2)"

definition StartOnePeerAppend_resend ::
  "'c Raft \<Rightarrow> int \<Rightarrow> 'c AppendEntriesArgs \<Rightarrow> AppendEntriesReply \<Rightarrow>
     ('c Raft \<times> 'c AppendEntriesArgs) go" where
  "StartOnePeerAppend_resend rf server args reply =
     (let rf1 = rf\<lparr>PeerAlive := (PeerAlive rf)(server \<mapsto> True)\<rparr>;
          prev = (if AER_LastIndex reply \<noteq> -1 then AER_LastIndex reply
                  else AE_PrevLogIndex args - 1)
      in go_bind (termForLog rf1 prev) (\<lambda>prevTerm.
           go_bind (go_slice_from (Log rf1) (indexInLog (prev + 1))) (\<lambda>entries.
             Inr (rf1, args\<lparr>AE_Term := Term rf1, AE_LeaderCommit := CommitIndex rf1,
               AE_PrevLogIndex := prev, AE_PrevLogTerm := prevTerm, AE_Entries := entries\<rparr>))))"

end
