(* ===== verification/Raft_Server.thy ===== *)
theory Raft_Server
  imports Raft_Leader "HOL-Library.Sublist"
begin

text \<open>
  The correctness of one server: the invariant \<open>server_ok\<close> every locked region keeps, the relation
  \<open>evolves\<close> between the states before and after a region, and for each region its functional
  description, the absence of run-time panics and the preservation of the invariant. The contract
  all regions share is the locale \<open>raft_region\<close>, interpreted once per operation.
\<close>

section \<open>The invariant of a server\<close>

definition role_ok :: "'c Raft \<Rightarrow> bool" where
  "role_ok rf \<longleftrightarrow> (State rf = Leader \<longrightarrow> IsLeader rf) \<and> (State rf = Follwer \<longrightarrow> \<not> IsLeader rf)"

text \<open>The messages handed to the service carry the indexes \<open>1, 2, \<dots>, LastApply\<close>, in this order.\<close>

definition apply_ok :: "'c Raft \<Rightarrow> bool" where
  "apply_ok rf \<longleftrightarrow> 0 \<le> LastApply rf \<and>
     map ApplyMsg_CommandIndex (ApplyChan rf) = [1..LastApply rf]"

definition match_ok :: "'c Raft \<Rightarrow> bool" where
  "match_ok rf \<longleftrightarrow> distinct (map fst (MatchIndex rf)) \<and> (\<forall>(s, m) \<in> set (MatchIndex rf). 0 \<le> m)"

definition server_ok :: "'c Raft \<Rightarrow> bool" where
  "server_ok rf \<longleftrightarrow> role_ok rf \<and> log_wf rf \<and> apply_ok rf \<and> match_ok rf"

text \<open>The term and the vote on disk are those in memory, and the log on disk is well formed.\<close>

definition durable_ok :: "'c Raft \<Rightarrow> bool" where
  "durable_ok rf \<longleftrightarrow> Test rf \<and>
     fst (gob_load (persister rf)) = Term rf \<and> fst (snd (gob_load (persister rf))) = VotedFor rf \<and>
     contig 1 (snd (snd (gob_load (persister rf))))"

text \<open>
  \<open>evolves rf rf'\<close>: the identity of the server is the same, its term has not decreased, within a
  term a vote once given is kept, and the service has received more messages at most.
\<close>

definition evolves :: "'c Raft \<Rightarrow> 'c Raft \<Rightarrow> bool" where
  "evolves rf rf' \<longleftrightarrow>
     Me rf' = Me rf \<and> PeerNumber rf' = PeerNumber rf \<and> Test rf' = Test rf \<and> dead rf' = dead rf \<and>
     Term rf \<le> Term rf' \<and>
     (Term rf' = Term rf \<longrightarrow> VotedFor rf = -1 \<or> VotedFor rf' = VotedFor rf) \<and>
     LastApply rf \<le> LastApply rf' \<and> prefix (ApplyChan rf) (ApplyChan rf')"

lemma evolves_refl [simp, intro]: "evolves rf rf"
  by (simp add: evolves_def)

lemma evolves_trans [trans]: "evolves a b \<Longrightarrow> evolves b c \<Longrightarrow> evolves a c"
  by (auto simp: evolves_def intro: prefix_order.trans)

locale raft_region =
  fixes region :: "'c Raft \<Rightarrow> 'c Raft \<Rightarrow> bool"
  assumes region_ok: "server_ok rf \<Longrightarrow> region rf rf' \<Longrightarrow> server_ok rf'"
    and region_evolves: "server_ok rf \<Longrightarrow> region rf rf' \<Longrightarrow> evolves rf rf'"
    and region_durable: "server_ok rf \<Longrightarrow> durable_ok rf \<Longrightarrow> region rf rf' \<Longrightarrow> durable_ok rf'"
begin

lemma term_mono: "server_ok rf \<Longrightarrow> region rf rf' \<Longrightarrow> Term rf \<le> Term rf'"
  using region_evolves by (fastforce simp: evolves_def)

lemma vote_kept:
  "server_ok rf \<Longrightarrow> region rf rf' \<Longrightarrow> Term rf' = Term rf \<Longrightarrow> VotedFor rf \<noteq> -1 \<Longrightarrow>
     VotedFor rf' = VotedFor rf"
  using region_evolves by (fastforce simp: evolves_def)

lemma messages_kept: "server_ok rf \<Longrightarrow> region rf rf' \<Longrightarrow> prefix (ApplyChan rf) (ApplyChan rf')"
  using region_evolves by (fastforce simp: evolves_def)

end

section \<open>Updates that leave the invariant alone\<close>

lemma server_ok_cong:
  assumes "IsLeader rf' = IsLeader rf" "State rf' = State rf" "Log rf' = Log rf"
    "LastApply rf' = LastApply rf" "ApplyChan rf' = ApplyChan rf" "MatchIndex rf' = MatchIndex rf"
  shows "server_ok rf' = server_ok rf"
  using assms by (simp add: server_ok_def role_ok_def log_wf_def apply_ok_def match_ok_def)

lemma server_ok_persist [simp]: "server_ok (persist rf) = server_ok rf"
  by (rule server_ok_cong) simp_all

lemma durable_ok_persist [simp]: "Test rf \<Longrightarrow> server_ok rf \<Longrightarrow> durable_ok (persist rf)"
  by (simp add: durable_ok_def persist_gob_load server_ok_def log_wf_def)
    (simp add: durable_of_def)

lemma evolves_persist [simp]: "evolves rf (persist rf') = evolves rf rf'"
  by (simp add: evolves_def)

lemma durable_ok_cong:
  "persister rf' = persister rf \<Longrightarrow> Test rf' = Test rf \<Longrightarrow> Term rf' = Term rf \<Longrightarrow>
     VotedFor rf' = VotedFor rf \<Longrightarrow> durable_ok rf' = durable_ok rf"
  by (simp add: durable_ok_def)

lemma server_ok_setFollwer: "server_ok rf \<Longrightarrow> server_ok (setFollwer rf)"
  by (auto simp: server_ok_def role_ok_def log_wf_def apply_ok_def match_ok_def setFollwer_def)

lemma server_ok_Log:
  "server_ok rf \<Longrightarrow> contig 1 l \<Longrightarrow> server_ok (rf\<lparr>Log := l\<rparr>)"
  by (auto simp: server_ok_def role_ok_def log_wf_def apply_ok_def match_ok_def)

lemma contig_setLastTerm [simp]: "contig i (setLastTerm t l) = contig i l"
  by (simp add: setLastTerm_def contig_update_Term)

lemma length_setLastTerm [simp]: "length (setLastTerm t l) = length l"
  by (simp add: setLastTerm_def)

section \<open>startApply\<close>

lemma map_apply_msg_index: "map ApplyMsg_CommandIndex (map (apply_msg l) is) = is"
  by (induction "is") (auto simp: apply_msg_def)

lemma upto_append_upto: "0 \<le> i \<Longrightarrow> i \<le> j \<Longrightarrow> [1..i] @ [i + 1..j] = [1..j :: int]"
  using upto_split2 [of 1 i j] by (cases "i = 0") auto

lemma startApply_ok:
  assumes "server_ok rf" and "c \<le> int (length (Log rf))"
  shows "\<exists>rf'. startApply rf c = Inr rf' \<and> server_ok rf' \<and> evolves rf rf' \<and>
    Log rf' = Log rf \<and> Term rf' = Term rf \<and> VotedFor rf' = VotedFor rf \<and>
    persister rf' = persister rf \<and> Test rf' = Test rf \<and> CommitIndex rf' = CommitIndex rf"
proof -
  have ap: "0 \<le> LastApply rf" "map ApplyMsg_CommandIndex (ApplyChan rf) = [1..LastApply rf]"
    using assms(1) by (auto simp: server_ok_def apply_ok_def)
  show ?thesis
  proof (cases "c > LastApply rf \<and> \<not> dead rf")
    case True
    then have "apply_ok (rf\<lparr>LastApply := c,
        ApplyChan := ApplyChan rf @ map (apply_msg (Log rf)) [LastApply rf + 1..c]\<rparr>)"
      using ap by (simp add: apply_ok_def map_apply_msg_index upto_append_upto del: map_map)
    with True assms ap show ?thesis
      by (simp add: startApply_spec server_ok_def role_ok_def log_wf_def match_ok_def evolves_def)
  next
    case False
    with assms ap show ?thesis by (auto simp: startApply_spec)
  qed
qed

section \<open>HandleAppendEntries\<close>

text \<open>
  The requests leaders build: the entries continue the log after \<open>PrevLogIndex\<close>, and the entry
  before the first one has term 0.
\<close>

definition append_ok :: "'c AppendEntriesArgs \<Rightarrow> bool" where
  "append_ok args \<longleftrightarrow> 0 \<le> AE_PrevLogIndex args \<and>
     contig (AE_PrevLogIndex args + 1) (AE_Entries args) \<and>
     (AE_PrevLogIndex args = 0 \<longrightarrow> AE_PrevLogTerm args = 0)"

text \<open>The reference description of the append job on the log alone.\<close>

definition appended_log :: "'c Entry list \<Rightarrow> 'c AppendEntriesArgs \<Rightarrow> 'c Entry list \<times> int \<times> bool" where
  "appended_log l args =
     (let prev = AE_PrevLogIndex args in
      if prev > int (length l) then (l, int (length l), False)
      else if Entry_Term (fst (entry_at l prev)) \<noteq> AE_PrevLogTerm args
        then (take (nat (prev - 1)) l, -1, False)
      else (setLastTerm (AE_Term args) (take (nat prev) l @ AE_Entries args), -1, True))"

lemma handleAppendJob_spec:
  assumes wf: "log_wf rf" and args: "append_ok args"
  shows "handleAppendJob rf args reply =
    Inr (case appended_log (Log rf) args of (l, li, success) \<Rightarrow>
      (rf\<lparr>Log := l\<rparr>, reply\<lparr>AER_LastIndex := li, AER_Success := success\<rparr>))"
  using args last_index_wf [OF wf]
  by (auto simp: handleAppendJob_def getLogAtIndex_wf [OF wf] append_ok_def appended_log_def
      entry_at_def go_slice_to_def indexInLog_def zero_Entry_def Let_def)

lemma contig_appended_log:
  assumes "contig 1 l" and "append_ok args"
  shows "contig 1 (fst (appended_log l args))"
proof (cases "AE_PrevLogIndex args > int (length l)")
  case False
  moreover have "contig 1 (take k l)" for k using assms(1) by (rule contig_take)
  moreover have "min (length l) (nat (AE_PrevLogIndex args)) = nat (AE_PrevLogIndex args)"
    using False by simp
  ultimately show ?thesis
    using assms by (auto simp: appended_log_def append_ok_def Let_def algebra_simps)
qed (use assms in \<open>simp add: appended_log_def Let_def\<close>)

lemma notifyFollwer_Inr:
  "notifyFollwer rf = Inr rf' \<longleftrightarrow>
     (if IsLeader rf then BecomeFollwerFromLeader rf = 0 \<and> rf' = rf\<lparr>BecomeFollwerFromLeader := 1\<rparr>
      else ReceiveHB rf = 0 \<and> rf' = rf\<lparr>ReceiveHB := 1\<rparr>)"
  by (auto simp: notifyFollwer_def go_simps)

lemma notifyFollwer_no_panic [simp]: "notifyFollwer rf \<noteq> Inl Panic"
  by (auto simp: notifyFollwer_def go_bind_Inl_iff)

text \<open>The state the body of the handler runs in, once the notification has been sent.\<close>

definition notified :: "'c Raft \<Rightarrow> int \<Rightarrow> 'c Raft" where
  "notified rf t = rf\<lparr>Term := t,
     BecomeFollwerFromLeader := (if IsLeader rf then 1 else BecomeFollwerFromLeader rf),
     ReceiveHB := (if IsLeader rf then ReceiveHB rf else 1)\<rparr>"

definition steppedDown :: "'c Raft \<Rightarrow> int \<Rightarrow> 'c Raft" where
  "steppedDown rf t = setFollwer (notified rf t)"

definition canNotify :: "'c Raft \<Rightarrow> bool" where
  "canNotify rf \<longleftrightarrow> (if IsLeader rf then BecomeFollwerFromLeader rf = 0 else ReceiveHB rf = 0)"

lemma notify_stepDown:
  "notifyFollwer (rf\<lparr>Term := t\<rparr>) = (if canNotify rf then Inr (notified rf t) else Inl WouldBlock)"
  by (auto simp: notifyFollwer_def chan_send_def canNotify_def notified_def)

lemma steppedDown_fields [simp]:
  "Log (steppedDown rf t) = Log rf" "Term (steppedDown rf t) = t"
  "VotedFor (steppedDown rf t) = VotedFor rf" "State (steppedDown rf t) = Follwer"
  "\<not> IsLeader (steppedDown rf t)" "Me (steppedDown rf t) = Me rf"
  "PeerNumber (steppedDown rf t) = PeerNumber rf" "Test (steppedDown rf t) = Test rf"
  "dead (steppedDown rf t) = dead rf" "LastApply (steppedDown rf t) = LastApply rf"
  "ApplyChan (steppedDown rf t) = ApplyChan rf" "MatchIndex (steppedDown rf t) = MatchIndex rf"
  "CommitIndex (steppedDown rf t) = CommitIndex rf"
  "persister (steppedDown rf t) = persister rf"
  by (simp_all add: steppedDown_def notified_def setFollwer_def)

lemma server_ok_steppedDown: "server_ok rf \<Longrightarrow> server_ok (steppedDown rf t)"
  by (auto simp: server_ok_def role_ok_def log_wf_def apply_ok_def match_ok_def)

lemma HandleAppendEntries_unfold:
  "HandleAppendEntries rf args =
     (if AE_Term args < Term rf
      then Inr (persist rf, zero_AppendEntriesReply\<lparr>AER_Term := Term rf, AER_Success := False\<rparr>)
      else if \<not> canNotify rf then Inl WouldBlock
      else
        let rf2 = steppedDown rf (AE_Term args);
            reply = zero_AppendEntriesReply\<lparr>AER_Success := True, AER_Term := AE_Term args\<rparr>
        in go_bind
             (case AE_Job args of
                Append \<Rightarrow> handleAppendJob rf2 args reply
              | CommitAndHeartBeat \<Rightarrow> handleCommitJob rf2 args reply
              | HeartBeat \<Rightarrow> Inr (rf2, reply))
             (\<lambda>(rf3, reply'). Inr (persist rf3, reply')))"
proof -
  have "setFollwer (notified rf t) = steppedDown rf t" for t by (simp add: steppedDown_def)
  then show ?thesis
    by (cases "AE_Job args") (simp_all add: HandleAppendEntries_def notify_stepDown Let_def)
qed

lemma go_min_min: "go_min a b = min a b"
  by (simp add: go_min_def min_def)

lemma handleCommitJob_ok:
  assumes "server_ok rf"
  shows "\<exists>rf'. handleCommitJob rf args reply = Inr (rf', reply) \<and> server_ok rf' \<and> evolves rf rf' \<and>
    Log rf' = Log rf \<and> Term rf' = Term rf \<and> VotedFor rf' = VotedFor rf \<and> Test rf' = Test rf \<and>
    CommitIndex rf' = min (AE_LeaderCommit args) (int (length (Log rf)))"
proof -
  let ?c = "min (AE_LeaderCommit args) (int (length (Log rf)))"
  have "server_ok (rf\<lparr>CommitIndex := ?c\<rparr>)"
    using assms by (subst server_ok_cong [of _ rf]) simp_all
  from startApply_ok [OF this, of ?c] assms show ?thesis
    by (auto simp: handleCommitJob_def go_min_min last_index_wf server_ok_def Let_def evolves_def)
qed

text \<open>What a reply to an append request may say, as the resend of the leader relies on it.\<close>

definition reply_ok :: "'c AppendEntriesArgs \<Rightarrow> AppendEntriesReply \<Rightarrow> bool" where
  "reply_ok args reply \<longleftrightarrow> -1 \<le> AER_LastIndex reply \<and>
     (\<not> AER_Success reply \<and> AER_LastIndex reply = -1 \<longrightarrow> 1 \<le> AE_PrevLogIndex args)"

lemma appended_log_reply:
  assumes "append_ok args" and "appended_log l args = (l', li, success)"
  shows "-1 \<le> li \<and> (\<not> success \<and> li = -1 \<longrightarrow> 1 \<le> AE_PrevLogIndex args)"
  using assms
  by (auto simp: appended_log_def append_ok_def entry_at_def zero_Entry_def Let_def split: if_splits)

lemma evolves_steppedDown:
  "Term rf \<le> t \<Longrightarrow> evolves rf (steppedDown rf t)"
  by (simp add: evolves_def)

lemma handleAppendJob_ok:
  assumes "server_ok rf" and "append_ok args"
    and "handleAppendJob rf args reply = Inr (rf', reply')"
  shows "server_ok rf' \<and> evolves rf rf' \<and> reply_ok args reply' \<and> Test rf' = Test rf"
proof -
  obtain l li success where l: "appended_log (Log rf) args = (l, li, success)"
    by (cases "appended_log (Log rf) args")
  have wf: "log_wf rf" using assms(1) by (simp add: server_ok_def)
  have rf': "rf' = rf\<lparr>Log := l\<rparr>"
    and r': "reply' = reply\<lparr>AER_LastIndex := li, AER_Success := success\<rparr>"
    using assms(3) by (simp_all add: handleAppendJob_spec [OF wf assms(2)] l)
  have "contig 1 l"
    using contig_appended_log [of "Log rf" args] wf assms(2) l by (simp add: log_wf_def)
  then show ?thesis
    using assms(1) appended_log_reply [OF assms(2) l]
    by (simp add: rf' r' server_ok_Log evolves_def reply_ok_def)
qed

lemma HandleAppendEntries_ok:
  assumes ok: "server_ok rf" and args: "append_ok args" and "Test rf"
    and h: "HandleAppendEntries rf args = Inr (rf', reply)"
  shows "server_ok rf' \<and> evolves rf rf' \<and> durable_ok rf' \<and> reply_ok args reply"
proof (cases "AE_Term args < Term rf")
  case True
  with h ok \<open>Test rf\<close> show ?thesis
    by (auto simp: HandleAppendEntries_unfold reply_ok_def zero_AppendEntriesReply_def)
next
  case False
  let ?rf2 = "steppedDown rf (AE_Term args)"
  let ?r = "zero_AppendEntriesReply\<lparr>AER_Success := True, AER_Term := AE_Term args\<rparr>"
  have ok2: "server_ok ?rf2" using ok by (rule server_ok_steppedDown)
  have ev: "evolves rf ?rf2" using False by (simp add: evolves_steppedDown)
  from False h obtain rf3 where body: "(case AE_Job args of
        Append \<Rightarrow> handleAppendJob ?rf2 args ?r
      | CommitAndHeartBeat \<Rightarrow> handleCommitJob ?rf2 args ?r
      | HeartBeat \<Rightarrow> Inr (?rf2, ?r)) = Inr (rf3, reply)" and rf': "rf' = persist rf3"
    by (auto simp: HandleAppendEntries_unfold Let_def go_simps split: if_splits)
  have "server_ok rf3 \<and> evolves ?rf2 rf3 \<and> Test rf3 = Test rf \<and> reply_ok args reply"
  proof (cases "AE_Job args")
    case Append
    with body handleAppendJob_ok [OF ok2 args] show ?thesis by simp
  next
    case CommitAndHeartBeat
    with body handleCommitJob_ok [OF ok2, of args ?r] show ?thesis
      by (auto simp: reply_ok_def zero_AppendEntriesReply_def)
  next
    case HeartBeat
    with body ok2 show ?thesis by (auto simp: reply_ok_def zero_AppendEntriesReply_def)
  qed
  with ev \<open>Test rf\<close> show ?thesis by (auto simp: rf' intro: evolves_trans)
qed

lemma HandleAppendEntries_no_panic:
  assumes "server_ok rf" and "append_ok args"
  shows "HandleAppendEntries rf args \<noteq> Inl Panic"
proof -
  let ?rf2 = "steppedDown rf (AE_Term args)"
  have ok2: "server_ok ?rf2" using assms(1) by (rule server_ok_steppedDown)
  then have wf2: "log_wf ?rf2" by (simp add: server_ok_def)
  have "handleCommitJob ?rf2 args r \<noteq> Inl Panic" for r
    using handleCommitJob_ok [OF ok2, of args r] by auto
  then show ?thesis
    by (cases "AE_Job args")
      (auto simp: HandleAppendEntries_unfold Let_def go_bind_Inl_iff
        handleAppendJob_spec [OF wf2 assms(2)] split: prod.splits)
qed

section \<open>HandleRequestVote\<close>

definition lastLogTerm :: "'c Entry list \<Rightarrow> int" where
  "lastLogTerm l = (if l = [] then 0 else Entry_Term (last l))"

lemma termForLog_last:
  "log_wf rf \<Longrightarrow> termForLog rf (Entry_Index (getLastLogEntryWithoutLock rf)) = Inr (lastLogTerm (Log rf))"
  by (simp add: termForLog_wf last_index_wf entry_at_def lastLogTerm_def zero_Entry_def
      last_conv_nth nat_diff_distrib)

text \<open>The state a vote request is decided in: a higher term is adopted and clears the vote.\<close>

definition adoptTerm :: "'c Raft \<Rightarrow> int \<Rightarrow> 'c Raft" where
  "adoptTerm rf t = (if t > Term rf then (steppedDown rf t)\<lparr>VotedFor := -1\<rparr> else rf)"

definition grantsVote :: "'c Raft \<Rightarrow> RequestVoteArgs \<Rightarrow> bool" where
  "grantsVote rf args \<longleftrightarrow> (RV_Term args > Term rf \<or> VotedFor rf = -1) \<and>
     upToDate (lastLogTerm (Log rf)) (int (length (Log rf))) args"

lemma HandleRequestVote_spec:
  assumes "log_wf rf"
  shows "HandleRequestVote rf args =
    (if RV_Term args > Term rf \<and> \<not> canNotify rf then Inl WouldBlock
     else
       let rf2 = adoptTerm rf (RV_Term args);
           rf3 = (if grantsVote rf args then rf2\<lparr>VotedFor := RV_PeerId args\<rparr> else rf2)
       in Inr (persist rf3, \<lparr>RVR_Term = Term rf2, RVR_VoteGranted = grantsVote rf args,
            RVR_State = State rf2\<rparr>))"
proof -
  have "setFollwer (notified rf t) = steppedDown rf t" for t by (simp add: steppedDown_def)
  then show ?thesis
    by (simp add: HandleRequestVote_def last_index_wf [OF assms] notify_stepDown adoptTerm_def
        termForLog_last [OF assms, unfolded last_index_wf [OF assms]] grantsVote_def Let_def)
qed

lemma server_ok_adoptTerm: "server_ok rf \<Longrightarrow> server_ok (adoptTerm rf t)"
  using server_ok_steppedDown [of rf t]
  by (auto simp: adoptTerm_def server_ok_def role_ok_def log_wf_def apply_ok_def match_ok_def)

lemma server_ok_VotedFor [simp]: "server_ok (rf\<lparr>VotedFor := v\<rparr>) = server_ok rf"
  by (rule server_ok_cong) simp_all

lemma adoptTerm_fields [simp]:
  "Term (adoptTerm rf t) = max (Term rf) t" "Test (adoptTerm rf t) = Test rf"
  "VotedFor (adoptTerm rf t) = (if t > Term rf then -1 else VotedFor rf)"
  "Log (adoptTerm rf t) = Log rf" "Me (adoptTerm rf t) = Me rf"
  by (auto simp: adoptTerm_def max_def)

lemma evolves_adoptTerm: "evolves rf (adoptTerm rf t)"
  by (auto simp: adoptTerm_def evolves_def)

lemma HandleRequestVote_ok:
  assumes "server_ok rf" and "Test rf" and "HandleRequestVote rf args = Inr (rf', reply)"
  shows "server_ok rf' \<and> evolves rf rf' \<and> durable_ok rf'"
proof -
  let ?rf2 = "adoptTerm rf (RV_Term args)"
  have wf: "log_wf rf" using assms(1) by (simp add: server_ok_def)
  from assms(3) have rf': "rf' = persist
      (if grantsVote rf args then ?rf2\<lparr>VotedFor := RV_PeerId args\<rparr> else ?rf2)"
    by (simp add: HandleRequestVote_spec [OF wf] Let_def split: if_splits)
  have "grantsVote rf args \<Longrightarrow> evolves rf (?rf2\<lparr>VotedFor := RV_PeerId args\<rparr>)"
    by (auto simp: adoptTerm_def evolves_def grantsVote_def)
  then show ?thesis
    using assms(2) server_ok_adoptTerm [OF assms(1)] by (simp add: rf' evolves_adoptTerm)
qed

lemma HandleRequestVote_no_panic:
  "log_wf rf \<Longrightarrow> HandleRequestVote rf args \<noteq> Inl Panic"
  by (simp add: HandleRequestVote_spec Let_def)

section \<open>Campaigns\<close>

lemma startAsCand_begin_spec:
  assumes "log_wf rf"
  shows "startAsCand_begin rf =
    (let rf1 = rf\<lparr>State := Cand, Term := Term rf + 1, VotedFor := Me rf\<rparr> in
     Inr (persist rf1, \<lparr>hearedBack = 1, votes = 1, needReturn = False,
       campaign_args = \<lparr>RV_PeerId = Me rf, RV_Term = Term rf + 1,
         RV_LastLogIndex = int (length (Log rf)), RV_LastLogTerm = lastLogTerm (Log rf)\<rparr>\<rparr>))"
proof -
  let ?rf1 = "rf\<lparr>State := Cand, Term := Term rf + 1, VotedFor := Me rf\<rparr>"
  have "log_wf ?rf1" using assms by (simp add: log_wf_def)
  from termForLog_last [OF this] last_index_wf [OF this] show ?thesis
    by (simp add: startAsCand_begin_def Let_def)
qed

lemma startAsCand_begin_ok:
  assumes "server_ok rf" and "Test rf" and "startAsCand_begin rf = Inr (rf', cp)"
  shows "server_ok rf' \<and> evolves rf rf' \<and> durable_ok rf'"
  using assms
  by (auto simp: startAsCand_begin_spec server_ok_def Let_def role_ok_def log_wf_def apply_ok_def
      match_ok_def evolves_def)

lemma startAsCand_reply_ok:
  assumes "server_ok rf" and "durable_ok rf" and "startAsCand_reply rf cp reply = Inr (rf', cp')"
  shows "server_ok rf' \<and> evolves rf rf' \<and> durable_ok rf'"
proof -
  have "server_ok ((setFollwer (rf\<lparr>ReceiveHB := b\<rparr>))\<lparr>Term := t\<rparr>)" for b t
    using assms(1) by (auto simp: server_ok_def role_ok_def log_wf_def apply_ok_def match_ok_def
        setFollwer_def)
  moreover have "Test ((setFollwer (rf\<lparr>ReceiveHB := b\<rparr>))\<lparr>Term := t\<rparr>)" for b t
    using assms(2) by (simp add: durable_ok_def setFollwer_def)
  ultimately show ?thesis
    using assms
    by (auto simp: startAsCand_reply_def go_simps Let_def evolves_def setFollwer_def
        split: option.splits if_splits)
qed

lemma startAsCand_reply_no_panic: "startAsCand_reply rf cp reply \<noteq> Inl Panic"
  by (auto simp: startAsCand_reply_def Let_def go_bind_Inl_iff split: option.splits)

section \<open>Becoming leader\<close>

lemma match_ok_update:
  "match_ok rf \<Longrightarrow> 0 \<le> m \<Longrightarrow> match_ok (rf\<lparr>MatchIndex := AList.update s m (MatchIndex rf)\<rparr>)"
  by (auto simp: match_ok_def distinct_update dest: set_AList_update)

text \<open>\<open>keepsVote\<close>: the fields the vote and the delivery order rest on are untouched.\<close>

definition keepsVote :: "'c Raft \<Rightarrow> 'c Raft \<Rightarrow> bool" where
  "keepsVote rf rf' \<longleftrightarrow> Term rf' = Term rf \<and> VotedFor rf' = VotedFor rf \<and>
     persister rf' = persister rf \<and> Test rf' = Test rf \<and> Me rf' = Me rf \<and>
     PeerNumber rf' = PeerNumber rf \<and> dead rf' = dead rf"

lemma keepsVote_durable: "keepsVote rf rf' \<Longrightarrow> durable_ok rf' = durable_ok rf"
  by (simp add: keepsVote_def durable_ok_def)

lemma startAsLeader_server_ok:
  assumes "server_ok rf"
  shows "server_ok (startAsLeader_server s rf) \<and> keepsVote rf (startAsLeader_server s rf) \<and>
    LastApply (startAsLeader_server s rf) = LastApply rf \<and>
    ApplyChan (startAsLeader_server s rf) = ApplyChan rf \<and>
    length (Log (startAsLeader_server s rf)) = length (Log rf)"
  using assms match_ok_update [of rf 0 s]
  by (simp add: startAsLeader_server_def Let_def keepsVote_def server_ok_def role_ok_def log_wf_def
      apply_ok_def match_ok_def)

lemma fold_startAsLeader_server_ok:
  "server_ok rf \<Longrightarrow>
    server_ok (fold startAsLeader_server ss rf) \<and> keepsVote rf (fold startAsLeader_server ss rf) \<and>
    LastApply (fold startAsLeader_server ss rf) = LastApply rf \<and>
    ApplyChan (fold startAsLeader_server ss rf) = ApplyChan rf \<and>
    length (Log (fold startAsLeader_server ss rf)) = length (Log rf)"
proof (induction ss arbitrary: rf)
  case Nil
  then show ?case by (simp add: keepsVote_def)
next
  case (Cons s ss)
  from startAsLeader_server_ok [OF Cons.prems, of s] Cons.IH [of "startAsLeader_server s rf"]
  show ?case by (simp add: keepsVote_def)
qed

lemma server_ok_setLeader: "server_ok rf \<Longrightarrow> server_ok (setLeader rf)"
  by (simp add: server_ok_def role_ok_def log_wf_def apply_ok_def match_ok_def setLeader_def)

lemma keepsVote_evolves:
  "keepsVote rf rf' \<Longrightarrow> LastApply rf' = LastApply rf \<Longrightarrow> ApplyChan rf' = ApplyChan rf \<Longrightarrow> evolves rf rf'"
  by (simp add: keepsVote_def evolves_def)

lemma startAsLeader_setup_ok:
  assumes "server_ok rf"
  shows "server_ok (startAsLeader_setup rf) \<and> evolves rf (startAsLeader_setup rf) \<and>
    keepsVote rf (startAsLeader_setup rf)"
proof -
  let ?f = "fold startAsLeader_server [0..PeerNumber rf - 1] rf"
  have f: "server_ok ?f" "keepsVote rf ?f" "LastApply ?f = LastApply rf"
    "ApplyChan ?f = ApplyChan rf"
    using fold_startAsLeader_server_ok [OF assms] by blast+
  have "keepsVote rf (setLeader ?f)"
    using f(2) by (simp add: keepsVote_def setLeader_def)
  moreover from this have "evolves rf (setLeader ?f)"
    by (rule keepsVote_evolves) (simp_all add: setLeader_def f(3,4))
  ultimately show ?thesis
    using server_ok_setLeader [OF f(1)] by (simp add: startAsLeader_setup_def)
qed

section \<open>Heartbeats\<close>

lemma append_ok_heartBeatArgs [simp]: "append_ok (heartBeatArgs rf server)"
  by (simp add: append_ok_def heartBeatArgs_def)

lemma server_ok_markDead [simp]: "server_ok (markDead rf s) = server_ok rf"
  by (rule server_ok_cong) (simp_all add: markDead_def)

lemma keepsVote_markDead [simp]: "keepsVote rf (markDead rf s)"
  by (simp add: keepsVote_def markDead_def)

lemma evolves_markDead [simp]: "evolves rf (markDead rf s)"
  by (simp add: evolves_def markDead_def)

lemma sendHeartBeat_reply_ok:
  assumes ok: "server_ok rf" and d: "durable_ok rf"
    and r: "sendHeartBeat_reply rf s reply = Inr (rf', spawn)"
  shows "server_ok rf' \<and> evolves rf rf' \<and> durable_ok rf'"
proof (cases reply)
  case None
  with r ok d keepsVote_durable [OF keepsVote_markDead] show ?thesis
    by (auto simp: sendHeartBeat_reply_def)
next
  case (Some a)
  have alive: "server_ok (rf\<lparr>PeerAlive := m\<rparr>) = server_ok rf" for m
    by (rule server_ok_cong) simp_all
  have "server_ok (setFollwer (rf\<lparr>Term := t, BecomeFollwerFromLeader := b\<rparr>))" for t b
    using ok by (auto simp: server_ok_def role_ok_def log_wf_def apply_ok_def match_ok_def
        setFollwer_def)
  moreover have "Test (setFollwer (rf\<lparr>Term := t, BecomeFollwerFromLeader := b\<rparr>))" for t b
    using d by (simp add: durable_ok_def setFollwer_def)
  moreover have "durable_ok (rf\<lparr>PeerAlive := m\<rparr>)" for m
    using d by (simp add: durable_ok_def)
  ultimately show ?thesis
    using Some r ok d alive
    by (auto simp: sendHeartBeat_reply_def go_simps evolves_def setFollwer_def split: if_splits)
qed

lemma sendHeartBeat_reply_no_panic: "sendHeartBeat_reply rf s reply \<noteq> Inl Panic"
  by (auto simp: sendHeartBeat_reply_def go_bind_Inl_iff split: option.splits)

section \<open>Start\<close>

lemma Start_append_ok:
  assumes "server_ok rf" and "Test rf" and "Start_append rf cmd = (rf', index, trm)"
  shows "server_ok rf' \<and> evolves rf rf' \<and> durable_ok rf' \<and> index = int (length (Log rf)) + 1 \<and>
    Log rf' = Log rf @
      [\<lparr>Entry_Index = index, Entry_Command = cmd, Entry_Term = Term rf, Entry_Id = 0\<rparr>]"
proof -
  let ?e = "\<lparr>Entry_Index = int (length (Log rf)) + 1, Entry_Command = cmd, Entry_Term = Term rf,
    Entry_Id = 0\<rparr> :: 'a Entry"
  have wf: "log_wf rf" using assms(1) by (simp add: server_ok_def)
  then have "contig 1 (Log rf @ [?e])" by (simp add: log_wf_def)
  with assms(1) have "server_ok (rf\<lparr>Log := Log rf @ [?e]\<rparr>)" by (rule server_ok_Log)
  moreover have "rf' = persist (rf\<lparr>Log := Log rf @ [?e]\<rparr>) \<and> index = int (length (Log rf)) + 1"
    using assms(3) last_index_wf [OF wf]
    by (auto simp: Start_append_def Let_def zero_Entry_def getLastLogEntryWithoutLock_def)
  ultimately show ?thesis using assms(2) by (simp add: evolves_def)
qed

section \<open>Commit index of the leader\<close>

definition majority :: "'c Raft \<Rightarrow> int \<Rightarrow> bool" where
  "majority rf b \<longleftrightarrow> granted rf b \<ge> PeerNumber rf div 2 + 1"

lemma granted_length:
  "granted rf b = 1 + int (length (filter (\<lambda>(s, m). s \<noteq> Me rf \<and> go_get False (PeerAlive rf) s \<and> b \<le> m) (MatchIndex rf)))"
proof -
  have "fold (\<lambda>(server, serverMatchIndex) g.
      if server = Me rf \<or> \<not> go_get False (PeerAlive rf) server then g
      else if serverMatchIndex \<ge> b then g + 1 else g) xs g =
    g + int (length (filter (\<lambda>(s, m). s \<noteq> Me rf \<and> go_get False (PeerAlive rf) s \<and> b \<le> m) xs))" for xs g
  proof (induction xs arbitrary: g)
    case (Cons e xs)
    then show ?case by (cases e) auto
  qed simp
  then show ?thesis by (simp add: granted_def)
qed

text \<open>The same as a majority of servers: the leader itself, and the other servers that it believes to be
  alive and to hold its log at least up to \<open>b\<close>.\<close>

definition live_holders :: "'c Raft \<Rightarrow> int \<Rightarrow> int set" where
  "live_holders rf b =
     {s. s \<noteq> Me rf \<and> PeerAlive rf s = Some True \<and> (\<exists>m. map_of (MatchIndex rf) s = Some m \<and> b \<le> m)}"

lemma granted_holders:
  assumes "distinct (map fst (MatchIndex rf))"
  shows "granted rf b = 1 + int (card (live_holders rf b))"
proof -
  let ?es = "filter (\<lambda>(s, m). s \<noteq> Me rf \<and> go_get False (PeerAlive rf) s \<and> b \<le> m) (MatchIndex rf)"
  have d: "distinct (map fst ?es)" using assms by (rule distinct_map_filter)
  have "live_holders rf b = fst ` set ?es"
    using map_of_eq_Some_iff [OF assms]
    by (force simp: live_holders_def go_get_def image_iff split: option.splits)
  also have "card \<dots> = length ?es" using distinct_card [OF d] by simp
  finally show ?thesis by (simp add: granted_length)
qed

lemma majority_holders:
  assumes "distinct (map fst (MatchIndex rf))"
  shows "majority rf b \<longleftrightarrow> PeerNumber rf < 2 * (1 + int (card (live_holders rf b)))"
  unfolding majority_def granted_holders [OF assms] by presburger

lemma commitLoop_result:
  "commitLoop rf b lc = lc \<and> (\<forall>i. b \<le> i \<and> i \<le> lastIndex rf \<longrightarrow> \<not> majority rf i) \<or>
   b \<le> commitLoop rf b lc \<and> commitLoop rf b lc \<le> lastIndex rf \<and>
     majority rf (commitLoop rf b lc) \<and>
     (\<forall>i. commitLoop rf b lc < i \<and> i \<le> lastIndex rf \<longrightarrow> \<not> majority rf i)"
proof (induction rf b lc rule: commitLoop.induct)
  case (1 rf b lc)
  show ?case
  proof (cases "b \<le> lastIndex rf")
    case False
    then show ?thesis by (auto simp: commitLoop.simps [of rf b lc])
  next
    case True
    let ?lc = "if granted rf b \<ge> PeerNumber rf div 2 + 1 then b else lc"
    have eq: "commitLoop rf b lc = commitLoop rf (b + 1) ?lc"
      using True by (simp add: commitLoop.simps [of rf b lc])
    have split_b: "b \<le> i \<longleftrightarrow> i = b \<or> b + 1 \<le> i" for i by auto
    from "1.IH" [OF True] True show ?thesis
      unfolding eq by (auto simp: majority_def split_b split: if_splits)
  qed
qed

text \<open>
  The leader's commit index becomes the largest index a majority of live peers has acknowledged, if
  there is one beyond the present commit index.
\<close>

lemma updateCommitForLeader_spec:
  assumes "-1 \<le> CommitIndex rf" and "updateCommitForLeader rf = (rf', updated)"
  shows "(updated \<longleftrightarrow> IsLeader rf \<and> (\<exists>b > CommitIndex rf. b \<le> lastIndex rf \<and> majority rf b)) \<and>
    (\<not> updated \<longrightarrow> rf' = rf) \<and>
    (updated \<longrightarrow> (\<exists>b. rf' = rf\<lparr>CommitIndex := b\<rparr> \<and> CommitIndex rf < b \<and> b \<le> lastIndex rf \<and>
      majority rf b \<and> (\<forall>i. b < i \<and> i \<le> lastIndex rf \<longrightarrow> \<not> majority rf i)))"
proof -
  have gt: "CommitIndex rf < i \<longleftrightarrow> CommitIndex rf + 1 \<le> i" for i by linarith
  show ?thesis
    using assms commitLoop_result [of rf "CommitIndex rf + 1" "-1"]
    by (auto simp: updateCommitForLeader_def Let_def gt split: if_splits)
qed

lemma updateCommitForLeader_bound:
  assumes "updateCommitForLeader rf = (rf', updated)" and "0 \<le> lastIndex rf"
  shows "\<exists>b. rf' = rf\<lparr>CommitIndex := b\<rparr> \<and> (updated \<longrightarrow> b \<le> lastIndex rf)"
proof (cases updated)
  case True
  with assms show ?thesis
    using commitLoop_result [of rf "CommitIndex rf + 1" "-1"]
    by (auto simp: updateCommitForLeader_def Let_def split: if_splits)
next
  case False
  with assms(1) have "rf' = rf\<lparr>CommitIndex := CommitIndex rf\<rparr>"
    by (auto simp: updateCommitForLeader_def Let_def split: if_splits)
  with False show ?thesis by blast
qed

section \<open>StartOnePeerAppend\<close>

lemma collectEntries_spec:
  assumes "log_wf rf" and "1 \<le> i"
  shows "collectEntries rf i es = Inr (es @ drop (nat (i - 1)) (Log rf))"
  using assms
proof (induction rf i es rule: collectEntries.induct)
  case (1 rf i es)
  have len: "lastIndex rf = int (length (Log rf))"
    using "1.prems"(1) by (simp add: lastIndex_def last_index_wf)
  show ?case
  proof (cases "i \<le> lastIndex rf")
    case False
    then show ?thesis using len by (simp add: collectEntries.simps [of rf i es])
  next
    case True
    let ?e = "Log rf ! nat (i - 1)"
    have g: "getLogAtIndexWithoutLock rf i = Inr (?e, True)"
      using "1.prems" True len by (simp add: getLogAtIndex_wf entry_at_def)
    have lt: "nat (i - 1) < length (Log rf)" using True len "1.prems"(2) by simp
    have "Suc (nat (i - 1)) = nat (i + 1 - 1)" using "1.prems"(2) by simp
    then have "drop (nat (i - 1)) (Log rf) = ?e # drop (nat (i + 1 - 1)) (Log rf)"
      using Cons_nth_drop_Suc [OF lt] by simp
    moreover have "collectEntries rf (i + 1) (es @ [?e]) =
        Inr ((es @ [?e]) @ drop (nat (i + 1 - 1)) (Log rf))"
      using "1.IH" [OF True, of True ?e] "1.prems" by simp
    ultimately show ?thesis using True g by (simp add: collectEntries.simps [of rf i es])
  qed
qed

lemma matchOf_nonneg: "match_ok rf \<Longrightarrow> 0 \<le> matchOf rf s"
  by (auto simp: matchOf_def go_get_def match_ok_def split: option.splits dest: map_of_SomeD)

lemma contig_drop_from:
  "contig 1 l \<Longrightarrow> 0 \<le> k \<Longrightarrow> contig (k + 1) (drop (nat k) l)"
  using contig_drop [of 1 l "nat k"]
  by (cases "nat k \<le> length l") (auto simp: algebra_simps)

lemma StartOnePeerAppend_setup_ok:
  assumes "server_ok rf"
  shows "\<exists>args. StartOnePeerAppend_setup rf s = Inr args \<and> append_ok args \<and>
    AE_Job args = Append \<and> AE_Term args = Term rf \<and> AE_PrevLogIndex args = matchOf rf s \<and>
    AE_Entries args = drop (nat (matchOf rf s)) (Log rf)"
proof -
  have wf: "log_wf rf" and m: "0 \<le> matchOf rf s"
    using assms matchOf_nonneg by (auto simp: server_ok_def)
  have c: "collectEntries rf (matchOf rf s + 1) [] = Inr (drop (nat (matchOf rf s)) (Log rf))"
    using collectEntries_spec [OF wf, of "matchOf rf s + 1" "[]"] m by simp
  obtain t where t: "termForLog rf (matchOf rf s) = Inr t"
    and t0: "matchOf rf s = 0 \<Longrightarrow> t = 0"
    using termForLog_wf [OF wf m] by (cases "matchOf rf s = 0") auto
  show ?thesis
    using contig_drop_from [of "Log rf" "matchOf rf s"] wf m t0
    by (simp add: StartOnePeerAppend_setup_def c t append_ok_def log_wf_def)
qed

lemma server_ok_CommitIndex [simp]: "server_ok (rf\<lparr>CommitIndex := b\<rparr>) = server_ok rf"
  by (rule server_ok_cong) simp_all

definition acknowledged :: "'c Raft \<Rightarrow> int \<Rightarrow> 'c AppendEntriesArgs \<Rightarrow> 'c Raft" where
  "acknowledged rf server args =
     (let m = int (length (AE_Entries args)) + AE_PrevLogIndex args in
      rf\<lparr>MatchIndex := AList.update server m (MatchIndex rf),
         NextIndex := (NextIndex rf)(server \<mapsto> m + 1),
         OpenCommit := (OpenCommit rf)(server \<mapsto> True),
         PeerAlive := (PeerAlive rf)(server \<mapsto> True)\<rparr>)"

lemma StartOnePeerAppend_success_eq:
  "StartOnePeerAppend_success rf server args =
     (case updateCommitForLeader (acknowledged rf server args) of (rf2, updated) \<Rightarrow>
        if updated \<and> IsLeader rf2 then startApply rf2 (CommitIndex rf2) else Inr rf2)"
  by (simp add: StartOnePeerAppend_success_def acknowledged_def Let_def)

lemma server_ok_acknowledged:
  assumes "server_ok rf" and "append_ok args"
  shows "server_ok (acknowledged rf s args)"
  using assms match_ok_update [of rf "int (length (AE_Entries args)) + AE_PrevLogIndex args" s]
  by (simp add: acknowledged_def server_ok_def role_ok_def log_wf_def apply_ok_def match_ok_def
      append_ok_def Let_def)

lemma StartOnePeerAppend_success_ok:
  assumes "server_ok rf" and "append_ok args"
  shows "\<exists>rf'. StartOnePeerAppend_success rf s args = Inr rf' \<and> server_ok rf' \<and> evolves rf rf' \<and>
    Log rf' = Log rf \<and> (durable_ok rf \<longrightarrow> durable_ok rf')"
proof -
  let ?a = "acknowledged rf s args"
  obtain rf2 u where u: "updateCommitForLeader ?a = (rf2, u)" by force
  have a: "server_ok ?a" using assms by (rule server_ok_acknowledged)
  then have last: "lastIndex ?a = int (length (Log ?a))"
    by (simp add: lastIndex_def last_index_wf server_ok_def)
  then obtain b where rf2: "rf2 = ?a\<lparr>CommitIndex := b\<rparr>" and b: "u \<longrightarrow> b \<le> int (length (Log ?a))"
    using updateCommitForLeader_bound [OF u] by auto
  have ok2: "server_ok rf2" and ev: "evolves rf rf2" and l2: "Log rf2 = Log rf"
    and d: "durable_ok rf \<longrightarrow> durable_ok rf2"
    using a by (simp_all add: rf2 acknowledged_def Let_def evolves_def durable_ok_def)
  show ?thesis
  proof (cases "u \<and> IsLeader rf2")
    case True
    then have "CommitIndex rf2 \<le> int (length (Log rf2))" using b by (simp add: rf2)
    from startApply_ok [OF ok2 this] True ev l2 d show ?thesis
      by (auto simp: StartOnePeerAppend_success_eq u durable_ok_def intro: evolves_trans)
  next
    case False
    with ok2 ev l2 d show ?thesis by (auto simp: StartOnePeerAppend_success_eq u)
  qed
qed

text \<open>The index the next attempt of an append to \<open>server\<close> starts from.\<close>

definition resendFrom :: "'c AppendEntriesArgs \<Rightarrow> AppendEntriesReply \<Rightarrow> int" where
  "resendFrom args reply =
     (if AER_LastIndex reply \<noteq> -1 then AER_LastIndex reply else AE_PrevLogIndex args - 1)"

lemma resendFrom_nonneg:
  "append_ok args \<Longrightarrow> reply_ok args reply \<Longrightarrow> \<not> AER_Success reply \<Longrightarrow> 0 \<le> resendFrom args reply"
  by (auto simp: resendFrom_def reply_ok_def append_ok_def)

lemma StartOnePeerAppend_resend_spec:
  assumes "server_ok rf" and "0 \<le> resendFrom args reply"
  shows "StartOnePeerAppend_resend rf s args reply =
    (let prev = resendFrom args reply in
     if prev \<le> int (length (Log rf))
     then Inr (rf\<lparr>PeerAlive := (PeerAlive rf)(s \<mapsto> True)\<rparr>,
       args\<lparr>AE_Term := Term rf, AE_LeaderCommit := CommitIndex rf, AE_PrevLogIndex := prev,
         AE_PrevLogTerm := (if prev = 0 then 0 else Entry_Term (Log rf ! nat (prev - 1))),
         AE_Entries := drop (nat prev) (Log rf)\<rparr>)
     else Inl Panic)"
proof -
  let ?rf1 = "rf\<lparr>PeerAlive := (PeerAlive rf)(s \<mapsto> True)\<rparr>"
  have wf: "log_wf ?rf1" using assms(1) by (simp add: server_ok_def log_wf_def)
  show ?thesis
    using assms(2) termForLog_wf [OF wf assms(2)]
    by (auto simp: StartOnePeerAppend_resend_def resendFrom_def Let_def go_slice_from_def
        indexInLog_def entry_at_def zero_Entry_def split: if_splits)
qed

lemma StartOnePeerAppend_resend_ok:
  assumes ok: "server_ok rf" and args: "append_ok args" and reply: "reply_ok args reply"
    and fail: "\<not> AER_Success reply"
    and r: "StartOnePeerAppend_resend rf s args reply = Inr (rf', args')"
  shows "server_ok rf' \<and> evolves rf rf' \<and> (durable_ok rf \<longrightarrow> durable_ok rf') \<and>
    append_ok args' \<and> AE_Job args' = AE_Job args"
proof -
  have p: "0 \<le> resendFrom args reply" using args reply fail by (rule resendFrom_nonneg)
  have alive: "server_ok (rf\<lparr>PeerAlive := m\<rparr>) = server_ok rf" for m
    by (rule server_ok_cong) simp_all
  have "contig 1 (Log rf)" using ok by (simp add: server_ok_def log_wf_def)
  from contig_drop_from [OF this p] r p ok show ?thesis
    by (auto simp: StartOnePeerAppend_resend_spec [OF ok p] Let_def alive evolves_def
        durable_ok_def append_ok_def split: if_splits)
qed

section \<open>Every locked region keeps the contract\<close>

interpretation append_entries: raft_region
  "\<lambda>rf rf'. Test rf \<and> (\<exists>args reply. append_ok args \<and> HandleAppendEntries rf args = Inr (rf', reply))"
  by unfold_locales (auto dest: HandleAppendEntries_ok)

interpretation request_vote: raft_region
  "\<lambda>rf rf'. Test rf \<and> (\<exists>args reply. HandleRequestVote rf args = Inr (rf', reply))"
  by unfold_locales (auto dest: HandleRequestVote_ok)

interpretation campaign_begin: raft_region
  "\<lambda>rf rf'. Test rf \<and> (\<exists>cp. startAsCand_begin rf = Inr (rf', cp))"
  by unfold_locales (auto dest: startAsCand_begin_ok)

interpretation become_leader: raft_region "\<lambda>rf rf'. rf' = startAsLeader_setup rf"
  by unfold_locales (auto dest: startAsLeader_setup_ok simp: keepsVote_durable)

interpretation client_append: raft_region
  "\<lambda>rf rf'. Test rf \<and> (\<exists>cmd i t. Start_append rf cmd = (rf', i, t))"
  by unfold_locales (auto dest: Start_append_ok)

interpretation peer_acknowledged: raft_region
  "\<lambda>rf rf'. \<exists>s args. append_ok args \<and> StartOnePeerAppend_success rf s args = Inr rf'"
  by unfold_locales (metis Inr_inject StartOnePeerAppend_success_ok)+

end
