(* ===== verification/Raft_Cluster.thy ===== *)
theory Raft_Cluster
  imports Raft_Server
begin

text \<open>
  A cluster of servers: the goroutines of \<open>raft.go\<close> as threads, the network as requests and replies
  in flight, and one event per atomic step. A locked region is one event; a function that releases
  the lock is a thread that waits between its regions, so every interleaving of the regions is a
  sequence of events. The scheduler, the timers and the network choose the events: a timer may fire
  at any moment, a request may be delivered at any time or never, a reply may be lost, a server may
  be killed or crash and restart from its persister.

  A step is a function to \<open>cluster go\<close>: \<open>Disabled\<close> when its guard fails, \<open>WouldBlock\<close> when it sends on
  a full channel and has to wait for the receiver, \<open>Panic\<close> when the code would crash the process.
\<close>

section \<open>Threads and state\<close>

text \<open>
  One call of \<open>startAsCand\<close>. \<open>Spawned\<close>: the goroutine exists and has not taken the lock yet;
  \<open>Running\<close>: it waits for replies; \<open>Returned r\<close>: its result is offered on the channel
  \<open>electionResult\<close> of the loop iteration \<open>cand_loop\<close>; \<open>Taken\<close>: the result has been received;
  \<open>Stopped\<close>: the process that ran it crashed. \<open>cand_voters\<close> is a history variable: the servers whose
  votes it counted.
\<close>

datatype cand_stage = Spawned | Running | Returned election_result | Taken | Stopped

record candidacy =
  cand_owner :: nat
  cand_loop :: nat
  cand_stage :: cand_stage
  cand_campaign :: campaign
  cand_voters :: "nat set"

text \<open>
  The threads that talk to another server. The first number is the candidacy (for votes) or the
  sending server (for appends), the second is the server asked. \<open>BeatCheck\<close>, \<open>BeatBuild\<close>: \<open>sendHeartBeat\<close>
  before its state check and before it builds the request of one server. \<open>AppInit\<close>, \<open>AppBuild\<close>,
  \<open>AppLoop\<close>, \<open>AppGuarded\<close>: \<open>StartOnePeerAppend\<close> before its state check, before its setup region, at
  the head of its resend loop and after the loop guard; their last argument is the call of \<open>Start\<close>
  that waits for them, if any. \<open>VoteOrphan\<close> and \<open>AppOrphan\<close> are requests still in flight whose
  sender has given up or crashed.
\<close>

datatype 'c thread =
    VoteReq nat nat RequestVoteArgs
  | VoteRep nat nat RequestVoteReply
  | VoteOrphan nat RequestVoteArgs
  | LeaderInit nat
  | LeaderLoop nat
  | BeatCheck nat
  | BeatBuild nat nat
  | BeatReq nat nat "'c AppendEntriesArgs"
  | BeatRep nat nat AppendEntriesReply
  | AppInit nat nat "nat option"
  | AppBuild nat nat "nat option"
  | AppLoop nat nat "'c AppendEntriesArgs" "nat option"
  | AppGuarded nat nat "'c AppendEntriesArgs" "nat option"
  | AppReq nat nat "'c AppendEntriesArgs" "nat option"
  | AppRep nat nat "'c AppendEntriesArgs" AppendEntriesReply "nat option"
  | AppOrphan nat "'c AppendEntriesArgs"
  | Finished

text \<open>One call of \<open>Start\<close>: past the state check; after its append, with the index, the term and
  \<open>hearedBack\<close>; returned.\<close>

datatype start_stage = Checked | Appended int int int | Answered int int bool | Abandoned

record 'c start_call =
  start_owner :: nat
  start_command :: "'c option"
  start_stage :: start_stage

text \<open>The main goroutine \<open>startElection\<close>: in its follower loop, waiting on
  \<open>BecomeFollwerFromLeader\<close>, or returned.\<close>

datatype loop_phase = Electing | Leading | Ended

record 'c cluster =
  servers :: nat
  srv :: "nat \<Rightarrow> 'c Raft"
  loop_no :: "nat \<Rightarrow> nat"
  phase :: "nat \<Rightarrow> loop_phase"
  cands :: "candidacy list"
  threads :: "'c thread list"
  starts :: "'c start_call list"
  votes_cast :: "(nat \<times> int \<times> nat) set"
  elected :: "(nat \<times> int) set"

text \<open>
  \<open>votes_cast\<close> and \<open>elected\<close> are history variables, never read by a step: \<open>(v, t, s)\<close> when server \<open>v\<close>
  granted \<open>s\<close> its vote while its own term was \<open>t\<close>; \<open>(s, t)\<close> when a campaign \<open>s\<close> opened in term \<open>t\<close>
  decided \<open>Win\<close> while \<open>s\<close> was still in term \<open>t\<close>.
\<close>

definition initial_cluster :: "nat \<Rightarrow> 'c cluster" where
  "initial_cluster n = \<lparr>servers = n, srv = (\<lambda>s. Make (int n) (int s) MakePersister),
     loop_no = (\<lambda>_. 0), phase = (\<lambda>_. Electing), cands = [], threads = [], starts = [],
     votes_cast = {}, elected = {}\<rparr>"

section \<open>State updates\<close>

definition set_srv :: "'c cluster \<Rightarrow> nat \<Rightarrow> 'c Raft \<Rightarrow> 'c cluster" where
  "set_srv c s rf = c\<lparr>srv := (srv c)(s := rf)\<rparr>"

definition set_thread :: "'c cluster \<Rightarrow> nat \<Rightarrow> 'c thread \<Rightarrow> 'c cluster" where
  "set_thread c j t = c\<lparr>threads := (threads c)[j := t]\<rparr>"

definition spawn :: "'c cluster \<Rightarrow> 'c thread list \<Rightarrow> 'c cluster" where
  "spawn c ts = c\<lparr>threads := threads c @ ts\<rparr>"

definition set_cand :: "'c cluster \<Rightarrow> nat \<Rightarrow> candidacy \<Rightarrow> 'c cluster" where
  "set_cand c k cd = c\<lparr>cands := (cands c)[k := cd]\<rparr>"

definition set_start :: "'c cluster \<Rightarrow> nat \<Rightarrow> start_stage \<Rightarrow> 'c cluster" where
  "set_start c i st = c\<lparr>starts := (starts c)[i := (starts c ! i)\<lparr>start_stage := st\<rparr>]\<rparr>"

definition others :: "'c cluster \<Rightarrow> nat \<Rightarrow> nat list" where
  "others c s = filter (\<lambda>v. v \<noteq> s) [0..<servers c]"

text \<open>When \<open>StartOnePeerAppend\<close> ends, a waiting \<open>Start\<close> counts it in \<open>hearedBack\<close>.\<close>

definition finish_append :: "'c cluster \<Rightarrow> nat \<Rightarrow> nat option \<Rightarrow> 'c cluster" where
  "finish_append c j w =
     (let c1 = set_thread c j Finished in
      case w of
        None \<Rightarrow> c1
      | Some i \<Rightarrow>
          (if i < length (starts c1) then
             (case start_stage (starts c1 ! i) of
                Appended index trm heared \<Rightarrow> set_start c1 i (Appended index trm (heared + 1))
              | _ \<Rightarrow> c1)
           else c1))"

section \<open>startElection\<close>

text \<open>The ticker fires: a goroutine that will run \<open>startAsCand\<close> is started.\<close>

definition no_campaign :: campaign where
  "no_campaign = \<lparr>hearedBack = 1, votes = 1, needReturn = False,
     campaign_args = \<lparr>RV_PeerId = 0, RV_Term = 0, RV_LastLogIndex = 0, RV_LastLogTerm = 0\<rparr>\<rparr>"

definition ev_Tick :: "'c cluster \<Rightarrow> nat \<Rightarrow> 'c cluster go" where
  "ev_Tick c s = go_guard (s < servers c \<and> \<not> dead (srv c s) \<and> phase c s = Electing)
     (Inr (c\<lparr>cands := cands c @ [\<lparr>cand_owner = s, cand_loop = loop_no c s, cand_stage = Spawned,
        cand_campaign = no_campaign, cand_voters = {}\<rparr>]\<rparr>))"

text \<open>\<open><-rf.ReceiveHB\<close> in the follower loop.\<close>

definition ev_DrainHB :: "'c cluster \<Rightarrow> nat \<Rightarrow> 'c cluster go" where
  "ev_DrainHB c s = go_guard
     (s < servers c \<and> \<not> dead (srv c s) \<and> phase c s = Electing \<and> 0 < ReceiveHB (srv c s))
     (Inr (set_srv c s ((srv c s)\<lparr>ReceiveHB := ReceiveHB (srv c s) - 1\<rparr>)))"

text \<open>
  \<open>a := <-electionResult\<close>: only results offered by campaigns of the present loop iteration reach
  the channel the loop reads. On \<open>Win\<close> the loop is left and \<open>startAsLeader\<close> is started.
\<close>

definition ev_TakeResult :: "'c cluster \<Rightarrow> nat \<Rightarrow> 'c cluster go" where
  "ev_TakeResult c k = go_guard (k < length (cands c))
     (let cd = cands c ! k; s = cand_owner cd; c1 = set_cand c k (cd\<lparr>cand_stage := Taken\<rparr>)
      in go_guard (\<not> dead (srv c s) \<and> phase c s = Electing \<and> cand_loop cd = loop_no c s)
        (case cand_stage cd of
           Returned Win \<Rightarrow> Inr (spawn (c1\<lparr>phase := (phase c1)(s := Leading)\<rparr>) [LeaderInit s])
         | Returned DidNotWin \<Rightarrow> Inr c1
         | _ \<Rightarrow> Inl Disabled))"

text \<open>The follower loop is also left when the server is killed, and \<open>startAsLeader\<close> is started then
  as well.\<close>

definition ev_LoopExit :: "'c cluster \<Rightarrow> nat \<Rightarrow> 'c cluster go" where
  "ev_LoopExit c s = go_guard (s < servers c \<and> dead (srv c s) \<and> phase c s = Electing)
     (Inr (spawn (c\<lparr>phase := (phase c)(s := Leading)\<rparr>) [LeaderInit s]))"

definition ev_DrainBecome :: "'c cluster \<Rightarrow> nat \<Rightarrow> 'c cluster go" where
  "ev_DrainBecome c s = go_guard
     (s < servers c \<and> phase c s = Leading \<and> 0 < BecomeFollwerFromLeader (srv c s))
     (Inr ((set_srv c s
        ((srv c s)\<lparr>BecomeFollwerFromLeader := BecomeFollwerFromLeader (srv c s) - 1\<rparr>))
        \<lparr>phase := (phase c)(s := (if dead (srv c s) then Ended else Electing)),
         loop_no := (loop_no c)(s := loop_no c s + 1)\<rparr>))"

section \<open>startAsCand\<close>

definition ev_Campaign :: "'c cluster \<Rightarrow> nat \<Rightarrow> 'c cluster go" where
  "ev_Campaign c k = go_guard (k < length (cands c) \<and> cand_stage (cands c ! k) = Spawned)
     (let cd = cands c ! k; s = cand_owner cd in
      go_bind (startAsCand_begin (srv c s)) (\<lambda>(rf', cp).
        Inr ((spawn (set_cand (set_srv c s rf') k
               (cd\<lparr>cand_stage := Running, cand_campaign := cp, cand_voters := {s}\<rparr>))
             (map (\<lambda>v. VoteReq k v (campaign_args cp)) (others c s)))
           \<lparr>votes_cast := insert (s, Term rf', s) (votes_cast c)\<rparr>)))"

text \<open>The timer of the campaign sets \<open>needReturn\<close>.\<close>

definition ev_Expire :: "'c cluster \<Rightarrow> nat \<Rightarrow> 'c cluster go" where
  "ev_Expire c k = go_guard (k < length (cands c) \<and> cand_stage (cands c ! k) = Running)
     (let cd = cands c ! k in
      Inr (set_cand c k (cd\<lparr>cand_campaign := (cand_campaign cd)\<lparr>needReturn := True\<rparr>\<rparr>)))"

text \<open>The wait ends and the campaign returns its decision.\<close>

definition ev_Decide :: "'c cluster \<Rightarrow> nat \<Rightarrow> 'c cluster go" where
  "ev_Decide c k = go_guard (k < length (cands c) \<and> cand_stage (cands c ! k) = Running)
     (let cd = cands c ! k; s = cand_owner cd; rf = srv c s; cp = cand_campaign cd;
          r = startAsCand_decide rf cp
      in go_guard (\<not> startAsCand_waits rf cp)
        (Inr ((set_cand c k (cd\<lparr>cand_stage := Returned r\<rparr>))
          \<lparr>elected := (if r = Win \<and> Term rf = RV_Term (campaign_args cp)
             then insert (s, Term rf) (elected c) else elected c)\<rparr>)))"

text \<open>
  The goroutine of one vote request, once its RPC has returned. It runs its region whether or not
  the campaign has already returned.
\<close>

definition count_vote ::
  "'c cluster \<Rightarrow> nat \<Rightarrow> nat \<Rightarrow> nat \<Rightarrow> RequestVoteReply option \<Rightarrow> 'c cluster go" where
  "count_vote c j k v reply =
     (let cd = cands c ! k; s = cand_owner cd in
      go_guard (k < length (cands c) \<and> cand_stage cd \<noteq> Spawned \<and> cand_stage cd \<noteq> Stopped)
        (go_bind (startAsCand_reply (srv c s) (cand_campaign cd) reply) (\<lambda>(rf', cp').
           Inr (set_thread (set_cand (set_srv c s rf') k
             (cd\<lparr>cand_campaign := cp',
                 cand_voters := (if votes cp' > votes (cand_campaign cd)
                   then insert v (cand_voters cd) else cand_voters cd)\<rparr>)) j Finished))))"

section \<open>Votes on the network\<close>

text \<open>\<open>HandleRequestVote\<close> at server \<open>v\<close>.\<close>

definition vote_at ::
  "'c cluster \<Rightarrow> nat \<Rightarrow> RequestVoteArgs \<Rightarrow> ('c cluster \<times> RequestVoteReply) go" where
  "vote_at c v args =
     go_bind (HandleRequestVote (srv c v) args) (\<lambda>(rf', reply).
       Inr ((set_srv c v rf')\<lparr>votes_cast :=
         (if RVR_VoteGranted reply
          then insert (v, RVR_Term reply, nat (RV_PeerId args)) (votes_cast c)
          else votes_cast c)\<rparr>, reply))"

section \<open>The leader's goroutines\<close>

definition ev_LeaderSetup :: "'c cluster \<Rightarrow> nat \<Rightarrow> nat \<Rightarrow> 'c cluster go" where
  "ev_LeaderSetup c j s =
     Inr (set_thread (set_srv c s (startAsLeader_setup (srv c s))) j (LeaderLoop s))"

text \<open>One turn of the leader loop: \<open>go rf.sendHeartBeat()\<close>, then the state check.\<close>

definition ev_LeaderTurn :: "'c cluster \<Rightarrow> nat \<Rightarrow> nat \<Rightarrow> 'c cluster go" where
  "ev_LeaderTurn c j s =
     (if dead (srv c s) then Inr (set_thread c j Finished)
      else Inr (spawn (if State (srv c s) \<noteq> Leader then set_thread c j Finished else c)
        [BeatCheck s]))"

definition ev_BeatCheck :: "'c cluster \<Rightarrow> nat \<Rightarrow> nat \<Rightarrow> 'c cluster go" where
  "ev_BeatCheck c j s =
     Inr (spawn (set_thread c j Finished)
       (if State (srv c s) = Leader then map (BeatBuild s) (others c s) else []))"

definition ev_BeatBuild :: "'c cluster \<Rightarrow> nat \<Rightarrow> nat \<Rightarrow> nat \<Rightarrow> 'c cluster go" where
  "ev_BeatBuild c j s v = Inr (set_thread c j (BeatReq s v (heartBeatArgs (srv c s) (int v))))"

definition beat_reply ::
  "'c cluster \<Rightarrow> nat \<Rightarrow> nat \<Rightarrow> nat \<Rightarrow> AppendEntriesReply option \<Rightarrow> 'c cluster go" where
  "beat_reply c j s v reply =
     go_bind (sendHeartBeat_reply (srv c s) (int v) reply) (\<lambda>(rf', again).
       Inr (spawn (set_thread (set_srv c s rf') j Finished)
         (if again then [AppInit s v None] else [])))"

text \<open>\<open>HandleAppendEntries\<close> at server \<open>v\<close>.\<close>

definition append_at ::
  "'c cluster \<Rightarrow> nat \<Rightarrow> 'c AppendEntriesArgs \<Rightarrow> ('c cluster \<times> AppendEntriesReply) go" where
  "append_at c v args =
     go_bind (HandleAppendEntries (srv c v) args) (\<lambda>(rf', reply). Inr (set_srv c v rf', reply))"

section \<open>StartOnePeerAppend\<close>

definition ev_AppInit :: "'c cluster \<Rightarrow> nat \<Rightarrow> nat \<Rightarrow> nat \<Rightarrow> nat option \<Rightarrow> 'c cluster go" where
  "ev_AppInit c j s v w =
     Inr (if State (srv c s) = Leader then set_thread c j (AppBuild s v w)
          else finish_append c j w)"

definition ev_AppBuild :: "'c cluster \<Rightarrow> nat \<Rightarrow> nat \<Rightarrow> nat \<Rightarrow> nat option \<Rightarrow> 'c cluster go" where
  "ev_AppBuild c j s v w =
     go_bind (StartOnePeerAppend_setup (srv c s) (int v)) (\<lambda>args.
       Inr (set_thread c j (AppLoop s v args w)))"

definition ev_AppLoop ::
  "'c cluster \<Rightarrow> nat \<Rightarrow> nat \<Rightarrow> nat \<Rightarrow> 'c AppendEntriesArgs \<Rightarrow> nat option \<Rightarrow> 'c cluster go" where
  "ev_AppLoop c j s v args w =
     Inr (if StartOnePeerAppend_continues (srv c s) then set_thread c j (AppGuarded s v args w)
          else finish_append c j w)"

definition ev_AppSend ::
  "'c cluster \<Rightarrow> nat \<Rightarrow> nat \<Rightarrow> nat \<Rightarrow> 'c AppendEntriesArgs \<Rightarrow> nat option \<Rightarrow> 'c cluster go" where
  "ev_AppSend c j s v args w =
     Inr (if StartOnePeerAppend_sends (srv c s) (int v) then set_thread c j (AppReq s v args w)
          else finish_append c j w)"

definition app_reply ::
  "'c cluster \<Rightarrow> nat \<Rightarrow> nat \<Rightarrow> nat \<Rightarrow> 'c AppendEntriesArgs \<Rightarrow> AppendEntriesReply option \<Rightarrow>
     nat option \<Rightarrow> 'c cluster go" where
  "app_reply c j s v args reply w =
     (case reply of
        None \<Rightarrow> Inr (finish_append (set_srv c s (markDead (srv c s) (int v))) j w)
      | Some r \<Rightarrow>
          if AER_Success r then
            go_bind (StartOnePeerAppend_success (srv c s) (int v) args) (\<lambda>rf'.
              Inr (finish_append (set_srv c s rf') j w))
          else
            go_bind (StartOnePeerAppend_resend (srv c s) (int v) args r) (\<lambda>(rf', args').
              Inr (set_thread (set_srv c s rf') j (AppLoop s v args' w))))"

section \<open>Start\<close>

definition ev_Start :: "'c cluster \<Rightarrow> nat \<Rightarrow> 'c option \<Rightarrow> 'c cluster go" where
  "ev_Start c s cmd = go_guard (s < servers c)
     (Inr (c\<lparr>starts := starts c @ [\<lparr>start_owner = s, start_command = cmd,
        start_stage = (if State (srv c s) = Leader then Checked else Answered (-1) (-1) False)\<rparr>]\<rparr>))"

definition ev_StartAppend :: "'c cluster \<Rightarrow> nat \<Rightarrow> 'c cluster go" where
  "ev_StartAppend c i = go_guard (i < length (starts c) \<and> start_stage (starts c ! i) = Checked)
     (let s = start_owner (starts c ! i);
          (rf', index, trm) = Start_append (srv c s) (start_command (starts c ! i))
      in Inr (spawn (set_start (set_srv c s rf') i (Appended index trm 1))
           (map (\<lambda>v. AppInit s v (Some i)) (others c s))))"

definition ev_StartReturn :: "'c cluster \<Rightarrow> nat \<Rightarrow> 'c cluster go" where
  "ev_StartReturn c i = go_guard (i < length (starts c))
     (case start_stage (starts c ! i) of
        Appended index trm heared \<Rightarrow>
          (let rf = srv c (start_owner (starts c ! i));
               (index', trm', ok) = Start_result rf index trm
           in go_guard (\<not> Start_waits rf index heared)
                (Inr (set_start c i (Answered index' trm' ok))))
      | _ \<Rightarrow> Inl Disabled)"

section \<open>Kill, crash and restart\<close>

definition ev_Kill :: "'c cluster \<Rightarrow> nat \<Rightarrow> 'c cluster go" where
  "ev_Kill c s = go_guard (s < servers c) (Inr (set_srv c s ((srv c s)\<lparr>dead := True\<rparr>)))"

text \<open>What is left of a thread when the process that runs it crashes: requests in flight may still
  be delivered, and nobody waits for their replies.\<close>

fun orphan :: "candidacy list \<Rightarrow> nat \<Rightarrow> 'c thread \<Rightarrow> 'c thread" where
  "orphan cs s (VoteReq k v a) = (if cand_owner (cs ! k) = s then VoteOrphan v a else VoteReq k v a)"
| "orphan cs s (VoteRep k v r) = (if cand_owner (cs ! k) = s then Finished else VoteRep k v r)"
| "orphan cs s (VoteOrphan v a) = VoteOrphan v a"
| "orphan cs s (LeaderInit p) = (if p = s then Finished else LeaderInit p)"
| "orphan cs s (LeaderLoop p) = (if p = s then Finished else LeaderLoop p)"
| "orphan cs s (BeatCheck p) = (if p = s then Finished else BeatCheck p)"
| "orphan cs s (BeatBuild p v) = (if p = s then Finished else BeatBuild p v)"
| "orphan cs s (BeatReq p v a) = (if p = s then AppOrphan v a else BeatReq p v a)"
| "orphan cs s (BeatRep p v r) = (if p = s then Finished else BeatRep p v r)"
| "orphan cs s (AppInit p v w) = (if p = s then Finished else AppInit p v w)"
| "orphan cs s (AppBuild p v w) = (if p = s then Finished else AppBuild p v w)"
| "orphan cs s (AppLoop p v a w) = (if p = s then Finished else AppLoop p v a w)"
| "orphan cs s (AppGuarded p v a w) = (if p = s then Finished else AppGuarded p v a w)"
| "orphan cs s (AppReq p v a w) = (if p = s then AppOrphan v a else AppReq p v a w)"
| "orphan cs s (AppRep p v a r w) = (if p = s then Finished else AppRep p v a r w)"
| "orphan cs s (AppOrphan v a) = AppOrphan v a"
| "orphan cs s Finished = Finished"

definition ev_Crash :: "'c cluster \<Rightarrow> nat \<Rightarrow> 'c cluster go" where
  "ev_Crash c s = go_guard (s < servers c)
     (Inr (c\<lparr>srv := (srv c)(s := Make (int (servers c)) (int s) (Copy (persister (srv c s)))),
        loop_no := (loop_no c)(s := loop_no c s + 1),
        phase := (phase c)(s := Electing),
        cands := map (\<lambda>cd. if cand_owner cd = s then cd\<lparr>cand_stage := Stopped\<rparr> else cd) (cands c),
        threads := map (orphan (cands c) s) (threads c),
        starts := map (\<lambda>st. if start_owner st = s then st\<lparr>start_stage := Abandoned\<rparr> else st)
          (starts c)\<rparr>))"

section \<open>The step function\<close>

text \<open>\<open>Run j\<close>: thread \<open>j\<close> takes its next step, or the network delivers its request or its reply;
  \<open>Fail j\<close>: the RPC of thread \<open>j\<close> returns false.\<close>

datatype 'c event =
    Tick nat | DrainHB nat | TakeResult nat | LoopExit nat | DrainBecome nat
  | Campaign nat | Expire nat | Decide nat
  | Run nat | Fail nat
  | ClientStart nat "'c option" | StartAppend nat | StartReturn nat
  | Kill nat | Crash nat

fun run_thread :: "'c cluster \<Rightarrow> nat \<Rightarrow> 'c thread \<Rightarrow> 'c cluster go" where
  "run_thread c j (VoteReq k v a) =
     go_bind (vote_at c v a) (\<lambda>(c1, r). Inr (set_thread c1 j (VoteRep k v r)))"
| "run_thread c j (VoteRep k v r) = count_vote c j k v (Some r)"
| "run_thread c j (VoteOrphan v a) =
     go_bind (vote_at c v a) (\<lambda>(c1, r). Inr (set_thread c1 j Finished))"
| "run_thread c j (LeaderInit s) = ev_LeaderSetup c j s"
| "run_thread c j (LeaderLoop s) = ev_LeaderTurn c j s"
| "run_thread c j (BeatCheck s) = ev_BeatCheck c j s"
| "run_thread c j (BeatBuild s v) = ev_BeatBuild c j s v"
| "run_thread c j (BeatReq s v a) =
     go_bind (append_at c v a) (\<lambda>(c1, r). Inr (set_thread c1 j (BeatRep s v r)))"
| "run_thread c j (BeatRep s v r) = beat_reply c j s v (Some r)"
| "run_thread c j (AppInit s v w) = ev_AppInit c j s v w"
| "run_thread c j (AppBuild s v w) = ev_AppBuild c j s v w"
| "run_thread c j (AppLoop s v a w) = ev_AppLoop c j s v a w"
| "run_thread c j (AppGuarded s v a w) = ev_AppSend c j s v a w"
| "run_thread c j (AppReq s v a w) =
     go_bind (append_at c v a) (\<lambda>(c1, r). Inr (set_thread c1 j (AppRep s v a r w)))"
| "run_thread c j (AppRep s v a r w) = app_reply c j s v a (Some r) w"
| "run_thread c j (AppOrphan v a) =
     go_bind (append_at c v a) (\<lambda>(c1, r). Inr (set_thread c1 j Finished))"
| "run_thread c j Finished = Inl Disabled"

fun fail_thread :: "'c cluster \<Rightarrow> nat \<Rightarrow> 'c thread \<Rightarrow> 'c cluster go" where
  "fail_thread c j (VoteReq k v a) =
     go_bind (count_vote c j k v None) (\<lambda>c1. Inr (spawn c1 [VoteOrphan v a]))"
| "fail_thread c j (VoteRep k v r) = count_vote c j k v None"
| "fail_thread c j (BeatReq s v a) =
     go_bind (beat_reply c j s v None) (\<lambda>c1. Inr (spawn c1 [AppOrphan v a]))"
| "fail_thread c j (BeatRep s v r) = beat_reply c j s v None"
| "fail_thread c j (AppReq s v a w) =
     go_bind (app_reply c j s v a None w) (\<lambda>c1. Inr (spawn c1 [AppOrphan v a]))"
| "fail_thread c j (AppRep s v a r w) = app_reply c j s v a None w"
| "fail_thread c j _ = Inl Disabled"

fun cstep :: "'c cluster \<Rightarrow> 'c event \<Rightarrow> 'c cluster go" where
  "cstep c (Tick s) = ev_Tick c s"
| "cstep c (DrainHB s) = ev_DrainHB c s"
| "cstep c (TakeResult k) = ev_TakeResult c k"
| "cstep c (LoopExit s) = ev_LoopExit c s"
| "cstep c (DrainBecome s) = ev_DrainBecome c s"
| "cstep c (Campaign k) = ev_Campaign c k"
| "cstep c (Expire k) = ev_Expire c k"
| "cstep c (Decide k) = ev_Decide c k"
| "cstep c (Run j) = go_guard (j < length (threads c)) (run_thread c j (threads c ! j))"
| "cstep c (Fail j) = go_guard (j < length (threads c)) (fail_thread c j (threads c ! j))"
| "cstep c (ClientStart s cmd) = ev_Start c s cmd"
| "cstep c (StartAppend i) = ev_StartAppend c i"
| "cstep c (StartReturn i) = ev_StartReturn c i"
| "cstep c (Kill s) = ev_Kill c s"
| "cstep c (Crash s) = ev_Crash c s"

fun cluster_run :: "'c cluster \<Rightarrow> 'c event list \<Rightarrow> 'c cluster go" where
  "cluster_run c [] = Inr c"
| "cluster_run c (e # es) = go_bind (cstep c e) (\<lambda>c1. cluster_run c1 es)"

lemma cluster_run_append:
  "cluster_run c (es @ fs) = go_bind (cluster_run c es) (\<lambda>c1. cluster_run c1 fs)"
proof (induction es arbitrary: c)
  case (Cons e es)
  then show ?case by (cases "cstep c e") simp_all
qed simp

inductive reachable :: "nat \<Rightarrow> 'c cluster \<Rightarrow> bool" for n :: nat where
  reach_init: "reachable n (initial_cluster n)"
| reach_step: "reachable n c \<Longrightarrow> cstep c e = Inr c' \<Longrightarrow> reachable n c'"

lemma reachable_run: "reachable n c \<Longrightarrow> cluster_run c es = Inr c' \<Longrightarrow> reachable n c'"
proof (induction es arbitrary: c)
  case Nil
  then show ?case by simp
next
  case (Cons e es)
  then show ?case by (auto simp: go_simps intro: reach_step)
qed

end
