(* ===== verification/Raft_Safety.thy ===== *)
theory Raft_Safety
  imports Raft_Cluster
begin

text \<open>
  Invariants of every reachable cluster: each server satisfies \<open>server_ok\<close> and has its term and vote
  on disk, every append request in flight is well formed, and the only step that can panic is the
  resend of an append from an index beyond the sender's log.
\<close>

section \<open>The invariant\<close>

definition srv_ok :: "nat \<Rightarrow> nat \<Rightarrow> 'c Raft \<Rightarrow> bool" where
  "srv_ok n s rf \<longleftrightarrow> server_ok rf \<and> durable_ok rf \<and> Me rf = int s \<and> PeerNumber rf = int n"

definition vote_args_ok :: "RequestVoteArgs \<Rightarrow> bool" where
  "vote_args_ok a \<longleftrightarrow> 0 \<le> RV_PeerId a"

fun thread_ok :: "'c thread \<Rightarrow> bool" where
  "thread_ok (VoteReq k v a) = vote_args_ok a"
| "thread_ok (VoteOrphan v a) = vote_args_ok a"
| "thread_ok (BeatReq s v a) = append_ok a"
| "thread_ok (AppLoop s v a w) = append_ok a"
| "thread_ok (AppGuarded s v a w) = append_ok a"
| "thread_ok (AppReq s v a w) = append_ok a"
| "thread_ok (AppRep s v a r w) = (append_ok a \<and> reply_ok a r)"
| "thread_ok (AppOrphan v a) = append_ok a"
| "thread_ok _ = True"

definition cluster_ok :: "nat \<Rightarrow> 'c cluster \<Rightarrow> bool" where
  "cluster_ok n c \<longleftrightarrow> servers c = n \<and> (\<forall>s. srv_ok n s (srv c s)) \<and> (\<forall>t \<in> set (threads c). thread_ok t)"

named_theorems cluster_ok_intros \<open>updates that keep the invariant of the cluster\<close>

lemma cluster_ok_set_srv [cluster_ok_intros]:
  "cluster_ok n c \<Longrightarrow> srv_ok n s rf \<Longrightarrow> cluster_ok n (set_srv c s rf)"
  by (simp add: cluster_ok_def set_srv_def)

lemma cluster_ok_set_thread [cluster_ok_intros]:
  "cluster_ok n c \<Longrightarrow> thread_ok t \<Longrightarrow> cluster_ok n (set_thread c j t)"
  by (auto simp: cluster_ok_def set_thread_def dest: set_list_update_subset)

lemma cluster_ok_spawn [cluster_ok_intros]:
  "cluster_ok n c \<Longrightarrow> \<forall>t \<in> set ts. thread_ok t \<Longrightarrow> cluster_ok n (spawn c ts)"
  by (auto simp: cluster_ok_def spawn_def)

lemma cluster_ok_frame [simp]:
  "cluster_ok n (set_cand c k cd) = cluster_ok n c"
  "cluster_ok n (set_start c i st) = cluster_ok n c"
  "cluster_ok n (c\<lparr>cands := cs\<rparr>) = cluster_ok n c"
  "cluster_ok n (c\<lparr>phase := ph\<rparr>) = cluster_ok n c"
  "cluster_ok n (c\<lparr>loop_no := l\<rparr>) = cluster_ok n c"
  "cluster_ok n (c\<lparr>starts := st'\<rparr>) = cluster_ok n c"
  "cluster_ok n (c\<lparr>votes_cast := vc\<rparr>) = cluster_ok n c"
  "cluster_ok n (c\<lparr>elected := el\<rparr>) = cluster_ok n c"
  by (simp_all add: cluster_ok_def set_cand_def set_start_def)

lemma cluster_ok_finish_append [cluster_ok_intros]:
  "cluster_ok n c \<Longrightarrow> cluster_ok n (finish_append c j w)"
  by (simp add: finish_append_def Let_def cluster_ok_set_thread
      split: option.splits start_stage.splits)

lemma cluster_ok_srv: "cluster_ok n c \<Longrightarrow> srv_ok n s (srv c s)"
  by (simp add: cluster_ok_def)

lemma server_ok_of: "cluster_ok n c \<Longrightarrow> server_ok (srv c s)"
  by (simp add: cluster_ok_def srv_ok_def)

lemma log_wf_of: "cluster_ok n c \<Longrightarrow> log_wf (srv c s)"
  by (simp add: cluster_ok_def srv_ok_def server_ok_def)

lemma cluster_ok_thread: "cluster_ok n c \<Longrightarrow> j < length (threads c) \<Longrightarrow> thread_ok (threads c ! j)"
  by (simp add: cluster_ok_def)

lemma srv_ok_evolves:
  "srv_ok n s rf \<Longrightarrow> server_ok rf' \<Longrightarrow> evolves rf rf' \<Longrightarrow> durable_ok rf' \<Longrightarrow> srv_ok n s rf'"
  by (simp add: srv_ok_def evolves_def)

lemma srv_ok_Test: "srv_ok n s rf \<Longrightarrow> Test rf"
  by (simp add: srv_ok_def durable_ok_def)

lemma srv_ok_cong:
  assumes "IsLeader rf' = IsLeader rf" "State rf' = State rf" "Log rf' = Log rf"
    "LastApply rf' = LastApply rf" "ApplyChan rf' = ApplyChan rf" "MatchIndex rf' = MatchIndex rf"
    "persister rf' = persister rf" "Test rf' = Test rf" "Term rf' = Term rf"
    "VotedFor rf' = VotedFor rf" "Me rf' = Me rf" "PeerNumber rf' = PeerNumber rf"
  shows "srv_ok n s rf' = srv_ok n s rf"
  using assms server_ok_cong [of rf' rf] by (simp add: srv_ok_def durable_ok_def)

section \<open>The regions at a server of the cluster\<close>

lemma srv_ok_vote:
  assumes "srv_ok n s rf" and "HandleRequestVote rf a = Inr (rf', r)"
  shows "srv_ok n s rf'"
  using assms HandleRequestVote_ok [OF _ srv_ok_Test [OF assms(1)] assms(2)]
  by (auto simp: srv_ok_def evolves_def)

lemma srv_ok_append:
  assumes "srv_ok n s rf" and "append_ok a" and "HandleAppendEntries rf a = Inr (rf', r)"
  shows "srv_ok n s rf' \<and> reply_ok a r"
  using assms HandleAppendEntries_ok [OF _ assms(2) srv_ok_Test [OF assms(1)] assms(3)]
  by (auto simp: srv_ok_def evolves_def)

lemma srv_ok_begin:
  assumes "srv_ok n s rf" and "startAsCand_begin rf = Inr (rf', cp)"
  shows "srv_ok n s rf'"
  using assms startAsCand_begin_ok [OF _ srv_ok_Test [OF assms(1)] assms(2)]
  by (auto simp: srv_ok_def evolves_def)

lemma srv_ok_count:
  assumes "srv_ok n s rf" and "startAsCand_reply rf cp r = Inr (rf', cp')"
  shows "srv_ok n s rf'"
  using assms startAsCand_reply_ok [of rf cp r rf' cp'] by (auto simp: srv_ok_def evolves_def)

lemma srv_ok_setup:
  assumes "srv_ok n s rf"
  shows "srv_ok n s (startAsLeader_setup rf)"
  using assms startAsLeader_setup_ok [of rf]
  by (auto simp: srv_ok_def evolves_def keepsVote_durable)

lemma srv_ok_beat_reply:
  assumes "srv_ok n s rf" and "sendHeartBeat_reply rf v r = Inr (rf', again)"
  shows "srv_ok n s rf'"
  using assms sendHeartBeat_reply_ok [of rf v r rf' again] by (auto simp: srv_ok_def evolves_def)

lemma srv_ok_markDead: "srv_ok n s rf \<Longrightarrow> srv_ok n s (markDead rf v)"
  by (subst srv_ok_cong [of _ rf]) (simp_all add: markDead_def)

lemma srv_ok_success:
  assumes "srv_ok n s rf" and "append_ok a" and "StartOnePeerAppend_success rf v a = Inr rf'"
  shows "srv_ok n s rf'"
  using assms StartOnePeerAppend_success_ok [OF _ assms(2), of rf v]
  by (auto simp: srv_ok_def evolves_def)

lemma srv_ok_resend:
  assumes "srv_ok n s rf" and "append_ok a" and "reply_ok a r" and "\<not> AER_Success r"
    and "StartOnePeerAppend_resend rf v a r = Inr (rf', a')"
  shows "srv_ok n s rf' \<and> append_ok a'"
  using assms StartOnePeerAppend_resend_ok [OF _ assms(2-5)]
  by (auto simp: srv_ok_def evolves_def)

lemma srv_ok_Start:
  assumes "srv_ok n s rf" and "Start_append rf cmd = (rf', i, t)"
  shows "srv_ok n s rf'"
  using assms Start_append_ok [OF _ srv_ok_Test [OF assms(1)] assms(2)]
  by (auto simp: srv_ok_def evolves_def)

lemma srv_ok_Make:
  assumes "contig 1 (snd (snd (gob_load ps)))"
  shows "srv_ok n s (Make (int n) (int s) ps)"
proof -
  have d: "gob_load ps = (Term (Make (int n) (int s) ps), VotedFor (Make (int n) (int s) ps),
      Log (Make (int n) (int s) ps))"
    using Make_durable [of "int n" "int s" ps] by (simp add: durable_of_def)
  show ?thesis
    using assms by (simp add: srv_ok_def server_ok_def role_ok_def log_wf_def apply_ok_def
        match_ok_def durable_ok_def d)
qed

section \<open>Every step keeps the invariant\<close>

lemma cluster_ok_initial: "cluster_ok n (initial_cluster n)"
  by (simp add: cluster_ok_def initial_cluster_def srv_ok_Make gob_load_def ReadRaftState_def
      MakePersister_def gob_parse_def)

lemma vote_at_ok: "cluster_ok n c \<Longrightarrow> vote_at c v a = Inr (c', r) \<Longrightarrow> cluster_ok n c'"
  by (auto simp: vote_at_def go_simps intro!: cluster_ok_intros
      dest: srv_ok_vote [OF cluster_ok_srv])

lemma append_at_ok:
  "cluster_ok n c \<Longrightarrow> append_ok a \<Longrightarrow> append_at c v a = Inr (c', r) \<Longrightarrow>
     cluster_ok n c' \<and> reply_ok a r"
  by (auto simp: append_at_def go_simps intro!: cluster_ok_intros
      dest: srv_ok_append [OF cluster_ok_srv])

lemma count_vote_ok: "cluster_ok n c \<Longrightarrow> count_vote c j k v r = Inr c' \<Longrightarrow> cluster_ok n c'"
  by (auto simp: count_vote_def Let_def go_simps intro!: cluster_ok_intros
      dest: srv_ok_count [OF cluster_ok_srv])

lemma beat_reply_ok: "cluster_ok n c \<Longrightarrow> beat_reply c j s v r = Inr c' \<Longrightarrow> cluster_ok n c'"
  by (auto simp: beat_reply_def go_simps intro!: cluster_ok_intros
      dest: srv_ok_beat_reply [OF cluster_ok_srv])

lemma app_reply_ok:
  assumes ok: "cluster_ok n c" and a: "append_ok a" and rep: "\<And>r'. r = Some r' \<Longrightarrow> reply_ok a r'"
    and r: "app_reply c j s v a r w = Inr c'"
  shows "cluster_ok n c'"
proof (cases r)
  case None
  with r have "c' = finish_append (set_srv c s (markDead (srv c s) (int v))) j w"
    by (simp add: app_reply_def)
  with ok show ?thesis
    by (simp add: cluster_ok_finish_append cluster_ok_set_srv srv_ok_markDead cluster_ok_srv)
next
  case (Some r')
  have s: "srv_ok n s (srv c s)" using ok by (rule cluster_ok_srv)
  show ?thesis
  proof (cases "AER_Success r'")
    case True
    with Some r obtain rf' where "StartOnePeerAppend_success (srv c s) (int v) a = Inr rf'"
      and "c' = finish_append (set_srv c s rf') j w"
      by (auto simp: app_reply_def go_simps)
    with ok srv_ok_success [OF s a] show ?thesis
      by (simp add: cluster_ok_finish_append cluster_ok_set_srv)
  next
    case False
    with Some r obtain rf' a' where "StartOnePeerAppend_resend (srv c s) (int v) a r' = Inr (rf', a')"
      and "c' = set_thread (set_srv c s rf') j (AppLoop s v a' w)"
      by (auto simp: app_reply_def go_simps)
    with ok srv_ok_resend [OF s a rep [OF Some] False] show ?thesis
      by (simp add: cluster_ok_set_thread cluster_ok_set_srv)
  qed
qed

lemma leader_thread_ok:
  assumes "cluster_ok n c"
  shows "ev_LeaderSetup c j s = Inr c' \<Longrightarrow> cluster_ok n c'"
    and "ev_LeaderTurn c j s = Inr c' \<Longrightarrow> cluster_ok n c'"
    and "ev_BeatCheck c j s = Inr c' \<Longrightarrow> cluster_ok n c'"
    and "ev_BeatBuild c j s v = Inr c' \<Longrightarrow> cluster_ok n c'"
    and "ev_AppInit c j s v w = Inr c' \<Longrightarrow> cluster_ok n c'"
    and "append_ok a \<Longrightarrow> ev_AppLoop c j s v a w = Inr c' \<Longrightarrow> cluster_ok n c'"
    and "append_ok a \<Longrightarrow> ev_AppSend c j s v a w = Inr c' \<Longrightarrow> cluster_ok n c'"
  using assms srv_ok_setup [OF cluster_ok_srv [OF assms], of s]
  by (auto simp: ev_LeaderSetup_def ev_LeaderTurn_def ev_BeatCheck_def ev_BeatBuild_def
      ev_AppInit_def ev_AppLoop_def ev_AppSend_def split: if_splits intro!: cluster_ok_intros)

lemma AppBuild_ok:
  assumes "cluster_ok n c" and "ev_AppBuild c j s v w = Inr c'"
  shows "cluster_ok n c'"
proof -
  from StartOnePeerAppend_setup_ok [of "srv c s"] cluster_ok_srv [OF assms(1), of s]
  obtain args where "StartOnePeerAppend_setup (srv c s) (int v) = Inr args" and "append_ok args"
    by (meson srv_ok_def)
  with assms show ?thesis by (auto simp: ev_AppBuild_def intro!: cluster_ok_intros)
qed

lemma run_thread_ok:
  assumes ok: "cluster_ok n c" and t: "thread_ok t" and r: "run_thread c j t = Inr c'"
  shows "cluster_ok n c'"
proof (cases t)
  case (VoteReq k v a)
  with r obtain c1 r' where "vote_at c v a = Inr (c1, r')" and "c' = set_thread c1 j (VoteRep k v r')"
    by (auto simp: go_simps)
  then show ?thesis using vote_at_ok [OF ok] by (simp add: cluster_ok_set_thread)
next
  case (VoteOrphan v a)
  with r obtain c1 r' where "vote_at c v a = Inr (c1, r')" and "c' = set_thread c1 j Finished"
    by (auto simp: go_simps)
  then show ?thesis using vote_at_ok [OF ok] by (simp add: cluster_ok_set_thread)
next
  case (BeatReq s v a)
  with r obtain c1 r' where "append_at c v a = Inr (c1, r')" and "c' = set_thread c1 j (BeatRep s v r')"
    by (auto simp: go_simps)
  then show ?thesis using append_at_ok [OF ok] BeatReq t by (simp add: cluster_ok_set_thread)
next
  case (AppReq s v a w)
  with r obtain c1 r' where "append_at c v a = Inr (c1, r')"
    and "c' = set_thread c1 j (AppRep s v a r' w)"
    by (auto simp: go_simps)
  then show ?thesis using append_at_ok [OF ok] AppReq t by (simp add: cluster_ok_set_thread)
next
  case (AppOrphan v a)
  with r obtain c1 r' where "append_at c v a = Inr (c1, r')" and "c' = set_thread c1 j Finished"
    by (auto simp: go_simps)
  then show ?thesis using append_at_ok [OF ok] AppOrphan t by (simp add: cluster_ok_set_thread)
next
  case (AppRep s v a r' w)
  with r t show ?thesis using app_reply_ok [OF ok, of a "Some r'"] by simp
qed (use r t leader_thread_ok [OF ok] AppBuild_ok [OF ok] count_vote_ok [OF ok]
    beat_reply_ok [OF ok] in simp_all)

lemma fail_thread_ok:
  assumes ok: "cluster_ok n c" and t: "thread_ok t" and r: "fail_thread c j t = Inr c'"
  shows "cluster_ok n c'"
proof (cases t)
  case (VoteReq k v a)
  with r obtain c1 where "count_vote c j k v None = Inr c1" and "c' = spawn c1 [VoteOrphan v a]"
    by (auto simp: go_simps)
  then show ?thesis using count_vote_ok [OF ok] VoteReq t by (simp add: cluster_ok_spawn)
next
  case (BeatReq s v a)
  with r obtain c1 where "beat_reply c j s v None = Inr c1" and "c' = spawn c1 [AppOrphan v a]"
    by (auto simp: go_simps)
  then show ?thesis using beat_reply_ok [OF ok] BeatReq t by (simp add: cluster_ok_spawn)
next
  case (AppReq s v a w)
  with r obtain c1 where "app_reply c j s v a None w = Inr c1" and "c' = spawn c1 [AppOrphan v a]"
    by (auto simp: go_simps)
  then show ?thesis using app_reply_ok [OF ok, of a None] AppReq t by (simp add: cluster_ok_spawn)
next
  case (AppRep s v a r' w)
  with r t show ?thesis using app_reply_ok [OF ok, of a None] by simp
qed (use r count_vote_ok [OF ok] beat_reply_ok [OF ok] in simp_all)

lemma thread_ok_orphan: "thread_ok t \<Longrightarrow> thread_ok (orphan cs s t)"
  by (cases t) auto

lemma Crash_ok:
  assumes "cluster_ok n c" and "ev_Crash c s = Inr c'"
  shows "cluster_ok n c'"
proof -
  have "contig 1 (snd (snd (gob_load (persister (srv c s)))))"
    using cluster_ok_srv [OF assms(1), of s] by (simp add: srv_ok_def durable_ok_def)
  then have "srv_ok n s (Make (int n) (int s) (Copy (persister (srv c s))))"
    by (intro srv_ok_Make) simp
  with assms show ?thesis
    by (auto simp: ev_Crash_def go_simps cluster_ok_def thread_ok_orphan)
qed

lemma cstep_ok:
  assumes ok: "cluster_ok n c" and st: "cstep c e = Inr c'"
  shows "cluster_ok n c'"
proof (cases e)
  case (DrainHB s)
  have "srv_ok n s ((srv c s)\<lparr>ReceiveHB := b\<rparr>)" for b
    using cluster_ok_srv [OF ok, of s] by (subst srv_ok_cong [of _ "srv c s"]) simp_all
  with DrainHB st ok show ?thesis by (auto simp: ev_DrainHB_def go_simps intro!: cluster_ok_intros)
next
  case (DrainBecome s)
  have "srv_ok n s ((srv c s)\<lparr>BecomeFollwerFromLeader := b\<rparr>)" for b
    using cluster_ok_srv [OF ok, of s] by (subst srv_ok_cong [of _ "srv c s"]) simp_all
  with DrainBecome st ok show ?thesis
    by (auto simp: ev_DrainBecome_def go_simps intro!: cluster_ok_intros)
next
  case (TakeResult k)
  with st ok show ?thesis
    by (auto simp: ev_TakeResult_def go_simps Let_def intro!: cluster_ok_intros
        split: cand_stage.splits election_result.splits)
next
  case (Campaign k)
  let ?s = "cand_owner (cands c ! k)"
  from Campaign st obtain rf' cp where b: "startAsCand_begin (srv c ?s) = Inr (rf', cp)"
    by (auto simp: ev_Campaign_def go_simps Let_def)
  have "srv_ok n ?s rf'" using cluster_ok_srv [OF ok] b by (rule srv_ok_begin)
  moreover have "vote_args_ok (campaign_args cp)"
    using b log_wf_of [OF ok, of ?s] cluster_ok_srv [OF ok, of ?s]
    by (auto simp: startAsCand_begin_spec Let_def vote_args_ok_def srv_ok_def)
  ultimately show ?thesis
    using Campaign st ok b by (auto simp: ev_Campaign_def go_simps Let_def intro!: cluster_ok_intros)
next
  case (StartAppend i)
  with st ok show ?thesis
    by (auto simp: ev_StartAppend_def go_simps Let_def intro!: cluster_ok_intros
        intro: srv_ok_Start [OF cluster_ok_srv [OF ok]] split: prod.splits)
next
  case (StartReturn i)
  with st ok show ?thesis
    by (auto simp: ev_StartReturn_def go_simps Let_def split: start_stage.splits prod.splits)
next
  case (Kill s)
  have "srv_ok n s ((srv c s)\<lparr>dead := True\<rparr>)"
    using cluster_ok_srv [OF ok, of s] by (subst srv_ok_cong [of _ "srv c s"]) simp_all
  with Kill st ok show ?thesis by (auto simp: ev_Kill_def go_simps intro!: cluster_ok_intros)
next
  case (Crash s)
  with st ok show ?thesis by (auto intro: Crash_ok)
next
  case (Run j)
  with st ok show ?thesis by (auto simp: go_simps intro: run_thread_ok cluster_ok_thread)
next
  case (Fail j)
  with st ok show ?thesis by (auto simp: go_simps intro: fail_thread_ok cluster_ok_thread)
qed (use ok st in \<open>auto simp: go_simps Let_def ev_Tick_def ev_LoopExit_def ev_Expire_def
    ev_Decide_def ev_Start_def intro!: cluster_ok_intros\<close>)

lemma reachable_ok: "reachable n c \<Longrightarrow> cluster_ok n c"
  by (induction rule: reachable.induct) (auto intro: cluster_ok_initial cstep_ok)

section \<open>Panics\<close>

text \<open>The one step that may panic: a resend from an index beyond the log the sender has by now.\<close>

definition stale_resend :: "'c cluster \<Rightarrow> 'c event \<Rightarrow> bool" where
  "stale_resend c e \<longleftrightarrow> (\<exists>j s v a r w. e = Run j \<and> j < length (threads c) \<and>
     threads c ! j = AppRep s v a r w \<and> \<not> AER_Success r \<and>
     resendFrom a r > int (length (Log (srv c s))))"

lemma no_panic_simps:
  "Inr x \<noteq> Inl Panic" "Inl WouldBlock \<noteq> Inl Panic" "Inl Disabled \<noteq> Inl Panic"
  by simp_all

lemma vote_at_no_panic: "cluster_ok n c \<Longrightarrow> vote_at c v a \<noteq> Inl Panic"
  by (auto simp: vote_at_def go_bind_Inl_iff HandleRequestVote_no_panic log_wf_of)

lemma append_at_no_panic: "cluster_ok n c \<Longrightarrow> append_ok a \<Longrightarrow> append_at c v a \<noteq> Inl Panic"
  by (auto simp: append_at_def go_bind_Inl_iff HandleAppendEntries_no_panic server_ok_of)

lemma count_vote_no_panic [simp]: "count_vote c j k v r \<noteq> Inl Panic"
  by (auto simp: count_vote_def Let_def go_guard_def go_bind_Inl_iff startAsCand_reply_no_panic)

lemma beat_reply_no_panic [simp]: "beat_reply c j s v r \<noteq> Inl Panic"
  by (auto simp: beat_reply_def go_bind_Inl_iff sendHeartBeat_reply_no_panic)

lemma app_reply_panic:
  assumes ok: "cluster_ok n c" and a: "append_ok a" and rep: "\<And>r'. r = Some r' \<Longrightarrow> reply_ok a r'"
    and p: "app_reply c j s v a r w = Inl Panic"
  shows "\<exists>r'. r = Some r' \<and> \<not> AER_Success r' \<and> resendFrom a r' > int (length (Log (srv c s)))"
proof (cases r)
  case None
  with p show ?thesis by (simp add: app_reply_def)
next
  case (Some r')
  obtain rf' where "StartOnePeerAppend_success (srv c s) (int v) a = Inr rf'"
    using StartOnePeerAppend_success_ok [OF server_ok_of [OF ok] a] by blast
  with Some p have f: "\<not> AER_Success r'"
    and "StartOnePeerAppend_resend (srv c s) (int v) a r' = Inl Panic"
    by (auto simp: app_reply_def go_bind_Inl_iff split: if_splits)
  with StartOnePeerAppend_resend_spec
      [OF server_ok_of [OF ok] resendFrom_nonneg [OF a rep [OF Some] f]] Some
  show ?thesis by (auto simp: Let_def split: if_splits)
qed

lemma run_thread_panic:
  assumes ok: "cluster_ok n c" and t: "thread_ok t" and p: "run_thread c j t = Inl Panic"
  shows "\<exists>s v a r w. t = AppRep s v a r w \<and> \<not> AER_Success r \<and>
    resendFrom a r > int (length (Log (srv c s)))"
proof (cases t)
  case (AppRep s v a r w)
  with p t app_reply_panic [OF ok, of a "Some r" j s v w] show ?thesis by simp
next
  case (AppBuild s v w)
  with StartOnePeerAppend_setup_ok [OF server_ok_of [OF ok], of s "int v"] p show ?thesis
    by (auto simp: ev_AppBuild_def)
qed (use p t vote_at_no_panic [OF ok] append_at_no_panic [OF ok] in
    \<open>auto simp: go_bind_Inl_iff ev_LeaderSetup_def ev_LeaderTurn_def ev_BeatCheck_def
      ev_BeatBuild_def ev_AppInit_def ev_AppLoop_def ev_AppSend_def split: if_splits\<close>)

lemma fail_thread_no_panic [simp]: "fail_thread c j t \<noteq> Inl Panic"
  by (cases t) (auto simp: go_bind_Inl_iff count_vote_no_panic beat_reply_no_panic app_reply_def)

lemma Campaign_no_panic: "cluster_ok n c \<Longrightarrow> ev_Campaign c k \<noteq> Inl Panic"
  by (auto simp: ev_Campaign_def go_guard_def go_bind_Inl_iff Let_def log_wf_of
      startAsCand_begin_spec)

lemma TakeResult_no_panic [simp]: "ev_TakeResult c k \<noteq> Inl Panic"
  by (auto simp: ev_TakeResult_def go_guard_def Let_def
      split: cand_stage.splits election_result.splits)

lemma StartReturn_no_panic [simp]: "ev_StartReturn c i \<noteq> Inl Panic"
  by (auto simp: ev_StartReturn_def go_guard_def Let_def split: start_stage.splits prod.splits)

lemma cstep_panic:
  assumes ok: "cluster_ok n c" and p: "cstep c e = Inl Panic"
  shows "stale_resend c e"
proof (cases e)
  case (Run j)
  with p have j: "j < length (threads c)" and "run_thread c j (threads c ! j) = Inl Panic"
    by (auto simp: go_guard_def split: if_splits)
  with run_thread_panic [OF ok cluster_ok_thread [OF ok j]] Run show ?thesis
    by (force simp: stale_resend_def)
next
  case (Fail j)
  with p show ?thesis by (auto simp: go_guard_def split: if_splits)
qed (use p Campaign_no_panic [OF ok] in
    \<open>auto simp: go_guard_def Let_def ev_Tick_def ev_DrainHB_def ev_LoopExit_def ev_DrainBecome_def
      ev_Expire_def ev_Decide_def ev_Start_def ev_StartAppend_def ev_Kill_def ev_Crash_def
      split: if_splits prod.splits\<close>)

section \<open>Updates of the cluster at the servers\<close>

lemma srv_updates [simp]:
  "srv (set_srv c s rf) = (srv c)(s := rf)" "srv (set_thread c j t) = srv c"
  "srv (spawn c ts) = srv c" "srv (set_cand c k cd) = srv c" "srv (set_start c i st) = srv c"
  "srv (finish_append c j w) = srv c"
  by (simp_all add: set_srv_def set_thread_def spawn_def set_cand_def set_start_def
      finish_append_def Let_def split: option.splits start_stage.splits)

end
