(* ===== verification/Raft_Election.thy ===== *)
theory Raft_Election
  imports Raft_Safety
begin

text \<open>
  Elections. Every step moves at most one server, and casts at most one vote, at that server. From
  this: a server never votes twice in a term, through crashes and restarts, and two campaigns of the
  same term that are decided while their servers are still in that term were won by the same server.
  The quorum argument is the locale \<open>quorum_system\<close>, interpreted on the majorities the code counts.
\<close>

section \<open>Quorums\<close>

locale quorum_system =
  fixes quorum :: "'p set \<Rightarrow> bool"
  assumes quorum_meet: "quorum A \<Longrightarrow> quorum B \<Longrightarrow> A \<inter> B \<noteq> {}"
begin

text \<open>Two outcomes backed by quorums of voters who each back one outcome are the same.\<close>

lemma unique_outcome:
  assumes "quorum A" and "quorum B"
    and "\<And>v. v \<in> A \<Longrightarrow> backs v x" and "\<And>v. v \<in> B \<Longrightarrow> backs v y"
    and "\<And>v. backs v x \<Longrightarrow> backs v y \<Longrightarrow> x = y"
  shows "x = y"
  using quorum_meet [OF assms(1,2)] assms(3-5) by blast

end

text \<open>What \<open>votes > rf.PeerNumber/2\<close> means for the set of voters.\<close>

definition voter_majority :: "nat \<Rightarrow> nat set \<Rightarrow> bool" where
  "voter_majority n V \<longleftrightarrow> V \<subseteq> {..<n} \<and> int (card V) > int n div 2"

lemma voter_majority_meet:
  assumes "voter_majority n A" and "voter_majority n B"
  shows "A \<inter> B \<noteq> {}"
proof
  assume "A \<inter> B = {}"
  have fin: "finite A" "finite B"
    using assms finite_subset [OF _ finite_lessThan] by (auto simp: voter_majority_def)
  have "card A + card B = card (A \<union> B)"
    using card_Un_disjoint [OF fin \<open>A \<inter> B = {}\<close>] by simp
  also have "\<dots> \<le> n"
    using assms card_mono [of "{..<n}" "A \<union> B"] by (simp add: voter_majority_def)
  finally show False using assms by (auto simp: voter_majority_def)
qed

interpretation voters: quorum_system "voter_majority n" for n
  by unfold_locales (rule voter_majority_meet)

section \<open>The effect of one step on the servers and their votes\<close>

definition casts :: "'c cluster \<Rightarrow> 'c cluster \<Rightarrow> nat \<Rightarrow> 'c Raft \<Rightarrow> bool" where
  "casts c c' s rf' \<longleftrightarrow> votes_cast c' = votes_cast c \<or>
     (\<exists>p. votes_cast c' = insert (s, Term rf', p) (votes_cast c) \<and> VotedFor rf' = int p \<and>
        (Term (srv c s) < Term rf' \<or> VotedFor (srv c s) = -1))"

definition effect :: "'c cluster \<Rightarrow> 'c cluster \<Rightarrow> nat \<Rightarrow> 'c Raft \<Rightarrow> bool" where
  "effect c c' s rf' \<longleftrightarrow>
     srv c' = (srv c)(s := rf') \<and> evolves (srv c s) rf' \<and> casts c c' s rf'"

lemma votes_updates [simp]:
  "votes_cast (set_srv c s rf) = votes_cast c" "votes_cast (set_thread c j t) = votes_cast c"
  "votes_cast (spawn c ts) = votes_cast c" "votes_cast (set_cand c k cd) = votes_cast c"
  "votes_cast (set_start c i st) = votes_cast c"
  "votes_cast (finish_append c j w) = votes_cast c"
  by (simp_all add: set_srv_def set_thread_def spawn_def set_cand_def set_start_def
      finish_append_def Let_def split: option.splits start_stage.splits)

lemma effect_cong:
  "srv c1 = srv c2 \<Longrightarrow> votes_cast c1 = votes_cast c2 \<Longrightarrow> effect c c1 = effect c c2"
  by (intro ext) (simp add: effect_def casts_def)

lemma effect_idle: "srv c' = srv c \<Longrightarrow> votes_cast c' = votes_cast c \<Longrightarrow> effect c c' 0 (srv c 0)"
  by (simp add: effect_def casts_def)

lemma effect_move:
  "srv c' = (srv c)(s := rf') \<Longrightarrow> votes_cast c' = votes_cast c \<Longrightarrow> evolves (srv c s) rf' \<Longrightarrow>
     effect c c' s rf'"
  by (simp add: effect_def casts_def)

lemma evolves_of:
  assumes "cluster_ok n c"
  shows "append_ok a \<Longrightarrow> HandleAppendEntries (srv c s) a = Inr (rf', r) \<Longrightarrow> evolves (srv c s) rf'"
    and "HandleRequestVote (srv c s) va = Inr (rf', vr) \<Longrightarrow> evolves (srv c s) rf'"
    and "startAsCand_begin (srv c s) = Inr (rf', cp) \<Longrightarrow> evolves (srv c s) rf'"
    and "startAsCand_reply (srv c s) cp vor = Inr (rf', cp') \<Longrightarrow> evolves (srv c s) rf'"
    and "sendHeartBeat_reply (srv c s) v aor = Inr (rf', again) \<Longrightarrow> evolves (srv c s) rf'"
    and "append_ok a \<Longrightarrow> StartOnePeerAppend_success (srv c s) v a = Inr rf' \<Longrightarrow> evolves (srv c s) rf'"
    and "append_ok a \<Longrightarrow> reply_ok a r \<Longrightarrow> \<not> AER_Success r \<Longrightarrow>
      StartOnePeerAppend_resend (srv c s) v a r = Inr (rf', a') \<Longrightarrow> evolves (srv c s) rf'"
    and "Start_append (srv c s) cmd = (rf', i, t) \<Longrightarrow> evolves (srv c s) rf'"
proof -
  have ok: "server_ok (srv c s)" "Test (srv c s)" "durable_ok (srv c s)"
    using cluster_ok_srv [OF assms, of s] by (auto simp: srv_ok_def durable_ok_def)
  show "append_ok a \<Longrightarrow> HandleAppendEntries (srv c s) a = Inr (rf', r) \<Longrightarrow> evolves (srv c s) rf'"
    using HandleAppendEntries_ok [OF ok(1) _ ok(2)] by blast
  show "HandleRequestVote (srv c s) va = Inr (rf', vr) \<Longrightarrow> evolves (srv c s) rf'"
    using HandleRequestVote_ok [OF ok(1,2)] by blast
  show "startAsCand_begin (srv c s) = Inr (rf', cp) \<Longrightarrow> evolves (srv c s) rf'"
    using startAsCand_begin_ok [OF ok(1,2)] by blast
  show "startAsCand_reply (srv c s) cp vor = Inr (rf', cp') \<Longrightarrow> evolves (srv c s) rf'"
    using startAsCand_reply_ok [OF ok(1,3)] by blast
  show "sendHeartBeat_reply (srv c s) v aor = Inr (rf', again) \<Longrightarrow> evolves (srv c s) rf'"
    using sendHeartBeat_reply_ok [OF ok(1,3)] by blast
  show "append_ok a \<Longrightarrow> StartOnePeerAppend_success (srv c s) v a = Inr rf' \<Longrightarrow> evolves (srv c s) rf'"
    using StartOnePeerAppend_success_ok [OF ok(1), of a v] by auto
  show "append_ok a \<Longrightarrow> reply_ok a r \<Longrightarrow> \<not> AER_Success r \<Longrightarrow>
      StartOnePeerAppend_resend (srv c s) v a r = Inr (rf', a') \<Longrightarrow> evolves (srv c s) rf'"
    using StartOnePeerAppend_resend_ok [OF ok(1)] by blast
  show "Start_append (srv c s) cmd = (rf', i, t) \<Longrightarrow> evolves (srv c s) rf'"
    using Start_append_ok [OF ok(1,2)] by blast
qed

lemma vote_at_effect:
  assumes ok: "cluster_ok n c" and a: "vote_args_ok a" and v: "vote_at c v a = Inr (c', r)"
  shows "\<exists>rf'. effect c c' v rf' \<and> Term rf' = RVR_Term r \<and>
    HandleRequestVote (srv c v) a = Inr (rf', r) \<and>
    votes_cast c' = (if RVR_VoteGranted r
      then insert (v, RVR_Term r, nat (RV_PeerId a)) (votes_cast c) else votes_cast c)"
proof -
  from v obtain rf' where h: "HandleRequestVote (srv c v) a = Inr (rf', r)"
    and c': "c' = (set_srv c v rf')\<lparr>votes_cast := (if RVR_VoteGranted r
      then insert (v, RVR_Term r, nat (RV_PeerId a)) (votes_cast c) else votes_cast c)\<rparr>"
    by (auto simp: vote_at_def go_simps)
  have t: "Term rf' = RVR_Term r" and g: "RVR_VoteGranted r \<Longrightarrow> VotedFor rf' = RV_PeerId a \<and>
      (Term (srv c v) < Term rf' \<or> VotedFor (srv c v) = -1)"
    using h by (auto simp: HandleRequestVote_spec [OF log_wf_of [OF ok]] Let_def grantsVote_def
        split: if_splits)
  have "effect c c' v rf'"
    using g a evolves_of(2) [OF ok h]
    by (auto simp: effect_def casts_def c' t vote_args_ok_def)
  with t h c' show ?thesis by (auto simp: c')
qed

lemma append_at_effect:
  assumes "cluster_ok n c" and "append_ok a" and "append_at c v a = Inr (c', r)"
  shows "\<exists>s rf'. effect c c' s rf'"
proof -
  from assms(3) obtain rf' where h: "HandleAppendEntries (srv c v) a = Inr (rf', r)"
    and "c' = set_srv c v rf'"
    by (auto simp: append_at_def go_simps)
  with evolves_of(1) [OF assms(1,2) h] have "effect c c' v rf'" by (simp add: effect_move)
  then show ?thesis by blast
qed

lemma count_vote_effect:
  assumes "cluster_ok n c" and "count_vote c j k v r = Inr c'"
  shows "\<exists>s rf'. effect c c' s rf'"
proof -
  let ?s = "cand_owner (cands c ! k)"
  from assms(2) obtain rf' cp'
    where h: "startAsCand_reply (srv c ?s) (cand_campaign (cands c ! k)) r = Inr (rf', cp')"
      and "srv c' = (srv c)(?s := rf')" and "votes_cast c' = votes_cast c"
    by (auto simp: count_vote_def Let_def go_simps)
  with evolves_of(4) [OF assms(1) h] have "effect c c' ?s rf'" by (simp add: effect_move)
  then show ?thesis by blast
qed

lemma beat_reply_effect:
  assumes "cluster_ok n c" and "beat_reply c j s v r = Inr c'"
  shows "\<exists>s rf'. effect c c' s rf'"
proof -
  from assms(2) obtain rf' again where h: "sendHeartBeat_reply (srv c s) (int v) r = Inr (rf', again)"
    and "srv c' = (srv c)(s := rf')" and "votes_cast c' = votes_cast c"
    by (auto simp: beat_reply_def go_simps)
  with evolves_of(5) [OF assms(1) h] have "effect c c' s rf'" by (simp add: effect_move)
  then show ?thesis by blast
qed

lemma app_reply_effect:
  assumes ok: "cluster_ok n c" and a: "append_ok a" and rep: "\<And>r'. r = Some r' \<Longrightarrow> reply_ok a r'"
    and r: "app_reply c j s v a r w = Inr c'"
  shows "\<exists>s rf'. effect c c' s rf'"
proof -
  have "\<exists>rf'. srv c' = (srv c)(s := rf') \<and> evolves (srv c s) rf' \<and> votes_cast c' = votes_cast c"
  proof (cases r)
    case None
    with r show ?thesis by (auto simp: app_reply_def)
  next
    case (Some r')
    with r evolves_of(6,7) [OF ok a] rep show ?thesis
      by (cases "AER_Success r'") (auto simp: app_reply_def go_simps)
  qed
  then show ?thesis by (blast intro: effect_move)
qed

section \<open>One vote per server and term\<close>

definition vote_inv :: "'c cluster \<Rightarrow> bool" where
  "vote_inv c \<longleftrightarrow>
     (\<forall>v t p. (v, t, p) \<in> votes_cast c \<longrightarrow> t \<le> Term (srv c v) \<and>
        (t = Term (srv c v) \<longrightarrow> VotedFor (srv c v) = int p)) \<and>
     (\<forall>v t p q. (v, t, p) \<in> votes_cast c \<longrightarrow> (v, t, q) \<in> votes_cast c \<longrightarrow> p = q)"

text \<open>What a step may do to terms and votes.\<close>

definition moved :: "'c cluster \<Rightarrow> 'c cluster \<Rightarrow> bool" where
  "moved c c' \<longleftrightarrow> (\<forall>s. Term (srv c s) \<le> Term (srv c' s)) \<and> votes_cast c \<subseteq> votes_cast c' \<and>
     (vote_inv c \<longrightarrow> vote_inv c')"

lemma effect_vote_inv:
  assumes eff: "effect c c' s rf'" and inv: "vote_inv c"
  shows "vote_inv c'"
proof -
  have srv: "srv c' = (srv c)(s := rf')" and ev: "evolves (srv c s) rf'"
    using eff by (auto simp: effect_def)
  have old: "t \<le> Term (srv c' v) \<and> (t = Term (srv c' v) \<longrightarrow> VotedFor (srv c' v) = int p)"
    if "(v, t, p) \<in> votes_cast c" for v t p
  proof (cases "v = s")
    case True
    have "t \<le> Term (srv c s)" and "t = Term (srv c s) \<longrightarrow> VotedFor (srv c s) = int p"
      using that inv True by (auto simp: vote_inv_def)
    with ev True show ?thesis by (auto simp: srv evolves_def)
  next
    case False
    with that inv show ?thesis by (auto simp: srv vote_inv_def)
  qed
  from eff consider "votes_cast c' = votes_cast c"
    | p where "votes_cast c' = insert (s, Term rf', p) (votes_cast c)" "VotedFor rf' = int p"
        "Term (srv c s) < Term rf' \<or> VotedFor (srv c s) = -1"
    by (auto simp: effect_def casts_def)
  then show ?thesis
  proof cases
    case 1
    with old inv show ?thesis by (simp add: vote_inv_def)
  next
    case 2
    have fresh: "q = p" if "(s, Term rf', q) \<in> votes_cast c" for q
    proof -
      from that inv have "Term rf' \<le> Term (srv c s)"
        and "Term rf' = Term (srv c s) \<longrightarrow> VotedFor (srv c s) = int q"
        by (auto simp: vote_inv_def)
      with 2(3) ev show ?thesis by (auto simp: evolves_def)
    qed
    show ?thesis
      unfolding vote_inv_def
    proof (intro conjI allI impI)
      fix v t q assume "(v, t, q) \<in> votes_cast c'"
      then consider "(v, t, q) = (s, Term rf', p)" | "(v, t, q) \<in> votes_cast c" using 2(1) by auto
      then show "t \<le> Term (srv c' v)" and "t = Term (srv c' v) \<Longrightarrow> VotedFor (srv c' v) = int q"
        using old 2(2) by (cases; auto simp: srv)+
    next
      fix v t q q' assume "(v, t, q) \<in> votes_cast c'" and "(v, t, q') \<in> votes_cast c'"
      then show "q = q'" using 2(1) fresh inv by (auto simp: vote_inv_def)
    qed
  qed
qed

lemma effect_moved: "effect c c' s rf' \<Longrightarrow> moved c c'"
  using effect_vote_inv [of c c' s rf']
  by (auto simp: moved_def effect_def evolves_def casts_def)

lemma moved_same:
  assumes "\<And>s. Term (srv c' s) = Term (srv c s) \<and> VotedFor (srv c' s) = VotedFor (srv c s)"
    and "votes_cast c' = votes_cast c"
  shows "moved c c'"
  using assms by (simp add: moved_def vote_inv_def)

text \<open>A step that is not a restart also keeps the messages handed to each service.\<close>

definition advanced :: "'c cluster \<Rightarrow> 'c cluster \<Rightarrow> bool" where
  "advanced c c' \<longleftrightarrow> moved c c' \<and> (\<forall>s. prefix (ApplyChan (srv c s)) (ApplyChan (srv c' s)))"

lemma effect_advanced: "effect c c' s rf' \<Longrightarrow> advanced c c'"
  using effect_moved [of c c' s rf'] by (auto simp: advanced_def effect_def evolves_def)

lemma advanced_same:
  assumes "\<And>s. Term (srv c' s) = Term (srv c s) \<and> VotedFor (srv c' s) = VotedFor (srv c s) \<and>
      ApplyChan (srv c' s) = ApplyChan (srv c s)"
    and "votes_cast c' = votes_cast c"
  shows "advanced c c'"
  using assms moved_same [of c' c] by (simp add: advanced_def)

lemma advanced_idle: "srv c' = srv c \<Longrightarrow> votes_cast c' = votes_cast c \<Longrightarrow> advanced c c'"
  by (rule advanced_same) simp_all

lemma advanced_post:
  "advanced c c1 \<Longrightarrow> srv c2 = srv c1 \<Longrightarrow> votes_cast c2 = votes_cast c1 \<Longrightarrow> advanced c c2"
  by (simp add: advanced_def moved_def vote_inv_def)

lemma moved_idle: "srv c' = srv c \<Longrightarrow> votes_cast c' = votes_cast c \<Longrightarrow> moved c c'"
  by (rule moved_same) simp_all

lemma moved_post:
  "moved c c1 \<Longrightarrow> srv c2 = srv c1 \<Longrightarrow> votes_cast c2 = votes_cast c1 \<Longrightarrow> moved c c2"
  by (simp add: moved_def vote_inv_def)

lemma Crash_moved:
  assumes "cluster_ok n c" and "ev_Crash c s = Inr c'"
  shows "moved c c'"
proof (rule moved_same)
  let ?m = "Make (int n) (int s) (Copy (persister (srv c s)))"
  have "durable_of ?m = gob_load (persister (srv c s))"
    by (simp add: Make_durable)
  moreover have "durable_ok (srv c s)"
    using cluster_ok_srv [OF assms(1), of s] by (simp add: srv_ok_def)
  ultimately have "Term ?m = Term (srv c s)" and "VotedFor ?m = VotedFor (srv c s)"
    by (simp_all add: durable_of_def durable_ok_def prod_eq_iff)
  with assms show "Term (srv c' p) = Term (srv c p) \<and> VotedFor (srv c' p) = VotedFor (srv c p)" for p
    by (auto simp: ev_Crash_def go_simps cluster_ok_def)
qed (use assms in \<open>auto simp: ev_Crash_def go_simps\<close>)

lemma run_thread_advanced:
  assumes ok: "cluster_ok n c" and t: "thread_ok t" and r: "run_thread c j t = Inr c'"
  shows "advanced c c'"
proof (cases t)
  case (VoteReq k v a)
  with r obtain c1 r' where "vote_at c v a = Inr (c1, r')" and "c' = set_thread c1 j (VoteRep k v r')"
    by (auto simp: go_simps)
  with vote_at_effect [OF ok, of a v c1 r'] VoteReq t show ?thesis
    by (auto intro: effect_advanced advanced_post)
next
  case (VoteOrphan v a)
  with r obtain c1 r' where "vote_at c v a = Inr (c1, r')" and "c' = set_thread c1 j Finished"
    by (auto simp: go_simps)
  with vote_at_effect [OF ok, of a v c1 r'] VoteOrphan t show ?thesis
    by (auto intro: effect_advanced advanced_post)
next
  case (BeatReq s v a)
  with r obtain c1 r' where "append_at c v a = Inr (c1, r')" and "c' = set_thread c1 j (BeatRep s v r')"
    by (auto simp: go_simps)
  with append_at_effect [OF ok, of a v c1 r'] BeatReq t show ?thesis
    by (auto intro: effect_advanced advanced_post)
next
  case (AppReq s v a w)
  with r obtain c1 r' where "append_at c v a = Inr (c1, r')"
    and "c' = set_thread c1 j (AppRep s v a r' w)"
    by (auto simp: go_simps)
  with append_at_effect [OF ok, of a v c1 r'] AppReq t show ?thesis
    by (auto intro: effect_advanced advanced_post)
next
  case (AppOrphan v a)
  with r obtain c1 r' where "append_at c v a = Inr (c1, r')" and "c' = set_thread c1 j Finished"
    by (auto simp: go_simps)
  with append_at_effect [OF ok, of a v c1 r'] AppOrphan t show ?thesis
    by (auto intro: effect_advanced advanced_post)
next
  case (VoteRep k v r')
  with r count_vote_effect [OF ok, of j k v "Some r'" c'] show ?thesis by (auto intro: effect_advanced)
next
  case (BeatRep s v r')
  with r beat_reply_effect [OF ok, of j s v "Some r'" c'] show ?thesis by (auto intro: effect_advanced)
next
  case (AppRep s v a r' w)
  with r t app_reply_effect [OF ok, of a "Some r'" j s v w c'] show ?thesis
    by (auto intro: effect_advanced)
next
  case (LeaderInit s)
  have "evolves (srv c s) (startAsLeader_setup (srv c s))"
    using startAsLeader_setup_ok [OF server_ok_of [OF ok]] by blast
  with r LeaderInit have "effect c c' s (startAsLeader_setup (srv c s))"
    by (auto simp: ev_LeaderSetup_def intro: effect_move)
  then show ?thesis by (rule effect_advanced)
next
  case (AppBuild s v w)
  with r show ?thesis by (auto simp: ev_AppBuild_def go_simps intro: advanced_idle)
qed (use r in \<open>auto simp: ev_LeaderTurn_def ev_BeatCheck_def ev_BeatBuild_def ev_AppInit_def
    ev_AppLoop_def ev_AppSend_def intro!: advanced_idle split: if_splits\<close>)

lemma fail_thread_advanced:
  assumes ok: "cluster_ok n c" and t: "thread_ok t" and r: "fail_thread c j t = Inr c'"
  shows "advanced c c'"
proof (cases t)
  case (VoteReq k v a)
  with r obtain c1 where "count_vote c j k v None = Inr c1" and "c' = spawn c1 [VoteOrphan v a]"
    by (auto simp: go_simps)
  with count_vote_effect [OF ok, of j k v None c1] show ?thesis
    by (auto intro: effect_advanced advanced_post)
next
  case (BeatReq s v a)
  with r obtain c1 where "beat_reply c j s v None = Inr c1" and "c' = spawn c1 [AppOrphan v a]"
    by (auto simp: go_simps)
  with beat_reply_effect [OF ok, of j s v None c1] show ?thesis
    by (auto intro: effect_advanced advanced_post)
next
  case (AppReq s v a w)
  with r obtain c1 where "app_reply c j s v a None w = Inr c1" and "c' = spawn c1 [AppOrphan v a]"
    by (auto simp: go_simps)
  with app_reply_effect [OF ok, of a None j s v w c1] AppReq t show ?thesis
    by (auto intro: effect_advanced advanced_post)
next
  case (VoteRep k v r')
  with r count_vote_effect [OF ok, of j k v None c'] show ?thesis by (auto intro: effect_advanced)
next
  case (BeatRep s v r')
  with r beat_reply_effect [OF ok, of j s v None c'] show ?thesis by (auto intro: effect_advanced)
next
  case (AppRep s v a r' w)
  with r t app_reply_effect [OF ok, of a None j s v w c'] show ?thesis
    by (auto intro: effect_advanced)
qed (use r in simp_all)

lemma cstep_advanced:
  assumes ok: "cluster_ok n c" and st: "cstep c e = Inr c'" and live: "\<And>s. e \<noteq> Crash s"
  shows "advanced c c'"
proof (cases e)
  case (Campaign k)
  let ?s = "cand_owner (cands c ! k)"
  from Campaign st obtain rf' cp where b: "startAsCand_begin (srv c ?s) = Inr (rf', cp)"
    and srv: "srv c' = (srv c)(?s := rf')"
    and v: "votes_cast c' = insert (?s, Term rf', ?s) (votes_cast c)"
    by (auto simp: ev_Campaign_def go_simps Let_def)
  have "VotedFor rf' = int ?s" and "Term (srv c ?s) < Term rf'"
    using b cluster_ok_srv [OF ok, of ?s] log_wf_of [OF ok, of ?s]
    by (auto simp: startAsCand_begin_spec Let_def srv_ok_def)
  then have "effect c c' ?s rf'"
    using evolves_of(3) [OF ok b] srv v by (auto simp: effect_def casts_def)
  then show ?thesis by (rule effect_advanced)
next
  case (StartAppend i)
  let ?s = "start_owner (starts c ! i)"
  obtain rf' index trm where a: "Start_append (srv c ?s) (start_command (starts c ! i)) = (rf', index, trm)"
    by (rule prod_cases3)
  with StartAppend st have "srv c' = (srv c)(?s := rf')" and "votes_cast c' = votes_cast c"
    by (auto simp: ev_StartAppend_def go_simps Let_def)
  with evolves_of(8) [OF ok a] show ?thesis by (auto intro: effect_advanced effect_move)
next
  case (Run j)
  with st have "j < length (threads c)" and "run_thread c j (threads c ! j) = Inr c'"
    by (auto simp: go_simps)
  then show ?thesis using run_thread_advanced [OF ok] cluster_ok_thread [OF ok] by blast
next
  case (Fail j)
  with st have "j < length (threads c)" and "fail_thread c j (threads c ! j) = Inr c'"
    by (auto simp: go_simps)
  then show ?thesis using fail_thread_advanced [OF ok] cluster_ok_thread [OF ok] by blast
next
  case (TakeResult k)
  with st show ?thesis
    by (auto simp: ev_TakeResult_def go_simps Let_def intro!: advanced_idle
        split: cand_stage.splits election_result.splits)
next
  case (StartReturn i)
  with st show ?thesis
    by (auto simp: ev_StartReturn_def go_simps Let_def intro!: advanced_idle
        split: start_stage.splits prod.splits)
qed (use st live in \<open>auto simp: go_simps ev_Tick_def ev_DrainHB_def ev_LoopExit_def ev_DrainBecome_def
    ev_Expire_def ev_Decide_def ev_Start_def ev_Kill_def Let_def intro!: advanced_same\<close>)

lemma advanced_moved: "advanced c c' \<Longrightarrow> moved c c'"
  by (simp add: advanced_def)

lemmas run_thread_moved = advanced_moved [OF run_thread_advanced]
lemmas fail_thread_moved = advanced_moved [OF fail_thread_advanced]

lemma cstep_moved: "cluster_ok n c \<Longrightarrow> cstep c e = Inr c' \<Longrightarrow> moved c c'"
  by (cases "\<exists>s. e = Crash s") (auto intro: Crash_moved advanced_moved [OF cstep_advanced])

lemma vote_inv_initial: "vote_inv (initial_cluster n)"
  by (simp add: vote_inv_def initial_cluster_def)

lemma reachable_vote_inv: "reachable n c \<Longrightarrow> vote_inv c"
proof (induction rule: reachable.induct)
  case reach_init
  show ?case by (rule vote_inv_initial)
next
  case (reach_step c e c')
  then show ?case using cstep_moved [OF reachable_ok] by (auto simp: moved_def)
qed

end
