(* ===== verification/Raft_Winners.thy ===== *)
theory Raft_Winners
  imports Raft_Election
begin

text \<open>
  What a campaign knows about the votes it counted, and the uniqueness of the winner of a term.
\<close>

section \<open>The invariant of campaigns and vote requests\<close>

definition active :: "candidacy \<Rightarrow> bool" where
  "active cd \<longleftrightarrow> cand_stage cd \<noteq> Spawned \<and> cand_stage cd \<noteq> Stopped"

definition cand_term :: "candidacy \<Rightarrow> int" where
  "cand_term cd = RV_Term (campaign_args (cand_campaign cd))"

text \<open>
  A campaign has counted one vote per voter. While its server is still in the term of the campaign,
  every counted vote was granted in that term.
\<close>

definition cand_ok :: "'c cluster \<Rightarrow> candidacy \<Rightarrow> bool" where
  "cand_ok c cd \<longleftrightarrow> cand_owner cd < servers c \<and>
     (active cd \<longrightarrow>
        RV_PeerId (campaign_args (cand_campaign cd)) = int (cand_owner cd) \<and>
        cand_term cd \<le> Term (srv c (cand_owner cd)) \<and>
        cand_voters cd \<subseteq> {..<servers c} \<and> cand_owner cd \<in> cand_voters cd \<and>
        votes (cand_campaign cd) = int (card (cand_voters cd)) \<and>
        (Term (srv c (cand_owner cd)) = cand_term cd \<longrightarrow>
           (\<forall>v \<in> cand_voters cd. (v, cand_term cd, cand_owner cd) \<in> votes_cast c)))"

fun vote_key :: "'c thread \<Rightarrow> (nat \<times> nat) option" where
  "vote_key (VoteReq k v a) = Some (k, v)"
| "vote_key (VoteRep k v r) = Some (k, v)"
| "vote_key _ = None"

definition asks :: "'c cluster \<Rightarrow> nat \<Rightarrow> nat \<Rightarrow> bool" where
  "asks c k v \<longleftrightarrow> k < length (cands c) \<and> active (cands c ! k) \<and> v < servers c \<and>
     v \<notin> cand_voters (cands c ! k)"

fun vote_thread_ok :: "'c cluster \<Rightarrow> 'c thread \<Rightarrow> bool" where
  "vote_thread_ok c (VoteReq k v a) = (asks c k v \<and> a = campaign_args (cand_campaign (cands c ! k)))"
| "vote_thread_ok c (VoteRep k v r) =
     (asks c k v \<and> cand_term (cands c ! k) \<le> RVR_Term r \<and>
      (RVR_VoteGranted r \<longrightarrow> (v, RVR_Term r, cand_owner (cands c ! k)) \<in> votes_cast c))"
| "vote_thread_ok c _ = True"

text \<open>No two threads wait for the vote of the same server in the same campaign.\<close>

definition unique_keys :: "'c thread list \<Rightarrow> bool" where
  "unique_keys ts \<longleftrightarrow> (\<forall>i j key. i < length ts \<longrightarrow> j < length ts \<longrightarrow> i \<noteq> j \<longrightarrow>
     vote_key (ts ! i) = Some key \<longrightarrow> vote_key (ts ! j) \<noteq> Some key)"

definition elected_ok :: "'c cluster \<Rightarrow> bool" where
  "elected_ok c \<longleftrightarrow> (\<forall>(s, t) \<in> elected c.
     \<exists>V. voter_majority (servers c) V \<and> (\<forall>v \<in> V. (v, t, s) \<in> votes_cast c))"

definition winner_inv :: "'c cluster \<Rightarrow> bool" where
  "winner_inv c \<longleftrightarrow> (\<forall>cd \<in> set (cands c). cand_ok c cd) \<and>
     (\<forall>t \<in> set (threads c). vote_thread_ok c t) \<and> unique_keys (threads c) \<and> elected_ok c"

lemma unique_keys_update:
  assumes "unique_keys ts"
    and "vote_key t = None \<or> (j < length ts \<longrightarrow> vote_key t = vote_key (ts ! j))"
  shows "unique_keys (ts[j := t])"
proof -
  have "vote_key (ts ! i) = Some key" if "vote_key (ts[j := t] ! i) = Some key" "i < length ts" for i key
    using that assms(2) by (cases "i = j") auto
  then show ?thesis using assms(1) unfolding unique_keys_def length_list_update by blast
qed

lemma unique_keys_append:
  assumes "unique_keys ts" and "unique_keys us"
    and "\<And>t u key. t \<in> set ts \<Longrightarrow> u \<in> set us \<Longrightarrow> vote_key t = Some key \<Longrightarrow> vote_key u \<noteq> Some key"
  shows "unique_keys (ts @ us)"
  unfolding unique_keys_def
proof (intro allI impI)
  fix i j key
  assume ij: "i < length (ts @ us)" "j < length (ts @ us)" "i \<noteq> j"
    and k: "vote_key ((ts @ us) ! i) = Some key"
  have l: "x < length ts \<Longrightarrow> (ts @ us) ! x \<in> set ts" for x by (simp add: nth_append)
  have r: "\<not> x < length ts \<Longrightarrow> x < length (ts @ us) \<Longrightarrow> (ts @ us) ! x \<in> set us" for x
    by (simp add: nth_append)
  consider "i < length ts" "j < length ts" | "i < length ts" "\<not> j < length ts"
    | "\<not> i < length ts" "j < length ts" | "\<not> i < length ts" "\<not> j < length ts" by blast
  then show "vote_key ((ts @ us) ! j) \<noteq> Some key"
  proof cases
    case 1
    then have "(ts @ us) ! i = ts ! i" and "(ts @ us) ! j = ts ! j" by (simp_all add: nth_append)
    with 1 assms(1) ij(3) k show ?thesis unfolding unique_keys_def by metis
  next
    case 2
    with assms(3) [OF l r] ij k show ?thesis by blast
  next
    case 3
    with assms(3) [OF l r, of j i] ij k show ?thesis by blast
  next
    case 4
    then have "i - length ts < length us" "j - length ts < length us" "i - length ts \<noteq> j - length ts"
      using ij by auto
    moreover have "(ts @ us) ! i = us ! (i - length ts)" and "(ts @ us) ! j = us ! (j - length ts)"
      using 4 by (simp_all add: nth_append)
    ultimately show ?thesis using assms(2) k unfolding unique_keys_def by metis
  qed
qed

lemma unique_keys_None: "\<forall>t \<in> set ts. vote_key t = None \<Longrightarrow> unique_keys ts"
  by (simp add: unique_keys_def)

section \<open>Steps that leave campaigns and vote requests alone\<close>

definition quiet :: "'c cluster \<Rightarrow> 'c cluster \<Rightarrow> bool" where
  "quiet c c' \<longleftrightarrow> cands c' = cands c \<and> elected c' = elected c \<and> servers c' = servers c \<and>
     (unique_keys (threads c) \<longrightarrow> unique_keys (threads c')) \<and>
     (\<forall>t \<in> set (threads c'). vote_key t \<noteq> None \<longrightarrow> t \<in> set (threads c))"

named_theorems quiet_intros \<open>updates that leave campaigns and vote requests alone\<close>

lemma quiet_refl [quiet_intros]: "quiet c c"
  by (simp add: quiet_def)

lemma quiet_set_srv [quiet_intros]: "quiet c c1 \<Longrightarrow> quiet c (set_srv c1 s rf)"
  by (simp add: quiet_def set_srv_def)

lemma quiet_set_thread [quiet_intros]:
  "quiet c c1 \<Longrightarrow> vote_key t = None \<Longrightarrow> quiet c (set_thread c1 j t)"
  by (auto simp: quiet_def set_thread_def unique_keys_update dest!: set_list_update_subset)

lemma quiet_spawn [quiet_intros]:
  assumes "quiet c c1" and "\<forall>t \<in> set ts. vote_key t = None"
  shows "quiet c (spawn c1 ts)"
proof -
  have "unique_keys (threads c1) \<Longrightarrow> unique_keys (threads c1 @ ts)"
    by (rule unique_keys_append) (use assms(2) in \<open>auto intro: unique_keys_None\<close>)
  with assms show ?thesis by (auto simp: quiet_def spawn_def)
qed

lemma quiet_set_start [quiet_intros]: "quiet c c1 \<Longrightarrow> quiet c (set_start c1 i st)"
  by (simp add: quiet_def set_start_def)

lemma quiet_finish_append [quiet_intros]: "quiet c c1 \<Longrightarrow> quiet c (finish_append c1 j w)"
  by (simp add: finish_append_def Let_def quiet_intros split: option.split start_stage.split)

lemma quiet_fields [quiet_intros]:
  "quiet c c1 \<Longrightarrow> quiet c (c1\<lparr>phase := ph\<rparr>)" "quiet c c1 \<Longrightarrow> quiet c (c1\<lparr>loop_no := ln\<rparr>)"
  "quiet c c1 \<Longrightarrow> quiet c (c1\<lparr>starts := st\<rparr>)" "quiet c c1 \<Longrightarrow> quiet c (c1\<lparr>votes_cast := vc\<rparr>)"
  by (simp_all add: quiet_def)

lemma cand_ok_moved:
  assumes "cand_ok c cd" and "moved c c'" and "servers c' = servers c"
  shows "cand_ok c' cd"
proof -
  have t: "Term (srv c (cand_owner cd)) \<le> Term (srv c' (cand_owner cd))"
    and v: "votes_cast c \<subseteq> votes_cast c'"
    using assms(2) by (auto simp: moved_def)
  with assms(1,3) show ?thesis
    unfolding cand_ok_def by (auto dest: subsetD)
qed

lemma vote_thread_ok_moved:
  assumes "vote_thread_ok c t" and "votes_cast c \<subseteq> votes_cast c'" and "servers c' = servers c"
    and "cands c' = cands c"
  shows "vote_thread_ok c' t"
  using assms by (cases t) (auto simp: asks_def dest: subsetD)

lemma vote_thread_ok_None: "vote_key t = None \<Longrightarrow> vote_thread_ok c t"
  by (cases t) auto

lemma elected_ok_moved:
  "elected_ok c \<Longrightarrow> moved c c' \<Longrightarrow> servers c' = servers c \<Longrightarrow> elected c' = elected c \<Longrightarrow> elected_ok c'"
  unfolding elected_ok_def moved_def by (simp add: Ball_def split: prod.splits) (meson subsetD)

lemma quiet_winner_inv:
  assumes inv: "winner_inv c" and q: "quiet c c'" and m: "moved c c'"
  shows "winner_inv c'"
  unfolding winner_inv_def
proof (intro conjI ballI)
  fix cd assume "cd \<in> set (cands c')"
  then show "cand_ok c' cd" using inv q m by (auto simp: winner_inv_def quiet_def intro: cand_ok_moved)
next
  fix t assume t: "t \<in> set (threads c')"
  show "vote_thread_ok c' t"
  proof (cases "vote_key t")
    case None
    then show ?thesis by (rule vote_thread_ok_None)
  next
    case (Some kv)
    with t q have "t \<in> set (threads c)" by (auto simp: quiet_def)
    then have "vote_thread_ok c t" using inv by (simp add: winner_inv_def)
    then show ?thesis
      by (rule vote_thread_ok_moved) (use q m in \<open>auto simp: quiet_def moved_def\<close>)
  qed
next
  show "unique_keys (threads c')" using inv q by (simp add: winner_inv_def quiet_def)
next
  show "elected_ok c'"
    using inv q m by (auto simp: winner_inv_def quiet_def intro: elected_ok_moved)
qed

section \<open>Steps on campaigns\<close>

lemma cands_updates [simp]:
  "cands (set_srv c s rf) = cands c" "cands (set_thread c j t) = cands c"
  "cands (spawn c ts) = cands c" "cands (set_cand c k cd) = (cands c)[k := cd]"
  by (simp_all add: set_srv_def set_thread_def spawn_def set_cand_def)

lemma threads_updates [simp]:
  "threads (set_srv c s rf) = threads c" "threads (set_thread c j t) = (threads c)[j := t]"
  "threads (spawn c ts) = threads c @ ts" "threads (set_cand c k cd) = threads c"
  by (simp_all add: set_srv_def set_thread_def spawn_def set_cand_def)

lemma other_updates [simp]:
  "servers (set_srv c s rf) = servers c" "servers (set_thread c j t) = servers c"
  "servers (spawn c ts) = servers c" "servers (set_cand c k cd) = servers c"
  "elected (set_srv c s rf) = elected c" "elected (set_thread c j t) = elected c"
  "elected (spawn c ts) = elected c" "elected (set_cand c k cd) = elected c"
  by (simp_all add: set_srv_def set_thread_def spawn_def set_cand_def)

lemma winner_inv_parts:
  assumes "winner_inv c"
  shows "k < length (cands c) \<Longrightarrow> cand_ok c (cands c ! k)"
    and "t \<in> set (threads c) \<Longrightarrow> vote_thread_ok c t" and "unique_keys (threads c)" and "elected_ok c"
  using assms by (auto simp: winner_inv_def)

definition same_campaign :: "candidacy \<Rightarrow> candidacy \<Rightarrow> bool" where
  "same_campaign cd cd' \<longleftrightarrow> cand_owner cd' = cand_owner cd \<and> active cd' = active cd \<and>
     cand_voters cd' = cand_voters cd \<and> votes (cand_campaign cd') = votes (cand_campaign cd) \<and>
     campaign_args (cand_campaign cd') = campaign_args (cand_campaign cd)"

lemma winner_inv_same_campaign:
  assumes inv: "winner_inv c" and k: "k < length (cands c)" and same: "same_campaign (cands c ! k) cd"
  shows "winner_inv (set_cand c k cd)"
proof -
  let ?c = "set_cand c k cd"
  have srv: "srv ?c = srv c" "votes_cast ?c = votes_cast c" by simp_all
  have ck: "cand_ok ?c x = cand_ok c x" for x by (simp add: cand_ok_def)
  have "cand_ok c cd"
    using winner_inv_parts(1) [OF inv k] same by (simp add: cand_ok_def same_campaign_def cand_term_def)
  then have "\<forall>x \<in> set (cands ?c). cand_ok ?c x"
    using inv by (auto simp: ck winner_inv_def dest!: set_list_update_subset)
  moreover have "vote_thread_ok ?c t" if "vote_thread_ok c t" for t
    using that same by (cases t) (auto simp: asks_def same_campaign_def cand_term_def nth_list_update_if)
  ultimately show ?thesis using inv by (simp add: winner_inv_def elected_ok_def)
qed

lemma winner_inv_frame:
  assumes "winner_inv c" and "cands c' = cands c" and "threads c' = threads c"
    and "elected c' = elected c" and "servers c' = servers c" and "srv c' = srv c"
    and "votes_cast c' = votes_cast c"
  shows "winner_inv c'"
proof -
  have "vote_thread_ok c' = vote_thread_ok c"
    by (rule ext, rule vote_thread_ok.induct) (use assms(2-) in \<open>auto simp: asks_def\<close>)
  with assms show ?thesis by (simp add: winner_inv_def cand_ok_def elected_ok_def)
qed

lemma winner_inv_elected:
  assumes "winner_inv c" and "voter_majority (servers c) V" and "\<forall>v \<in> V. (v, t, s) \<in> votes_cast c"
  shows "winner_inv (c\<lparr>elected := insert (s, t) (elected c)\<rparr>)"
proof -
  let ?c = "c\<lparr>elected := insert (s, t) (elected c)\<rparr>"
  have "vote_thread_ok ?c = vote_thread_ok c"
    by (rule ext, rule vote_thread_ok.induct) (simp_all add: asks_def)
  with assms show ?thesis by (auto simp: winner_inv_def cand_ok_def elected_ok_def)
qed

section \<open>Counting a vote\<close>

lemma startAsCand_reply_votes:
  assumes "startAsCand_reply rf cp reply = Inr (rf', cp')"
  shows "campaign_args cp' = campaign_args cp"
    and "votes cp' = votes cp \<or> votes cp' = votes cp + 1 \<and> rf' = rf \<and>
      (\<exists>r. reply = Some r \<and> RVR_VoteGranted r \<and> State rf = Cand \<and> RVR_Term r \<le> Term rf)"
  using assms by (auto simp: startAsCand_reply_def Let_def go_simps split: option.splits if_splits)

lemma active_simp [simp]:
  "active (cd\<lparr>cand_campaign := cp, cand_voters := V\<rparr>) = active cd"
  "active (cd\<lparr>cand_campaign := cp\<rparr>) = active cd"
  by (simp_all add: active_def)

text \<open>The campaign after the count: one voter more at most, everything else as before.\<close>

definition recounted :: "'c cluster \<Rightarrow> 'c cluster \<Rightarrow> nat \<Rightarrow> nat \<Rightarrow> candidacy \<Rightarrow> bool" where
  "recounted c c' k v cd' \<longleftrightarrow> k < length (cands c) \<and> cands c' = (cands c)[k := cd'] \<and>
     cand_owner cd' = cand_owner (cands c ! k) \<and> active cd' = active (cands c ! k) \<and>
     cand_term cd' = cand_term (cands c ! k) \<and>
     campaign_args (cand_campaign cd') = campaign_args (cand_campaign (cands c ! k)) \<and>
     cand_voters cd' \<subseteq> insert v (cand_voters (cands c ! k)) \<and> servers c' = servers c \<and> moved c c'"

lemma count_vote_recounted:
  assumes ok: "cluster_ok n c" and inv: "winner_inv c" and j: "j < length (threads c)"
    and key: "vote_key (threads c ! j) = Some (k, v)"
    and rep: "\<And>r. reply = Some r \<Longrightarrow> threads c ! j = VoteRep k v r"
    and st: "count_vote c j k v reply = Inr c'"
  obtains rf' cd' where "c' = set_thread (set_cand (set_srv c (cand_owner (cands c ! k)) rf') k cd') j Finished"
    and "recounted c c' k v cd'" and "cand_ok c' cd'"
proof -
  let ?cd = "cands c ! k" and ?s = "cand_owner (cands c ! k)"
  from st obtain rf' cp' where k: "k < length (cands c)"
    and h: "startAsCand_reply (srv c ?s) (cand_campaign ?cd) reply = Inr (rf', cp')"
    and c': "c' = set_thread (set_cand (set_srv c ?s rf') k (?cd\<lparr>cand_campaign := cp',
      cand_voters := (if votes cp' > votes (cand_campaign ?cd)
        then insert v (cand_voters ?cd) else cand_voters ?cd)\<rparr>)) j Finished"
    by (auto simp: count_vote_def Let_def go_simps)
  let ?cd' = "cands c' ! k"
  from count_vote_effect [OF ok st] have m: "moved c c'" by (auto intro: effect_moved)
  have same: "cand_owner ?cd' = ?s" "active ?cd' = active ?cd" "cand_term ?cd' = cand_term ?cd"
    "campaign_args (cand_campaign ?cd') = campaign_args (cand_campaign ?cd)"
    "cand_campaign ?cd' = cp'"
    using startAsCand_reply_votes(1) [OF h] k by (simp_all add: c' cand_term_def)
  have old: "cand_ok c' ?cd" by (rule cand_ok_moved [OF winner_inv_parts(1) [OF inv k] m]) (simp add: c')
  have ask: "asks c k v"
    using winner_inv_parts(2) [OF inv nth_mem [OF j]] key by (cases "threads c ! j") auto
  then have fin: "finite (cand_voters ?cd)"
    using old finite_subset [OF _ finite_lessThan] by (auto simp: cand_ok_def asks_def)
  from startAsCand_reply_votes(2) [OF h] consider "votes cp' = votes (cand_campaign ?cd)"
    | r where "votes cp' = votes (cand_campaign ?cd) + 1" "rf' = srv c ?s" "reply = Some r"
        "RVR_VoteGranted r" "RVR_Term r \<le> Term (srv c ?s)" by auto
  then have new: "cand_ok c' ?cd' \<and> cand_voters ?cd' \<subseteq> insert v (cand_voters ?cd)"
  proof cases
    case 1
    then have "cand_voters ?cd' = cand_voters ?cd" using k by (simp add: c')
    with old 1 same show ?thesis by (auto simp: cand_ok_def)
  next
    case 2
    then have V: "cand_voters ?cd' = insert v (cand_voters ?cd)" using k by (simp add: c')
    have "vote_thread_ok c (VoteRep k v r)"
      using winner_inv_parts(2) [OF inv nth_mem [OF j]] rep [OF 2(3)] by simp
    with 2(4) have "cand_term ?cd \<le> RVR_Term r" and "(v, RVR_Term r, ?s) \<in> votes_cast c" by auto
    with 2 have "Term (srv c' ?s) = cand_term ?cd \<longrightarrow> (v, cand_term ?cd, ?s) \<in> votes_cast c'"
      using m by (auto simp: c')
    with old 2(1) same V ask fin show ?thesis by (auto simp: cand_ok_def asks_def c')
  qed
  show ?thesis
    by (rule that [of rf' ?cd']) (use c' k same new m in \<open>simp_all add: recounted_def\<close>)
qed

lemma recounted_thread:
  assumes r: "recounted c c' k v cd'" and t: "vote_thread_ok c t" and key: "vote_key t \<noteq> Some (k, v)"
  shows "vote_thread_ok c' t"
proof -
  have asks: "asks c' p q" if "asks c p q" "vote_key t = Some (p, q)" for p q
    using that r key by (cases "p = k") (auto simp: asks_def recounted_def)
  have "cand_term (cands c' ! p) = cand_term (cands c ! p) \<and>
      cand_owner (cands c' ! p) = cand_owner (cands c ! p) \<and>
      campaign_args (cand_campaign (cands c' ! p)) = campaign_args (cand_campaign (cands c ! p))" for p
    using r by (cases "p = k") (auto simp: recounted_def)
  with t asks r show ?thesis by (cases t) (auto simp: moved_def recounted_def)
qed

lemma count_vote_winner_inv:
  assumes ok: "cluster_ok n c" and inv: "winner_inv c" and j: "j < length (threads c)"
    and key: "vote_key (threads c ! j) = Some (k, v)"
    and rep: "\<And>r. reply = Some r \<Longrightarrow> threads c ! j = VoteRep k v r"
    and st: "count_vote c j k v reply = Inr c'"
  shows "winner_inv c'"
proof -
  obtain rf' cd' where
    c': "c' = set_thread (set_cand (set_srv c (cand_owner (cands c ! k)) rf') k cd') j Finished"
    and r: "recounted c c' k v cd'" and new: "cand_ok c' cd'"
    by (rule count_vote_recounted [OF ok inv j key rep st])
  have m: "moved c c'" using r by (simp add: recounted_def)
  have "cand_ok c' cd" if "cd \<in> set (cands c')" for cd
  proof (cases "cd = cd'")
    case False
    with that r have "cd \<in> set (cands c)" by (auto simp: recounted_def dest!: set_list_update_subset)
    with inv have "cand_ok c cd" by (simp add: winner_inv_def)
    then show ?thesis using m by (rule cand_ok_moved) (simp add: c')
  qed (simp add: new)
  moreover have "vote_thread_ok c' t" if "t \<in> set (threads c')" for t
  proof -
    from that obtain i where i: "i < length (threads c)" "t = (threads c)[j := Finished] ! i"
      by (auto simp: in_set_conv_nth c')
    show ?thesis
    proof (cases "i = j")
      case False
      with i have t: "t = threads c ! i" by simp
      then have "vote_key t \<noteq> Some (k, v)"
        using winner_inv_parts(3) [OF inv] i(1) j False key unfolding unique_keys_def by metis
      with r show ?thesis by (rule recounted_thread [OF _ winner_inv_parts(2) [OF inv nth_mem [OF i(1), folded t]]])
    qed (use i j in simp)
  qed
  moreover have "unique_keys (threads c')"
    using winner_inv_parts(3) [OF inv] by (simp add: c' unique_keys_update)
  moreover have "elected_ok c'"
    using elected_ok_moved [OF winner_inv_parts(4) [OF inv] m] by (simp add: c')
  ultimately show ?thesis by (simp add: winner_inv_def)
qed

section \<open>Opening a campaign, casting a vote, deciding\<close>

lemma Campaign_winner_inv:
  assumes ok: "cluster_ok n c" and inv: "winner_inv c" and st: "ev_Campaign c k = Inr c'"
  shows "winner_inv c'"
proof -
  let ?cd = "cands c ! k" and ?s = "cand_owner (cands c ! k)"
  from st obtain rf' cp where k: "k < length (cands c)" and sp: "cand_stage ?cd = Spawned"
    and b: "startAsCand_begin (srv c ?s) = Inr (rf', cp)"
    and c': "c' = (spawn (set_cand (set_srv c ?s rf') k
        (?cd\<lparr>cand_stage := Running, cand_campaign := cp, cand_voters := {?s}\<rparr>))
        (map (\<lambda>v. VoteReq k v (campaign_args cp)) (others c ?s)))
        \<lparr>votes_cast := insert (?s, Term rf', ?s) (votes_cast c)\<rparr>"
    by (auto simp: ev_Campaign_def Let_def go_simps)
  let ?cd' = "?cd\<lparr>cand_stage := Running, cand_campaign := cp, cand_voters := {?s}\<rparr>"
  have m: "moved c c'" using cstep_moved [OF ok, of "Campaign k" c'] st by simp
  have s: "?s < servers c" using winner_inv_parts(1) [OF inv k] by (simp add: cand_ok_def)
  have cp: "RV_PeerId (campaign_args cp) = int ?s" "RV_Term (campaign_args cp) = Term rf'" "votes cp = 1"
    using b cluster_ok_srv [OF ok, of ?s] log_wf_of [OF ok, of ?s]
    by (auto simp: startAsCand_begin_spec Let_def srv_ok_def)
  have quiet_k: "vote_key t \<noteq> Some (k, v)" if "t \<in> set (threads c)" for t v
    using winner_inv_parts(2) [OF inv that] sp by (cases t) (auto simp: asks_def active_def)
  show ?thesis
    unfolding winner_inv_def
  proof (intro conjI ballI)
    fix cd assume "cd \<in> set (cands c')"
    then consider "cd = ?cd'" | "cd \<in> set (cands c)"
      by (auto simp: c' dest!: set_list_update_subset)
    then show "cand_ok c' cd"
    proof cases
      case 1
      with cp s show ?thesis by (simp add: cand_ok_def cand_term_def c')
    next
      case 2
      with inv have "cand_ok c cd" by (simp add: winner_inv_def)
      then show ?thesis using m by (rule cand_ok_moved) (simp add: c')
    qed
  next
    fix t assume "t \<in> set (threads c')"
    then consider "t \<in> set (threads c)" | v where "v \<in> set (others c ?s)" "t = VoteReq k v (campaign_args cp)"
      by (auto simp: c')
    then show "vote_thread_ok c' t"
    proof cases
      case 1
      have asks: "asks c' p q \<and> cands c' ! p = cands c ! p" if "asks c p q" "p \<noteq> k" for p q
        using that by (simp add: asks_def c')
      from 1 have "\<forall>v. vote_key t \<noteq> Some (k, v)" using quiet_k by blast
      with winner_inv_parts(2) [OF inv 1] asks m show ?thesis by (cases t) (auto simp: moved_def)
    next
      case 2
      with k show ?thesis by (auto simp: asks_def c' active_def others_def)
    qed
  next
    have "distinct (others c ?s)" by (simp add: others_def)
    then have "unique_keys (map (\<lambda>v. VoteReq k v (campaign_args cp)) (others c ?s) :: 'a thread list)"
      by (auto simp: unique_keys_def distinct_conv_nth)
    then show "unique_keys (threads c')"
      using unique_keys_append [OF winner_inv_parts(3) [OF inv]] quiet_k by (fastforce simp: c')
  next
    show "elected_ok c'"
      using elected_ok_moved [OF winner_inv_parts(4) [OF inv] m] by (simp add: c')
  qed
qed

lemma VoteReq_winner_inv:
  assumes ok: "cluster_ok n c" and inv: "winner_inv c" and j: "j < length (threads c)"
    and t: "threads c ! j = VoteReq k v a" and st: "vote_at c v a = Inr (c1, r)"
  shows "winner_inv (set_thread c1 j (VoteRep k v r))"
proof -
  let ?c = "set_thread c1 j (VoteRep k v r)"
  have va: "vote_args_ok a" using cluster_ok_thread [OF ok j] t by simp
  from vote_at_effect [OF ok va st] obtain rf' where
    h: "HandleRequestVote (srv c v) a = Inr (rf', r)"
    and vc: "votes_cast c1 = (if RVR_VoteGranted r
      then insert (v, RVR_Term r, nat (RV_PeerId a)) (votes_cast c) else votes_cast c)"
    and m1: "moved c c1" by (blast intro: effect_moved)
  from st have frame: "cands c1 = cands c" "threads c1 = threads c" "servers c1 = servers c"
    "elected c1 = elected c" by (auto simp: vote_at_def go_simps)
  have m: "moved c ?c" using m1 by (rule moved_post) simp_all
  have tok: "asks c k v" "a = campaign_args (cand_campaign (cands c ! k))"
    using winner_inv_parts(2) [OF inv nth_mem [OF j]] t by simp_all
  have "RV_Term a \<le> RVR_Term r"
    using h by (auto simp: HandleRequestVote_spec [OF log_wf_of [OF ok]] Let_def split: if_splits)
  moreover have "nat (RV_PeerId a) = cand_owner (cands c ! k)"
    using winner_inv_parts(1) [OF inv, of k] tok by (simp add: asks_def cand_ok_def)
  ultimately have new: "vote_thread_ok ?c (VoteRep k v r)"
    using tok vc by (simp add: asks_def frame cand_term_def)
  show ?thesis
    unfolding winner_inv_def
  proof (intro conjI ballI)
    fix cd assume "cd \<in> set (cands ?c)"
    then have "cand_ok c cd" using inv by (simp add: frame winner_inv_def)
    then show "cand_ok ?c cd" using m by (rule cand_ok_moved) (simp add: frame)
  next
    fix x assume "x \<in> set (threads ?c)"
    then consider "x = VoteRep k v r" | "x \<in> set (threads c)"
      by (auto simp: frame dest!: set_list_update_subset)
    then show "vote_thread_ok ?c x"
    proof cases
      case 2
      with inv have "vote_thread_ok c x" by (simp add: winner_inv_def)
      then show ?thesis by (rule vote_thread_ok_moved) (use m in \<open>auto simp: frame moved_def\<close>)
    qed (use new in simp)
  next
    show "unique_keys (threads ?c)"
      using winner_inv_parts(3) [OF inv] t by (simp add: frame unique_keys_update)
  next
    show "elected_ok ?c"
      using elected_ok_moved [OF winner_inv_parts(4) [OF inv] m] by (simp add: frame)
  qed
qed

lemma Decide_winner_inv:
  assumes ok: "cluster_ok n c" and inv: "winner_inv c" and st: "ev_Decide c k = Inr c'"
  shows "winner_inv c'"
proof -
  let ?cd = "cands c ! k" and ?s = "cand_owner (cands c ! k)"
  let ?r = "startAsCand_decide (srv c ?s) (cand_campaign ?cd)"
  from st have k: "k < length (cands c)" and run: "cand_stage ?cd = Running"
    and c': "c' = (set_cand c k (?cd\<lparr>cand_stage := Returned ?r\<rparr>))
          \<lparr>elected := (if ?r = Win \<and> Term (srv c ?s) = cand_term ?cd
             then insert (?s, Term (srv c ?s)) (elected c) else elected c)\<rparr>"
    by (auto simp: ev_Decide_def Let_def go_simps cand_term_def)
  let ?c1 = "set_cand c k (?cd\<lparr>cand_stage := Returned ?r\<rparr>)"
  have i1: "winner_inv ?c1"
    using inv k by (rule winner_inv_same_campaign) (simp add: same_campaign_def active_def run)
  show ?thesis
  proof (cases "?r = Win \<and> Term (srv c ?s) = cand_term ?cd")
    case False
    with i1 show ?thesis by (auto simp: c' elim!: winner_inv_frame)
  next
    case True
    have cd: "cand_ok c ?cd" "active ?cd"
      using winner_inv_parts(1) [OF inv k] run by (simp_all add: active_def)
    have "votes (cand_campaign ?cd) > int (servers c) div 2"
      using True cluster_ok_srv [OF ok, of ?s] ok
      by (auto simp: startAsCand_decide_def srv_ok_def cluster_ok_def split: if_splits)
    with cd have "voter_majority (servers ?c1) (cand_voters ?cd)"
      by (simp add: cand_ok_def voter_majority_def)
    moreover have "\<forall>v \<in> cand_voters ?cd. (v, Term (srv c ?s), ?s) \<in> votes_cast ?c1"
      using cd True by (simp add: cand_ok_def)
    ultimately show ?thesis using True winner_inv_elected [OF i1] by (simp add: c')
  qed
qed

lemma Crash_winner_inv:
  assumes ok: "cluster_ok n c" and inv: "winner_inv c" and st: "ev_Crash c s = Inr c'"
  shows "winner_inv c'"
proof -
  let ?stop = "\<lambda>cd. if cand_owner cd = s then cd\<lparr>cand_stage := Stopped\<rparr> else cd"
  have m: "moved c c'" by (rule Crash_moved [OF ok st])
  from st have c': "cands c' = map ?stop (cands c)" "threads c' = map (orphan (cands c) s) (threads c)"
    "servers c' = servers c" "elected c' = elected c"
    by (auto simp: ev_Crash_def go_simps)
  have key: "vote_key (orphan cs s t) = Some (k, v) \<Longrightarrow>
      vote_key t = Some (k, v) \<and> cand_owner (cs ! k) \<noteq> s \<and> orphan cs s t = t"
    for cs k v and t :: "'a thread"
    by (cases t) (auto split: if_splits)
  show ?thesis
    unfolding winner_inv_def
  proof (intro conjI ballI)
    fix cd assume "cd \<in> set (cands c')"
    then obtain cd0 where cd0: "cd0 \<in> set (cands c)" "cd = ?stop cd0" by (auto simp: c')
    with inv have "cand_ok c cd0" by (simp add: winner_inv_def)
    then have "cand_ok c' cd0" using m by (rule cand_ok_moved) (simp add: c')
    then show "cand_ok c' cd" by (auto simp: cd0 cand_ok_def active_def)
  next
    fix t assume t: "t \<in> set (threads c')"
    show "vote_thread_ok c' t"
    proof (cases "vote_key t")
      case None
      then show ?thesis by (rule vote_thread_ok_None)
    next
      case (Some kv)
      obtain k v where kv: "vote_key t = Some (k, v)" using Some by (cases kv) auto
      from t obtain t0 where t0: "t0 \<in> set (threads c)" "t = orphan (cands c) s t0" by (auto simp: c')
      have t1: "t = t0" "cand_owner (cands c ! k) \<noteq> s"
        using key [of "cands c" t0 k v] kv by (simp_all add: t0(2))
      with winner_inv_parts(2) [OF inv t0(1)] have tok: "vote_thread_ok c t" by simp
      have "asks c' k v \<and> cands c' ! k = cands c ! k" if "asks c k v"
        using that t1(2) by (simp add: asks_def c')
      with tok kv m show ?thesis by (cases t) (auto simp: moved_def)
    qed
  next
    have "vote_key (threads c ! i) = Some q"
      if "vote_key (threads c' ! i) = Some q" "i < length (threads c)" for i q
      using that key [of "cands c" "threads c ! i"] by (cases q) (simp add: c')
    then show "unique_keys (threads c')"
      using winner_inv_parts(3) [OF inv] unfolding unique_keys_def by (simp add: c') blast
  next
    show "elected_ok c'"
      using elected_ok_moved [OF winner_inv_parts(4) [OF inv] m] by (simp add: c')
  qed
qed

lemma Tick_winner_inv:
  assumes inv: "winner_inv c" and st: "ev_Tick c s = Inr c'"
  shows "winner_inv c'"
proof -
  define cd where "cd = \<lparr>cand_owner = s, cand_loop = loop_no c s, cand_stage = Spawned,
    cand_campaign = no_campaign, cand_voters = {}\<rparr>"
  then have cd: "cand_owner cd = s" "cand_stage cd = Spawned" by simp_all
  from st have s: "s < servers c" and c': "c' = c\<lparr>cands := cands c @ [cd]\<rparr>"
    by (auto simp: ev_Tick_def go_simps cd_def)
  have "vote_thread_ok c' t" if "vote_thread_ok c t" for t
    using that by (cases t) (auto simp: asks_def c' nth_append)
  moreover have "cand_ok c' = cand_ok c" by (rule ext) (simp add: cand_ok_def c')
  moreover have "cand_ok c cd" using s cd by (simp add: cand_ok_def active_def)
  ultimately show ?thesis using inv by (auto simp: winner_inv_def elected_ok_def c')
qed

lemma Expire_winner_inv:
  assumes inv: "winner_inv c" and st: "ev_Expire c k = Inr c'"
  shows "winner_inv c'"
  using assms
  by (auto simp: ev_Expire_def go_simps Let_def same_campaign_def intro!: winner_inv_same_campaign)

lemma TakeResult_winner_inv:
  assumes ok: "cluster_ok n c" and inv: "winner_inv c" and st: "ev_TakeResult c k = Inr c'"
  shows "winner_inv c'"
proof -
  let ?c1 = "set_cand c k ((cands c ! k)\<lparr>cand_stage := Taken\<rparr>)"
  from st obtain r where k: "k < length (cands c)" and r: "cand_stage (cands c ! k) = Returned r"
    and c': "c' = ?c1 \<or> (\<exists>s. c' = spawn (?c1\<lparr>phase := (phase ?c1)(s := Leading)\<rparr>) [LeaderInit s])"
    by (auto simp: ev_TakeResult_def go_simps Let_def split: cand_stage.splits election_result.splits)
  have i1: "winner_inv ?c1"
    using inv k by (rule winner_inv_same_campaign) (simp add: same_campaign_def active_def r)
  from c' have "quiet ?c1 c'" and "moved ?c1 c'"
    by (auto intro!: quiet_intros moved_idle)
  with i1 show ?thesis by (rule quiet_winner_inv)
qed

section \<open>Every step\<close>

lemma append_at_quiet: "append_at c v a = Inr (c1, r) \<Longrightarrow> quiet c c1"
  by (auto simp: append_at_def go_simps intro!: quiet_intros)

lemma beat_reply_quiet: "beat_reply c j s v r = Inr c' \<Longrightarrow> quiet c c'"
  by (auto simp: beat_reply_def go_simps intro!: quiet_intros)

lemma app_reply_quiet: "app_reply c j s v a r w = Inr c' \<Longrightarrow> quiet c c'"
  by (auto simp: app_reply_def go_simps intro!: quiet_intros split: option.splits if_splits)

lemma vote_at_quiet: "vote_at c v a = Inr (c1, r) \<Longrightarrow> quiet c c1"
  by (auto simp: vote_at_def go_simps intro!: quiet_intros)

lemma run_thread_quiet:
  "run_thread c j t = Inr c' \<Longrightarrow> vote_key t = None \<Longrightarrow> quiet c c'"
  by (cases t) (auto simp: go_simps ev_LeaderSetup_def ev_LeaderTurn_def ev_BeatCheck_def
      ev_BeatBuild_def ev_AppInit_def ev_AppBuild_def ev_AppLoop_def ev_AppSend_def
      intro!: quiet_intros dest: append_at_quiet vote_at_quiet beat_reply_quiet app_reply_quiet
      split: if_splits)

lemma fail_thread_quiet:
  "fail_thread c j t = Inr c' \<Longrightarrow> vote_key t = None \<Longrightarrow> quiet c c'"
  by (cases t) (auto simp: go_simps intro!: quiet_intros dest: beat_reply_quiet app_reply_quiet)

lemma run_thread_winner_inv:
  assumes ok: "cluster_ok n c" and inv: "winner_inv c" and j: "j < length (threads c)"
    and st: "run_thread c j (threads c ! j) = Inr c'"
  shows "winner_inv c'"
proof (cases "vote_key (threads c ! j)")
  case None
  show ?thesis
    by (rule quiet_winner_inv [OF inv run_thread_quiet [OF st None]
          run_thread_moved [OF ok cluster_ok_thread [OF ok j] st]])
next
  case (Some key)
  then consider k v a where "threads c ! j = VoteReq k v a" | k v r where "threads c ! j = VoteRep k v r"
    by (cases "threads c ! j") auto
  then show ?thesis
  proof cases
    case 1
    with st VoteReq_winner_inv [OF ok inv j 1] show ?thesis by (auto simp: go_simps)
  next
    case 2
    with st show ?thesis by (intro count_vote_winner_inv [OF ok inv j, of k v "Some r"]) simp_all
  qed
qed

lemma fail_thread_winner_inv:
  assumes ok: "cluster_ok n c" and inv: "winner_inv c" and j: "j < length (threads c)"
    and st: "fail_thread c j (threads c ! j) = Inr c'"
  shows "winner_inv c'"
proof (cases "vote_key (threads c ! j)")
  case None
  show ?thesis
    by (rule quiet_winner_inv [OF inv fail_thread_quiet [OF st None]
          fail_thread_moved [OF ok cluster_ok_thread [OF ok j] st]])
next
  case (Some key)
  then consider k v a where "threads c ! j = VoteReq k v a" | k v r where "threads c ! j = VoteRep k v r"
    by (cases "threads c ! j") auto
  then show ?thesis
  proof cases
    case 1
    with st obtain c1 where "count_vote c j k v None = Inr c1" and c': "c' = spawn c1 [VoteOrphan v a]"
      by (auto simp: go_simps)
    with 1 have "winner_inv c1" by (intro count_vote_winner_inv [OF ok inv j, of k v None]) simp_all
    then show ?thesis
      by (rule quiet_winner_inv) (auto simp: c' intro!: quiet_intros moved_idle)
  next
    case 2
    with st show ?thesis by (intro count_vote_winner_inv [OF ok inv j, of k v None]) simp_all
  qed
qed

text \<open>The steps that are neither of a thread nor of a campaign.\<close>

lemma cstep_quiet:
  assumes "cstep c e = Inr c'" and "\<forall>k s j. e \<noteq> Campaign k \<and> e \<noteq> Decide k \<and> e \<noteq> Expire k \<and>
    e \<noteq> TakeResult k \<and> e \<noteq> Crash s \<and> e \<noteq> Tick s \<and> e \<noteq> Run j \<and> e \<noteq> Fail j"
  shows "quiet c c'"
  using assms
  by (cases e) (auto simp: go_simps Let_def ev_DrainHB_def ev_LoopExit_def ev_DrainBecome_def
      ev_Start_def ev_Kill_def ev_StartAppend_def ev_StartReturn_def intro!: quiet_intros
      split: start_stage.splits prod.splits)

lemma cstep_winner_inv:
  assumes ok: "cluster_ok n c" and inv: "winner_inv c" and st: "cstep c e = Inr c'"
  shows "winner_inv c'"
proof -
  have q: "quiet c c' \<Longrightarrow> winner_inv c'"
    using quiet_winner_inv [OF inv] cstep_moved [OF ok st] by blast
  show ?thesis
  proof (cases e)
    case (Run j)
    with st run_thread_winner_inv [OF ok inv] show ?thesis by (auto simp: go_simps)
  next
    case (Fail j)
    with st fail_thread_winner_inv [OF ok inv] show ?thesis by (auto simp: go_simps)
  qed (use st Campaign_winner_inv [OF ok inv] Decide_winner_inv [OF ok inv] Crash_winner_inv [OF ok inv]
      Tick_winner_inv [OF inv] Expire_winner_inv [OF inv] TakeResult_winner_inv [OF ok inv]
      q [OF cstep_quiet [OF st]] in simp_all)
qed

lemma reachable_winner_inv: "reachable n c \<Longrightarrow> winner_inv c"
proof (induction rule: reachable.induct)
  case reach_init
  show ?case by (simp add: winner_inv_def initial_cluster_def unique_keys_def elected_ok_def)
next
  case (reach_step c e c')
  then show ?case using cstep_winner_inv [OF reachable_ok] by blast
qed

end
