(* ===== verification/Raft_Runs.thy ===== *)
theory Raft_Runs
  imports Raft_Winners
begin

text \<open>
  Concrete schedules of a cluster of three servers, evaluated by the kernel: a plain election, one
  leader that replicates and commits a command, and two schedules in which the implementation
  departs from Raft (two leaders in one term, two commands applied at one index).
\<close>

definition run_satisfies :: "'c event list \<Rightarrow> ('c cluster \<Rightarrow> bool) \<Rightarrow> bool" where
  "run_satisfies es P = (case cluster_run (initial_cluster 3) es of Inr c \<Rightarrow> P c | Inl _ \<Rightarrow> False)"

lemma run_reachable:
  assumes "run_satisfies es P"
  shows "\<exists>c. reachable 3 c \<and> P c"
  using assms reachable_run [OF reach_init, of 3 es]
  by (auto simp: run_satisfies_def split: sum.splits)

section \<open>Evaluation of a schedule\<close>

text \<open>
  The simplifier evaluates a schedule call by value: the congruences keep it from rewriting a
  continuation before its argument is a value.
\<close>

lemma go_bind_weak_cong: "m = m' \<Longrightarrow> go_bind m f = go_bind m' f"
  by simp

lemma go_guard_weak_cong: "b = b' \<Longrightarrow> go_guard b m = go_guard b' m"
  by simp

lemmas step_defs =
  go_guard_def Let_def initial_cluster_def Make_def setRaft_def zero_Raft_def readPersist_def
  gob_parse_def ReadRaftState_def MakePersister_def set_srv_def set_thread_def spawn_def
  set_cand_def set_start_def others_def finish_append_def no_campaign_def ev_Tick_def
  ev_DrainHB_def ev_TakeResult_def ev_LoopExit_def ev_DrainBecome_def ev_Campaign_def
  ev_Decide_def count_vote_def vote_at_def ev_LeaderSetup_def ev_LeaderTurn_def ev_BeatCheck_def
  ev_BeatBuild_def beat_reply_def append_at_def ev_AppInit_def ev_AppBuild_def ev_AppLoop_def
  ev_AppSend_def app_reply_def ev_Start_def ev_StartAppend_def ev_StartReturn_def
  startAsCand_begin_def startAsCand_reply_def startAsCand_decide_def startAsCand_waits_def
  HandleRequestVote_def HandleAppendEntries_def notifyFollwer_def chan_send_def upToDate_def
  setLastTerm_def handleAppendJob_def handleCommitJob_def getLastLogEntryWithoutLock_def
  getLogAtIndexWithoutLock_def termForLog_def indexInLog_def go_min_def zero_Entry_def
  go_index_def go_slice_to_def go_slice_from_def setFollwer_def setLeader_def persist_def
  SaveRaftState_def gob_image_def durable_of_def startAsLeader_setup_def startAsLeader_server_def
  heartBeatArgs_def sendHeartBeat_reply_def Start_append_def Start_waits_def Start_result_def
  lastIndex_def granted_def commitLoop.simps updateCommitForLeader_def collectEntries.simps
  matchOf_def StartOnePeerAppend_setup_def StartOnePeerAppend_continues_def
  StartOnePeerAppend_sends_def StartOnePeerAppend_success_def StartOnePeerAppend_resend_def
  startApply.simps zero_AppendEntriesReply_def go_get_def markDead_def

lemmas step_congs = let_weak_cong go_bind_weak_cong go_guard_weak_cong prod.case_cong_weak

lemmas run_simps = step_defs upt_rec upto.simps

section \<open>An election and a commit\<close>

definition elect_0 :: "'c event list" where
  "elect_0 = [Tick 0, Campaign 0, Run 0, Run 0, Decide 0, TakeResult 0, Run 2]"

lemma elect_0_run:
  "run_satisfies elect_0 (\<lambda>c :: 'c cluster. (0, 1) \<in> elected c \<and> (1, 1, 0) \<in> votes_cast c \<and>
     State (srv c 0) = Leader \<and> Term (srv c 0) = 1)"
  by (simp add: run_satisfies_def elect_0_def run_simps cong: step_congs)

text \<open>The leader turns, finds server 1 alive, and a client hands it the command \<open>x\<close>.\<close>

definition lead_0 :: "'c \<Rightarrow> 'c event list" where
  "lead_0 x = elect_0 @ [Run 2, Run 3, Run 4, DrainHB 1, Run 4, Run 4, ClientStart 0 (Some x),
     StartAppend 0]"

definition commit_one :: "'c \<Rightarrow> 'c event list" where
  "commit_one x = lead_0 x @ [Run 7, Run 7, Run 7, Run 7, DrainHB 1, Run 7, Run 7, StartReturn 0]"

lemma commit_one_run:
  "run_satisfies (commit_one x) (\<lambda>c. CommitIndex (srv c 0) = 1 \<and>
     map ApplyMsg_Command (ApplyChan (srv c 0)) = [Some x] \<and>
     start_stage (starts c ! 0) = Answered 1 1 True \<and> length (Log (srv c 1)) = 1)"
  by (simp add: run_satisfies_def elect_0_def lead_0_def commit_one_def run_simps cong: step_congs)

section \<open>Two leaders in one term\<close>

text \<open>
  Server 0 opens a campaign in term 1 and server 1 grants it. Before the reply is handled, a request
  of term 2 makes server 0 a follower, its timer fires again and it opens another campaign in term 3.
  \<open>startAsCand\<close> checks \<open>rf.State == Cand\<close> and not the term of the campaign, so the old vote is
  counted, the campaign of term 1 returns \<open>Win\<close>, and server 0 leads term 3. Server 2 wins term 3 with
  the vote of server 1.
\<close>

definition two_leaders :: "'c event list" where
  "two_leaders = [Tick 2, Campaign 0, Tick 2, Campaign 1, Tick 0, Campaign 2, Run 4,
     Run 2, DrainHB 0, Tick 0, Campaign 3, Run 4, Decide 2, TakeResult 2, Run 8,
     Tick 2, Campaign 4, DrainHB 1, Run 10, Run 10, Decide 4, TakeResult 4, Run 11]"

lemma two_leaders_run:
  "run_satisfies two_leaders (\<lambda>c :: 'c cluster. State (srv c 0) = Leader \<and> State (srv c 2) = Leader \<and>
     Term (srv c 0) = 3 \<and> Term (srv c 2) = 3)"
  by (simp add: run_satisfies_def two_leaders_def run_simps cong: step_congs)

section \<open>Two commands applied at one index\<close>

text \<open>
  The leader 0 sends \<open>[x]\<close> and then \<open>[x, y]\<close> to server 1; the second request arrives first, is
  acknowledged and commits both commands. The first request then truncates the log of server 1 to
  \<open>[x]\<close> (\<open>HandleAppendEntries\<close> cuts the log after the previous index whatever it holds). Server 1
  wins the next election and commits \<open>z\<close> at index 2, where server 0 has already applied \<open>y\<close>.
\<close>

definition split_apply :: "'c \<Rightarrow> 'c \<Rightarrow> 'c \<Rightarrow> 'c event list" where
  "split_apply x y z = lead_0 x @ [Run 7, Run 7, Run 7, Run 7,
     ClientStart 0 (Some y), StartAppend 1, Run 9, Run 9, Run 9, Run 9, DrainHB 1, Run 9, Run 9,
     DrainHB 1, Run 7,
     Tick 1, Campaign 1, Run 12, Run 12, Decide 1, TakeResult 1, Run 13, Run 13, Run 14,
     Run 16, DrainHB 2, Run 16, Run 16, ClientStart 1 (Some z), StartAppend 2,
     Run 19, Run 19, Run 19, Run 19, DrainHB 2, Run 19, Run 19]"


lemma split_apply_run:
  "run_satisfies (split_apply x y z) (\<lambda>c.
     map ApplyMsg_Command (ApplyChan (srv c 0)) = [Some x, Some y] \<and>
     map ApplyMsg_Command (ApplyChan (srv c 1)) = [Some x, Some z])"
  by (simp add: run_satisfies_def elect_0_def lead_0_def split_apply_def run_simps cong: step_congs)

section \<open>A panic\<close>

text \<open>
  The reply to an append from index 3 asks the leader 0 to resend from index 2. Before the reply is
  handled, server 1 has become leader of term 2 and has cut the log of server 0 to one entry. The
  resend region does not check that the server still leads, and \<open>rf.Log[indexInLog(3):]\<close> is out of
  range. (Two delayed requests shorten the log of server 1 first.)
\<close>

definition before_panic :: "'c \<Rightarrow> 'c event list" where
  "before_panic x = lead_0 x @ [Run 7, Run 7, Run 7, Run 7,
     ClientStart 0 (Some x), StartAppend 1, Run 9, Run 9, Run 9, Run 9,
     ClientStart 0 (Some x), StartAppend 2, Run 11, Run 11, Run 11, Run 11, DrainHB 1, Run 11, Run 11,
     ClientStart 0 (Some x), StartAppend 3, Run 13, Run 13, Run 13, Run 13,
     DrainHB 1, Run 9, DrainHB 1, Run 13, DrainHB 1, Run 7,
     Tick 1, Campaign 1, Run 16, Run 16, Decide 1, TakeResult 1, Run 17, Run 17, Run 18,
     Run 19, Run 19, Run 19, Run 21, Run 21, Run 21, Run 21, Run 21]"

lemma before_panic_run: "run_satisfies (before_panic x) (\<lambda>c. cstep c (Run 13) = Inl Panic)"
  by (simp add: run_satisfies_def elect_0_def lead_0_def before_panic_def run_simps cong: step_congs)

end
