(* ===== verification/Raft_Catchup.thy ===== *)
theory Raft_Catchup
  imports Raft_Server
begin

text \<open>
  The resend loop of \<open>StartOnePeerAppend\<close> against the append handler of one follower, with nothing
  else going on: every refused request lowers the previous index, so the loop ends with a success,
  and the follower then holds the leader's entries after the previous index of the last request.
\<close>

text \<open>The follower's main loop has received the notifications sent so far.\<close>

definition listening :: "'c Raft \<Rightarrow> 'c Raft" where
  "listening rf = rf\<lparr>ReceiveHB := 0, BecomeFollwerFromLeader := 0\<rparr>"

text \<open>The exchange, with fuel for the number of requests; it returns the follower and the request
  that was accepted.\<close>

fun exchange ::
  "nat \<Rightarrow> 'c Raft \<Rightarrow> 'c Raft \<Rightarrow> int \<Rightarrow> 'c AppendEntriesArgs \<Rightarrow>
     ('c Raft \<times> 'c AppendEntriesArgs) go option" where
  "exchange 0 ld fo v args = None"
| "exchange (Suc k) ld fo v args =
     (case HandleAppendEntries (listening fo) args of
        Inl e \<Rightarrow> Some (Inl e)
      | Inr (fo', r) \<Rightarrow>
          if AER_Success r then Some (Inr (fo', args))
          else (case StartOnePeerAppend_resend ld v args r of
                  Inl e \<Rightarrow> Some (Inl e)
                | Inr (ld', args') \<Rightarrow> exchange k ld' fo' v args'))"

text \<open>The request describes the leader's log from its previous index on.\<close>

definition describes :: "'c Raft \<Rightarrow> 'c AppendEntriesArgs \<Rightarrow> bool" where
  "describes ld args \<longleftrightarrow> append_ok args \<and> AE_Job args = Append \<and> AE_Term args = Term ld \<and>
     AE_PrevLogIndex args \<le> int (length (Log ld)) \<and>
     AE_Entries args = drop (nat (AE_PrevLogIndex args)) (Log ld)"

lemma server_ok_listening [simp]: "server_ok (listening rf) = server_ok rf"
  by (rule server_ok_cong) (simp_all add: listening_def)

lemma listening_fields [simp]:
  "Term (listening rf) = Term rf" "Log (listening rf) = Log rf" "canNotify (listening rf)"
  by (simp_all add: listening_def canNotify_def)

lemma HandleAppend_listening:
  assumes ok: "server_ok fo" and args: "append_ok args" "AE_Job args = Append" "Term fo \<le> AE_Term args"
  shows "\<exists>fo' r. HandleAppendEntries (listening fo) args = Inr (fo', r) \<and> server_ok fo' \<and>
    Term fo' = AE_Term args \<and>
    appended_log (Log fo) args = (Log fo', AER_LastIndex r, AER_Success r)"
proof -
  let ?fo2 = "steppedDown (listening fo) (AE_Term args)"
  have ok2: "server_ok ?fo2" using ok by (simp add: server_ok_steppedDown)
  then have wf2: "log_wf ?fo2" by (simp add: server_ok_def)
  obtain l li success where l: "appended_log (Log fo) args = (l, li, success)"
    by (cases "appended_log (Log fo) args")
  have "contig 1 l"
    using contig_appended_log [of "Log fo" args] ok args l by (simp add: server_ok_def log_wf_def)
  then have "server_ok (?fo2\<lparr>Log := l\<rparr>)" using ok2 by (simp add: server_ok_Log)
  then show ?thesis
    using args(2,3) by (simp add: HandleAppendEntries_unfold Let_def handleAppendJob_spec [OF wf2 args(1)] l)
qed

lemma appended_log_cases:
  assumes "appended_log l args = (l', li, success)" and "append_ok args"
  defines "prev \<equiv> AE_PrevLogIndex args"
  shows "success \<Longrightarrow> prev \<le> int (length l) \<and>
      l' = setLastTerm (AE_Term args) (take (nat prev) l @ AE_Entries args)"
    and "\<not> success \<Longrightarrow> (\<exists>k. l' = take k l \<and>
      (if li \<noteq> -1 then li else prev - 1) < prev \<and> (if li \<noteq> -1 then li else prev - 1) \<le> int (length l') \<and>
      length l' \<le> length l \<and> 0 \<le> (if li \<noteq> -1 then li else prev - 1))"
proof -
  assume f: "\<not> success"
  consider "prev > int (length l)" "l' = l" "li = int (length l)"
    | "prev \<le> int (length l)" "0 < prev" "l' = take (nat (prev - 1)) l" "li = -1"
    using assms(1,2) f
    by (auto simp: appended_log_def prev_def append_ok_def entry_at_def zero_Entry_def Let_def
        split: if_splits)
  then show "\<exists>k. l' = take k l \<and>
      (if li \<noteq> -1 then li else prev - 1) < prev \<and> (if li \<noteq> -1 then li else prev - 1) \<le> int (length l') \<and>
      length l' \<le> length l \<and> 0 \<le> (if li \<noteq> -1 then li else prev - 1)"
  proof cases
    case 1
    then show ?thesis by (intro exI [of _ "length l"]) simp
  next
    case 2
    then show ?thesis by (intro exI [of _ "nat (prev - 1)"]) (simp add: min_def)
  qed
qed (use assms in \<open>auto simp: appended_log_def Let_def split: if_splits\<close>)

lemma describes_resend:
  assumes "server_ok ld" and "describes ld args" and "reply_ok args r" and "\<not> AER_Success r"
    and "resendFrom args r \<le> int (length (Log ld))"
  obtains ld' args' where "StartOnePeerAppend_resend ld v args r = Inr (ld', args')"
    and "describes ld args'" and "AE_PrevLogIndex args' = resendFrom args r"
    and "server_ok ld'" and "Log ld' = Log ld" and "Term ld' = Term ld"
proof -
  have args: "append_ok args" "AE_Job args = Append" using assms(2) by (simp_all add: describes_def)
  have p: "0 \<le> resendFrom args r" using args(1) assms(3,4) by (rule resendFrom_nonneg)
  obtain ld' args' where r: "StartOnePeerAppend_resend ld v args r = Inr (ld', args')"
    and f: "AE_PrevLogIndex args' = resendFrom args r" "Log ld' = Log ld" "Term ld' = Term ld"
      "AE_Term args' = Term ld" "AE_Entries args' = drop (nat (resendFrom args r)) (Log ld)"
    using StartOnePeerAppend_resend_spec [OF assms(1) p, of v] assms(5) by (simp add: Let_def)
  from StartOnePeerAppend_resend_ok [OF assms(1) args(1) assms(3,4) r] f args assms(5) show ?thesis
    by (intro that [OF r]) (auto simp: describes_def)
qed

lemma describes_cong: "Log ld' = Log ld \<Longrightarrow> Term ld' = Term ld \<Longrightarrow> describes ld' args = describes ld args"
  by (simp add: describes_def)

lemma exchange_succeeds:
  assumes "server_ok ld" and "server_ok fo" and "Term fo \<le> Term ld" and "describes ld args"
    and "nat (AE_PrevLogIndex args) < k"
  shows "\<exists>fo' args'. exchange k ld fo v args = Some (Inr (fo', args')) \<and> describes ld args' \<and>
    AE_PrevLogIndex args' \<le> AE_PrevLogIndex args \<and>
    AE_PrevLogIndex args' \<le> int (length (Log fo)) \<and>
    Log fo' = setLastTerm (Term ld) (take (nat (AE_PrevLogIndex args')) (Log fo) @
      drop (nat (AE_PrevLogIndex args')) (Log ld))"
  using assms
proof (induction k arbitrary: ld fo args)
  case 0
  then show ?case by simp
next
  case (Suc k)
  have args: "append_ok args" "AE_Job args = Append" "AE_Term args = Term ld"
    using Suc.prems(4) by (simp_all add: describes_def)
  obtain fo' r where h: "HandleAppendEntries (listening fo) args = Inr (fo', r)"
    and fo': "server_ok fo'" "Term fo' = Term ld"
    and l: "appended_log (Log fo) args = (Log fo', AER_LastIndex r, AER_Success r)"
    using HandleAppend_listening [OF Suc.prems(2) args(1,2)] Suc.prems(3) args(3) by auto
  show ?case
  proof (cases "AER_Success r")
    case True
    with h appended_log_cases(1) [OF l args(1)] Suc.prems(4) show ?thesis
      by (auto simp: describes_def)
  next
    case False
    let ?p = "resendFrom args r"
    from appended_log_cases(2) [OF l args(1) False] obtain m where
      m: "Log fo' = take m (Log fo)" and p: "0 \<le> ?p" "?p < AE_PrevLogIndex args"
        "?p \<le> int (length (Log fo'))" "length (Log fo') \<le> length (Log fo)"
      by (auto simp: resendFrom_def)
    have rep: "reply_ok args r"
      using appended_log_reply [OF args(1) l] by (simp add: reply_ok_def)
    have "?p \<le> int (length (Log ld))" using p(2) Suc.prems(4) by (simp add: describes_def)
    from describes_resend [OF Suc.prems(1,4) rep False this] obtain ld' args' where
      s: "StartOnePeerAppend_resend ld v args r = Inr (ld', args')" "describes ld args'"
        "AE_PrevLogIndex args' = ?p" "server_ok ld'" "Log ld' = Log ld" "Term ld' = Term ld"
      by metis
    have "nat (AE_PrevLogIndex args') < k" using s(3) p(1,2) Suc.prems(5) by linarith
    moreover have "describes ld' args'" using s(2) by (simp add: describes_cong [OF s(5,6)])
    ultimately obtain fo2 args2 where e: "exchange k ld' fo' v args' = Some (Inr (fo2, args2))"
      "describes ld' args2" "AE_PrevLogIndex args2 \<le> AE_PrevLogIndex args'"
      "AE_PrevLogIndex args2 \<le> int (length (Log fo'))"
      "Log fo2 = setLastTerm (Term ld') (take (nat (AE_PrevLogIndex args2)) (Log fo') @
        drop (nat (AE_PrevLogIndex args2)) (Log ld'))"
      using Suc.IH [OF s(4) fo'(1), of args'] fo'(2) s(6) by (auto simp del: split_paired_Ex)
    have "nat (AE_PrevLogIndex args2) \<le> m \<or> length (Log fo) \<le> m"
      using e(4) m by (auto simp: min_def split: if_splits)
    then have "take (nat (AE_PrevLogIndex args2)) (Log fo') = take (nat (AE_PrevLogIndex args2)) (Log fo)"
      using m by (auto simp: min_def)
    with h False s e p show ?thesis by (simp add: describes_cong [OF s(5,6)])
  qed
qed

end
