(* ===== verification/Raft_Properties.thy ===== *)
theory Raft_Properties
  imports Raft_Runs Raft_Catchup
begin

text \<open>
  The properties of the Raft layer: elections and votes, panics, the invariants of every reachable
  cluster, the two RPC handlers, replication and commit, and durable state; with two schedules that
  refute what the paper's algorithm would guarantee.
\<close>

section \<open>Elections\<close>

lemma elected_voters:
  assumes "reachable n c" and "(s, t) \<in> elected c"
  obtains V where "voter_majority n V" and "\<forall>v \<in> V. (v, t, s) \<in> votes_cast c"
proof -
  have "elected_ok c" and "servers c = n"
    using reachable_winner_inv [OF assms(1)] reachable_ok [OF assms(1)]
    by (simp_all add: winner_inv_def cluster_ok_def)
  with assms(2) obtain V where "voter_majority n V" and "\<forall>v \<in> V. (v, t, s) \<in> votes_cast c"
    by (auto simp: elected_ok_def)
  then show ?thesis using that by blast
qed

text \<open>C3: Election safety. In every reachable state of the cluster, under any interleaving of locked
  regions, message delays and losses, crashes and restarts: two campaigns of one term that decided
  \<open>Win\<close> while their server was still in that term belong to the same server.\<close>

theorem election_safety:
  assumes "reachable n c" and "(s, t) \<in> elected c" and "(s', t) \<in> elected c"
  shows "s = s'"
proof -
  from assms(1,2) obtain A where A: "voter_majority n A" "\<forall>v \<in> A. (v, t, s) \<in> votes_cast c"
    by (rule elected_voters)
  from assms(1,3) obtain B where B: "voter_majority n B" "\<forall>v \<in> B. (v, t, s') \<in> votes_cast c"
    by (rule elected_voters)
  from A(1) B(1) show ?thesis
    by (rule voters.unique_outcome [where backs = "\<lambda>v p. (v, t, p) \<in> votes_cast c"])
      (use A(2) B(2) reachable_vote_inv [OF assms(1)] in \<open>auto simp: vote_inv_def\<close>)
qed

theorem election_safety_witness:
  "\<exists>c :: nat cluster. reachable 3 c \<and> (0, 1) \<in> elected c \<and> (\<forall>s'. (s', 1) \<in> elected c \<longrightarrow> s' = 0)"
proof -
  obtain c :: "nat cluster" where "reachable 3 c" and "(0, 1) \<in> elected c"
    using run_reachable [OF elect_0_run] by blast
  then show ?thesis using election_safety [of 3 c _ 1 0] by blast
qed

text \<open>C9: A server grants its vote to at most one candidate per term, also across its crashes and
  restarts.\<close>

theorem one_vote_per_term:
  assumes "reachable n c" and "(v, t, p) \<in> votes_cast c" and "(v, t, q) \<in> votes_cast c"
  shows "p = q"
  using reachable_vote_inv [OF assms(1)] assms(2,3) by (auto simp: vote_inv_def)

theorem one_vote_per_term_witness:
  "\<exists>c :: nat cluster. reachable 3 c \<and> (1, 1, 0) \<in> votes_cast c \<and>
     (\<forall>p. (1, 1, p) \<in> votes_cast c \<longrightarrow> p = 0)"
proof -
  obtain c :: "nat cluster" where "reachable 3 c" and "(1, 1, 0) \<in> votes_cast c"
    using run_reachable [OF elect_0_run] by blast
  then show ?thesis using one_vote_per_term [of 3 c 1 1 _ 0] by blast
qed

text \<open>C21: A campaign that decided \<open>Win\<close> while its server was still in its term was granted the vote of
  more than half of the servers in that term.\<close>

theorem winner_has_majority:
  assumes "reachable n c" and "(s, t) \<in> elected c"
  shows "\<exists>V. V \<subseteq> {..<n} \<and> int (card V) > int n div 2 \<and> (\<forall>v \<in> V. (v, t, s) \<in> votes_cast c)"
  by (rule elected_voters [OF assms]) (auto simp: voter_majority_def)

theorem winner_has_majority_witness:
  "\<exists>c :: nat cluster. reachable 3 c \<and>
     (\<exists>V. V \<subseteq> {..<3} \<and> int (card V) > 1 \<and> (\<forall>v \<in> V. (v, 1, 0) \<in> votes_cast c))"
proof -
  obtain c :: "nat cluster" where "reachable 3 c" and "(0, 1) \<in> elected c"
    using run_reachable [OF elect_0_run] by blast
  then show ?thesis using winner_has_majority [of 3 c 0 1] by auto
qed

text \<open>C28: The same is not true of the servers that lead: \<open>startAsCand\<close> counts a late vote of an old term
  and checks only that the server is still (or again) a candidate, so a cluster of three can reach a
  state with two leaders in one term.\<close>

theorem two_leaders_in_one_term:
  "\<exists>c :: nat cluster. reachable 3 c \<and> State (srv c 0) = Leader \<and> State (srv c 2) = Leader \<and>
     Term (srv c 0) = Term (srv c 2)"
  using run_reachable [OF two_leaders_run] by force

section \<open>Panics and invariants\<close>

text \<open>C17: Panic freedom. In a reachable cluster no step panics, except the resend region of
  \<open>StartOnePeerAppend\<close> when the index the follower asked for lies beyond the log its sender has by
  then.\<close>

theorem only_stale_resend_panics:
  assumes "reachable n c" and "cstep c e = Inl Panic"
  shows "\<exists>j s v a r w. e = Run j \<and> j < length (threads c) \<and> threads c ! j = AppRep s v a r w \<and>
    \<not> AER_Success r \<and> int (length (Log (srv c s))) < resendFrom a r"
  using cstep_panic [OF reachable_ok [OF assms(1)] assms(2)] by (auto simp: stale_resend_def)

theorem only_stale_resend_panics_witness:
  "\<exists>c :: nat cluster. reachable 3 c \<and> cstep c (Run 13) = Inl Panic \<and>
     (\<exists>s v a r w. threads c ! 13 = AppRep s v a r w \<and> int (length (Log (srv c s))) < resendFrom a r)"
proof -
  obtain c :: "nat cluster" where c: "reachable 3 c" "cstep c (Run 13) = Inl Panic"
    using run_reachable [OF before_panic_run] by blast
  from only_stale_resend_panics [OF c] c show ?thesis by fastforce
qed

text \<open>C19: In every reachable cluster, every server has a log with the indexes \<open>1, 2, \<dots>\<close>, has handed the
  indexes \<open>1, \<dots>, LastApply\<close> to its service in this order, never has \<open>IsLeader\<close> set as a follower nor
  unset as a leader, and has its term and vote on disk.\<close>

theorem server_invariant:
  assumes "reachable n c"
  shows "(\<forall>i < length (Log (srv c s)). Entry_Index (Log (srv c s) ! i) = int i + 1) \<and>
    map ApplyMsg_CommandIndex (ApplyChan (srv c s)) = [1..LastApply (srv c s)] \<and>
    (State (srv c s) = Leader \<longrightarrow> IsLeader (srv c s)) \<and>
    (State (srv c s) = Follwer \<longrightarrow> \<not> IsLeader (srv c s)) \<and>
    fst (gob_load (persister (srv c s))) = Term (srv c s) \<and>
    fst (snd (gob_load (persister (srv c s)))) = VotedFor (srv c s)"
proof -
  have "srv_ok n s (srv c s)" using cluster_ok_srv [OF reachable_ok [OF assms(1)]] .
  then show ?thesis
    using contig_nth [of 1 "Log (srv c s)"]
    by (simp add: srv_ok_def server_ok_def log_wf_def apply_ok_def role_ok_def durable_ok_def)
qed

theorem server_invariant_witness:
  "\<exists>c :: nat cluster. reachable 3 c \<and> map ApplyMsg_Command (ApplyChan (srv c 0)) = [Some 10] \<and>
     map ApplyMsg_CommandIndex (ApplyChan (srv c 0)) = [1..LastApply (srv c 0)]"
proof -
  obtain c :: "nat cluster" where c: "reachable 3 c"
    and m: "map ApplyMsg_Command (ApplyChan (srv c 0)) = [Some 10]"
    using run_reachable [OF commit_one_run [of 10]] by (elim exE conjE) (rule that)
  from server_invariant [OF c, of 0]
  have "map ApplyMsg_CommandIndex (ApplyChan (srv c 0)) = [1..LastApply (srv c 0)]" by (elim conjE)
  with c m show ?thesis by (intro exI [of _ c] conjI)
qed

text \<open>A step never lowers the term of any server, and unless it is a restart it only adds to the
  messages a service has received.\<close>

theorem terms_and_messages_grow:
  assumes "reachable n c" and "cstep c e = Inr c'"
  shows "Term (srv c s) \<le> Term (srv c' s) \<and>
    (e \<noteq> Crash s \<longrightarrow> prefix (ApplyChan (srv c s)) (ApplyChan (srv c' s)))"
proof (cases "\<exists>p. e = Crash p")
  case True
  then have "e \<noteq> Crash s \<longrightarrow> srv c' s = srv c s"
    using assms(2) by (auto simp: ev_Crash_def go_simps split: if_split_asm)
  with cstep_moved [OF reachable_ok [OF assms(1)] assms(2)] show ?thesis by (auto simp: moved_def)
next
  case False
  with cstep_advanced [OF reachable_ok [OF assms(1)] assms(2)] show ?thesis
    by (auto simp: advanced_def moved_def)
qed

theorem terms_and_messages_grow_witness:
  "\<exists>c :: nat cluster. cstep (initial_cluster 3) (Tick 0) = Inr c \<and>
     Term (srv (initial_cluster 3 :: nat cluster) 0) \<le> Term (srv c 0)"
proof -
  obtain c :: "nat cluster" where c: "cstep (initial_cluster 3) (Tick 0) = Inr c"
    by (simp add: ev_Tick_def go_guard_def initial_cluster_def)
  from terms_and_messages_grow [OF reach_init c, of 0] c show ?thesis by blast
qed

text \<open>C25: A crash followed by a restart from the persister keeps the term and the vote of the server.\<close>

theorem restart_keeps_term_and_vote:
  assumes "reachable n c" and "cstep c (Crash s) = Inr c'"
  shows "Term (srv c' s) = Term (srv c s) \<and> VotedFor (srv c' s) = VotedFor (srv c s) \<and>
    State (srv c' s) = Follwer \<and> log_wf (srv c' s)"
proof -
  have ok: "cluster_ok n c" by (rule reachable_ok [OF assms(1)])
  have c': "srv c' s = Make (int n) (int s) (Copy (persister (srv c s)))"
    using assms(2) ok by (auto simp: ev_Crash_def go_simps cluster_ok_def)
  have "durable_of (srv c' s) = gob_load (persister (srv c s))" by (simp add: c' Make_durable)
  moreover have "durable_ok (srv c s)" using cluster_ok_srv [OF ok, of s] by (simp add: srv_ok_def)
  ultimately show ?thesis
    by (simp add: durable_of_def durable_ok_def prod_eq_iff log_wf_def) (simp add: c')
qed

theorem restart_keeps_term_and_vote_witness:
  "\<exists>(c :: nat cluster) c'. reachable 3 c \<and> Term (srv c 0) = 1 \<and> cstep c (Crash 0) = Inr c' \<and>
     Term (srv c' 0) = 1"
proof -
  obtain c :: "nat cluster" where c: "reachable 3 c" "Term (srv c 0) = 1"
    using run_reachable [OF elect_0_run] by blast
  have "servers c = 3" using reachable_ok [OF c(1)] by (simp add: cluster_ok_def)
  then obtain c' where c': "cstep c (Crash 0) = Inr c'"
    by (simp add: ev_Crash_def go_guard_def)
  from restart_keeps_term_and_vote [OF c(1) c'] c c' show ?thesis by auto
qed

text \<open>C27: State machine safety does not hold: a delayed append request cuts acknowledged and applied
  entries from a follower's log, after which two servers can apply different commands at one index.\<close>

theorem different_commands_applied:
  "\<exists>c. reachable 3 c \<and>
     map ApplyMsg_Command (ApplyChan (srv c 0)) = [Some x, Some y] \<and>
     map ApplyMsg_Command (ApplyChan (srv c 1)) = [Some x, Some z]"
  by (rule run_reachable [OF split_apply_run])

section \<open>The handlers, replication and commit\<close>

text \<open>C24: \<open>HandleRequestVote\<close> grants the vote exactly when the server has no vote in the term it decides
  in and the candidate's log is at least as up to date; it adopts the larger term, keeps its log, and
  has its new term and vote on disk when it replies.\<close>

theorem vote_handler_correct:
  assumes ok: "server_ok rf" and "Test rf" and h: "HandleRequestVote rf args = Inr (rf', reply)"
  shows "(RVR_VoteGranted reply \<longleftrightarrow> (RV_Term args > Term rf \<or> VotedFor rf = -1) \<and>
      (lastLogTerm (Log rf) < RV_LastLogTerm args \<or> lastLogTerm (Log rf) = RV_LastLogTerm args \<and>
        int (length (Log rf)) \<le> RV_LastLogIndex args)) \<and>
    VotedFor rf' = (if RVR_VoteGranted reply then RV_PeerId args
      else if RV_Term args > Term rf then -1 else VotedFor rf) \<and>
    Term rf' = max (Term rf) (RV_Term args) \<and> RVR_Term reply = Term rf' \<and>
    State rf' = (if RV_Term args > Term rf then Follwer else State rf) \<and> Log rf' = Log rf \<and>
    gob_load (persister rf') = (Term rf', VotedFor rf', Log rf')"
proof -
  have wf: "log_wf rf" using ok by (simp add: server_ok_def)
  let ?rf2 = "adoptTerm rf (RV_Term args)"
  have g: "RVR_VoteGranted reply = grantsVote rf args" and r: "RVR_Term reply = Term ?rf2"
    and rf': "rf' = persist (if grantsVote rf args then ?rf2\<lparr>VotedFor := RV_PeerId args\<rparr> else ?rf2)"
    using h by (auto simp: HandleRequestVote_spec [OF wf] Let_def split: if_splits)
  have "State ?rf2 = (if RV_Term args > Term rf then Follwer else State rf)"
    by (simp add: adoptTerm_def)
  with g r \<open>Test rf\<close> show ?thesis
    by (simp add: rf' grantsVote_def upToDate_def persist_gob_load durable_of_def)
qed

definition voter :: "nat Raft" where
  "voter = (Make 3 1 MakePersister)\<lparr>Term := 4, VotedFor := 2\<rparr>"

definition vote_request :: RequestVoteArgs where
  "vote_request = \<lparr>RV_PeerId = 0, RV_Term = 5, RV_LastLogIndex = 0, RV_LastLogTerm = 0\<rparr>"

lemma voter_ok: "server_ok voter \<and> Test voter \<and> Term voter = 4"
  by (simp add: voter_def server_ok_def role_ok_def log_wf_def apply_ok_def match_ok_def Make_def
      setRaft_def readPersist_def gob_parse_def ReadRaftState_def MakePersister_def zero_Raft_def)

theorem vote_handler_correct_witness:
  "\<exists>rf' reply. HandleRequestVote voter vote_request = Inr (rf', reply) \<and> VotedFor rf' = 0 \<and>
     gob_load (persister rf') = (5, 0, [])"
proof -
  have "log_wf voter" using voter_ok by (simp add: server_ok_def)
  moreover have l: "Log voter = []" by code_simp
  moreover have "canNotify voter" by code_simp
  ultimately obtain rf' reply where h: "HandleRequestVote voter vote_request = Inr (rf', reply)"
    by (simp add: HandleRequestVote_spec Let_def)
  from voter_ok vote_handler_correct [OF _ _ h] h l show ?thesis
    by (auto simp: vote_request_def lastLogTerm_def)
qed

text \<open>C23: \<open>HandleAppendEntries\<close> on an append of a term that is not stale: it succeeds exactly when the
  log has the previous index with the previous term, and then the log is the part up to that index
  followed by the entries, with the term of the last entry set; otherwise it cuts a mismatching
  suffix or reports its last index. The result is on disk.\<close>

theorem append_handler_correct:
  assumes ok: "server_ok rf" and "Test rf" and args: "append_ok args" "AE_Job args = Append"
    and fresh: "AE_Term args \<ge> Term rf" and h: "HandleAppendEntries rf args = Inr (rf', reply)"
  defines "prev \<equiv> AE_PrevLogIndex args"
  shows "AER_Success reply = (prev \<le> int (length (Log rf)) \<and>
      (prev = 0 \<or> Entry_Term (Log rf ! nat (prev - 1)) = AE_PrevLogTerm args)) \<and>
    Log rf' = (if AER_Success reply
      then setLastTerm (AE_Term args) (take (nat prev) (Log rf) @ AE_Entries args)
      else if prev \<le> int (length (Log rf)) then take (nat (prev - 1)) (Log rf) else Log rf) \<and>
    AER_LastIndex reply = (if prev \<le> int (length (Log rf)) then -1 else int (length (Log rf))) \<and>
    AER_Term reply = AE_Term args \<and> State rf' = Follwer \<and>
    gob_load (persister rf') = (AE_Term args, VotedFor rf, Log rf')"
proof -
  let ?rf2 = "steppedDown rf (AE_Term args)"
  have wf: "log_wf ?rf2" using server_ok_steppedDown [OF ok] by (simp add: server_ok_def)
  from fresh h args(2) show ?thesis
    unfolding HandleAppendEntries_unfold
    using args(1) \<open>Test rf\<close>
    by (auto simp: Let_def handleAppendJob_spec [OF wf args(1)] appended_log_def append_ok_def
        entry_at_def zero_Entry_def prev_def persist_gob_load durable_of_def split: if_splits)
qed

definition one_entry :: "nat AppendEntriesArgs" where
  "one_entry = \<lparr>AE_Job = Append, AE_Term = 5, AE_LeaderId = 0,
     AE_Entries = [\<lparr>Entry_Index = 1, Entry_Command = Some 7, Entry_Term = 5, Entry_Id = 0\<rparr>],
     AE_PrevLogIndex = 0, AE_PrevLogTerm = 0, AE_LeaderCommit = 0\<rparr>"

theorem append_handler_correct_witness:
  "\<exists>rf' reply. HandleAppendEntries voter one_entry = Inr (rf', reply) \<and> AER_Success reply \<and>
     map Entry_Command (Log rf') = [Some 7]"
proof -
  have a: "append_ok one_entry" "AE_Job one_entry = Append" "AE_Term one_entry \<ge> Term voter"
    using voter_ok by (simp_all add: one_entry_def append_ok_def)
  have l: "Log voter = []" by code_simp
  have "case HandleAppendEntries voter one_entry of Inr _ \<Rightarrow> True | Inl _ \<Rightarrow> False" by code_simp
  then obtain rf' reply where h: "HandleAppendEntries voter one_entry = Inr (rf', reply)"
    by (auto split: sum.splits)
  from append_handler_correct [OF _ _ a h] voter_ok h l show ?thesis
    by (auto simp: one_entry_def setLastTerm_def)
qed

text \<open>C20: Replication makes progress: with a follower that answers and a leader that stays leader, the
  resend loop of \<open>StartOnePeerAppend\<close> is accepted after at most \<open>PrevLogIndex + 1\<close> requests, without a
  panic, and leaves the follower with exactly the leader's entries after the accepted previous index
  (and the last entry re-dated to the leader's term).\<close>

theorem resend_loop_catches_up:
  assumes "server_ok ld" and "server_ok fo" and "Term fo \<le> Term ld"
    and "StartOnePeerAppend_setup ld v = Inr args" and "matchOf ld v \<le> int (length (Log ld))"
  shows "\<exists>fo' args'. exchange (nat (matchOf ld v) + 1) ld fo v args = Some (Inr (fo', args')) \<and>
    AE_PrevLogIndex args' \<le> matchOf ld v \<and> AE_PrevLogIndex args' \<le> int (length (Log fo)) \<and>
    Log fo' = setLastTerm (Term ld) (take (nat (AE_PrevLogIndex args')) (Log fo) @
      drop (nat (AE_PrevLogIndex args')) (Log ld))"
proof -
  have "describes ld args" and "AE_PrevLogIndex args = matchOf ld v"
    using StartOnePeerAppend_setup_ok [OF assms(1), of v] assms(4,5) by (auto simp: describes_def)
  with exchange_succeeds [OF assms(1-3), of args "nat (matchOf ld v) + 1" v] show ?thesis by auto
qed

definition old_leader :: "nat Raft" where
  "old_leader = voter\<lparr>State := Leader, IsLeader := True, Term := 5, MatchIndex := [(2, 1)],
     Log := [\<lparr>Entry_Index = 1, Entry_Command = Some 7, Entry_Term = 5, Entry_Id = 0\<rparr>]\<rparr>"

theorem resend_loop_catches_up_witness:
  "\<exists>fo' args'. exchange 2 old_leader voter 2
     (case StartOnePeerAppend_setup old_leader 2 of Inr a \<Rightarrow> a | Inl _ \<Rightarrow> one_entry) =
       Some (Inr (fo', args')) \<and> length (Log fo') = 1"
proof -
  have ok: "server_ok old_leader"
    using voter_ok by (simp add: old_leader_def server_ok_def role_ok_def log_wf_def apply_ok_def match_ok_def)
  have m: "matchOf old_leader 2 = 1" and t: "Term old_leader = 5" and l: "length (Log old_leader) = 1"
    by (simp_all add: old_leader_def matchOf_def go_get_def)
  have v: "Log voter = []" by code_simp
  obtain args where a: "StartOnePeerAppend_setup old_leader 2 = Inr args"
    using StartOnePeerAppend_setup_ok [OF ok] by blast
  from resend_loop_catches_up [OF ok _ _ a, of voter] voter_ok m t l v a show ?thesis
    by (auto simp: setLastTerm_def eval_nat_numeral)
qed

text \<open>C26: The leader's commit rule: \<open>updateCommitForLeader\<close> moves the commit index exactly when its server is a
  leader and there is an index beyond it in the log that more than half of all servers hold, counting the
  server itself and every other server that it believes to be alive and whose match index has reached
  that index, and then to the largest such index. (A Go map has each key at most once.)\<close>

theorem commit_is_largest_majority:
  assumes "-1 \<le> CommitIndex rf" and "distinct (map fst (MatchIndex rf))"
    and "updateCommitForLeader rf = (rf', updated)"
  shows "(updated \<longleftrightarrow> IsLeader rf \<and> (\<exists>b. CommitIndex rf < b \<and> b \<le> lastIndex rf \<and>
      PeerNumber rf < 2 * (1 + int (card (live_holders rf b))))) \<and>
    (if updated
     then \<exists>b. rf' = rf\<lparr>CommitIndex := b\<rparr> \<and> CommitIndex rf < b \<and> b \<le> lastIndex rf \<and>
       PeerNumber rf < 2 * (1 + int (card (live_holders rf b))) \<and>
       (\<forall>i. b < i \<and> i \<le> lastIndex rf \<longrightarrow> 2 * (1 + int (card (live_holders rf i))) \<le> PeerNumber rf)
     else rf' = rf)"
  using updateCommitForLeader_spec [OF assms(1,3)] by (auto simp: majority_holders [OF assms(2)] not_less)

text \<open>A leader of three servers whose log has reached server 2: it commits when it believes server 2 to be
  alive, and does not when it believes it to be dead.\<close>

theorem commit_is_largest_majority_witness:
  "CommitIndex (fst (updateCommitForLeader (old_leader\<lparr>PeerAlive := [2 \<mapsto> True]\<rparr>))) = 1 \<and>
   CommitIndex (fst (updateCommitForLeader (old_leader\<lparr>PeerAlive := [2 \<mapsto> False]\<rparr>))) = 0"
proof -
  let ?rf = "\<lambda>a. old_leader\<lparr>PeerAlive := [2 \<mapsto> a]\<rparr>"
  have f: "CommitIndex (?rf a) = 0" "lastIndex (?rf a) = 1" "IsLeader (?rf a)" "PeerNumber (?rf a) = 3"
    "distinct (map fst (MatchIndex (?rf a)))" for a
    by (simp_all add: old_leader_def voter_def lastIndex_def getLastLogEntryWithoutLock_def)
  have h: "live_holders (?rf a) b = (if a \<and> b \<le> 1 then {2} else {})" for a b
    by (auto simp: live_holders_def old_leader_def voter_def split: if_splits)
  obtain rf1 u1 where u1: "updateCommitForLeader (?rf True) = (rf1, u1)" by force
  obtain rf2 u2 where u2: "updateCommitForLeader (?rf False) = (rf2, u2)" by force
  from commit_is_largest_majority [OF _ f(5) u1] commit_is_largest_majority [OF _ f(5) u2] show ?thesis
    by (auto simp: f h u1 u2 split: if_splits dest: spec [of _ 1])
qed

end
