(* ===== verification/Raft_Prefix.thy ===== *)
theory Raft_Prefix
  imports Raft_Server
begin

text \<open>
  Every locked region of a server seen through the commands of its log: a follower that is handed segments
  of one sequence of commands keeps its log, the log on its disk and the commands it has applied within
  prefixes of the sequence (whatever the terms of the entries are), and a leader whose log is the sequence
  builds only segments of it.
\<close>

section \<open>Commands\<close>

text \<open>The commands in the log, in the log on disk, and handed to the service; the match indexes.\<close>

definition commands :: "'c Raft \<Rightarrow> 'c option list" where
  "commands rf = map Entry_Command (Log rf)"

definition stored :: "'c Raft \<Rightarrow> 'c option list" where
  "stored rf = map Entry_Command (snd (snd (gob_load (persister rf))))"

definition applied :: "'c Raft \<Rightarrow> 'c option list" where
  "applied rf = map ApplyMsg_Command (ApplyChan rf)"

definition matched :: "'c Raft \<Rightarrow> int set" where
  "matched rf = snd ` set (MatchIndex rf)"

text \<open>A server that follows the sequence of commands \<open>g\<close>, and the server whose log is \<open>g\<close>.\<close>

definition tracks :: "'c option list \<Rightarrow> 'c Raft \<Rightarrow> bool" where
  "tracks g rf \<longleftrightarrow> prefix (commands rf) g \<and> prefix (stored rf) g \<and> prefix (applied rf) g \<and>
     (\<forall>m \<in> matched rf. m \<le> int (length g))"

definition holds_log :: "'c option list \<Rightarrow> 'c Raft \<Rightarrow> bool" where
  "holds_log g rf \<longleftrightarrow> tracks g rf \<and> commands rf = g \<and> stored rf = g"

text \<open>The request carries a segment of \<open>g\<close>.\<close>

definition segment_of :: "'c option list \<Rightarrow> 'c AppendEntriesArgs \<Rightarrow> bool" where
  "segment_of g a \<longleftrightarrow> AE_PrevLogIndex a \<le> int (length g) \<and>
     prefix (map Entry_Command (AE_Entries a)) (drop (nat (AE_PrevLogIndex a)) g)"

lemma length_commands [simp]: "length (commands rf) = length (Log rf)"
  by (simp add: commands_def)

lemma stored_persist: "Test rf \<Longrightarrow> stored (persist rf) = commands rf"
  by (simp add: stored_def commands_def persist_gob_load durable_of_def)

lemma commands_setLastTerm [simp]: "map Entry_Command (setLastTerm t l) = map Entry_Command l"
  by (auto simp: setLastTerm_def nth_list_update intro!: nth_equalityI)

lemma applied_length:
  assumes "server_ok rf"
  shows "int (length (applied rf)) = LastApply rf"
proof -
  have m: "map ApplyMsg_CommandIndex (ApplyChan rf) = [1..LastApply rf]" and "0 \<le> LastApply rf"
    using assms by (simp_all add: server_ok_def apply_ok_def)
  moreover from m have "length (ApplyChan rf) = nat (LastApply rf)"
    by (metis add.commute diff_add_cancel length_map length_upto)
  ultimately show ?thesis by (simp add: applied_def)
qed

lemma prefix_mono_drop: "prefix g g' \<Longrightarrow> prefix (drop k g) (drop k g')"
  by (auto simp: prefix_def)

lemma tracks_grow: "tracks g rf \<Longrightarrow> prefix g g' \<Longrightarrow> tracks g' rf"
  unfolding tracks_def
  by (meson prefix_length_le prefix_order.trans of_nat_mono order.trans)

lemma segment_grow: "segment_of g a \<Longrightarrow> prefix g g' \<Longrightarrow> segment_of g' a"
  unfolding segment_of_def
  by (meson prefix_length_le prefix_mono_drop prefix_order.trans of_nat_mono order.trans)

text \<open>Updates of other fields.\<close>

lemma tracks_cong:
  assumes "Log rf' = Log rf" "persister rf' = persister rf" "ApplyChan rf' = ApplyChan rf"
    "MatchIndex rf' = MatchIndex rf"
  shows "tracks g rf' = tracks g rf" "holds_log g rf' = holds_log g rf"
  using assms by (simp_all add: tracks_def holds_log_def commands_def stored_def applied_def matched_def)

text \<open>Persisting brings the log on disk up to date.\<close>

lemma tracks_persist: "Test rf \<Longrightarrow> tracks g rf \<Longrightarrow> tracks g (persist rf)"
  by (simp add: tracks_def stored_persist) (simp add: commands_def applied_def matched_def)

lemma holds_log_persist: "Test rf \<Longrightarrow> tracks g rf \<Longrightarrow> commands rf = g \<Longrightarrow> holds_log g (persist rf)"
  by (simp add: holds_log_def tracks_persist stored_persist) (simp add: commands_def)

section \<open>The regions of a follower\<close>

text \<open>The messages of \<open>startApply\<close> continue the commands applied before along the log.\<close>

lemma applied_next:
  assumes "xs = take (length xs) g" and "int (length xs) < c" and "c \<le> int (length g)"
  shows "xs @ map (\<lambda>i. g ! nat (i - 1)) [int (length xs) + 1..c] = take (nat c) g"
proof (rule nth_equalityI)
  show "length (xs @ map (\<lambda>i. g ! nat (i - 1)) [int (length xs) + 1..c]) = length (take (nat c) g)"
    using assms(2,3) by simp
  fix i assume "i < length (xs @ map (\<lambda>i. g ! nat (i - 1)) [int (length xs) + 1..c])"
  then have i: "i < nat c" using assms(2) by simp
  show "(xs @ map (\<lambda>i. g ! nat (i - 1)) [int (length xs) + 1..c]) ! i = take (nat c) g ! i"
  proof (cases "i < length xs")
    case True
    with i have "xs ! i = g ! i" by (subst assms(1)) simp
    with True i show ?thesis by (simp add: nth_append)
  next
    case False
    with i have "int (length xs) + 1 + int (i - length xs) \<le> c" by linarith
    from nth_upto [OF this] False i show ?thesis by (simp add: nth_append)
  qed
qed

lemma tracks_startApply:
  assumes ok: "server_ok rf" and c: "c \<le> int (length (Log rf))" and t: "tracks g rf"
    and s: "startApply rf c = Inr rf'"
  shows "tracks g rf' \<and> commands rf' = commands rf \<and> stored rf' = stored rf"
proof (cases "c > LastApply rf \<and> \<not> dead rf")
  case False
  with s c ok show ?thesis
    using t by (auto simp: startApply_spec server_ok_def apply_ok_def)
next
  case True
  have la: "int (length (applied rf)) = LastApply rf" using ok by (rule applied_length)
  have pc: "prefix (commands rf) g" and pa: "prefix (applied rf) g" using t by (simp_all add: tracks_def)
  have le: "c \<le> int (length g)" using c prefix_length_le [OF pc] by simp
  have msg: "ApplyMsg_Command (apply_msg (Log rf) i) = g ! nat (i - 1)"
    if "i \<in> set [LastApply rf + 1..c]" for i
  proof -
    have "nat (i - 1) < length (Log rf)" using that c la by auto
    with pc show ?thesis by (auto simp: prefix_def commands_def apply_msg_def nth_append)
  qed
  have rf': "rf' = rf\<lparr>LastApply := c,
      ApplyChan := ApplyChan rf @ map (apply_msg (Log rf)) [LastApply rf + 1..c]\<rparr>"
    using s c ok True by (simp add: startApply_spec server_ok_def apply_ok_def)
  have "applied rf' = applied rf @ map (\<lambda>i. g ! nat (i - 1)) [LastApply rf + 1..c]"
    using msg by (simp add: rf' applied_def)
  also have "\<dots> = take (nat c) g"
    using applied_next [of "applied rf" g c] pa True la le by (auto simp: prefix_def)
  finally have "prefix (applied rf') g" by (simp add: take_is_prefix)
  with t show ?thesis by (simp add: rf' tracks_def commands_def stored_def matched_def)
qed

lemma startApply_fields:
  "startApply rf c = Inr rf' \<Longrightarrow> State rf' = State rf \<and> Test rf' = Test rf \<and> dead rf' = dead rf"
proof (induction rf c rule: startApply.induct)
  case (1 rf c)
  show ?case
  proof (cases "c > LastApply rf \<and> \<not> dead rf")
    case True
    with "1.prems" obtain e where
      "go_index (Log (rf\<lparr>LastApply := LastApply rf + 1\<rparr>)) (indexInLog (LastApply (rf\<lparr>LastApply := LastApply rf + 1\<rparr>))) = Inr e"
      by (auto simp: startApply.simps [of rf c] Let_def go_simps)
    with "1.IH" [OF True refl refl] True "1.prems" show ?thesis
      by (simp add: startApply.simps [of rf c] Let_def)
  next
    case False
    with "1.prems" show ?thesis by (auto simp: startApply.simps [of rf c])
  qed
qed

text \<open>A log that takes over a segment of \<open>g\<close> is a prefix of \<open>g\<close>, whatever the terms say.\<close>

lemma prefix_append_segment:
  assumes "prefix xs g" and "prefix ys (drop k g)" and "k \<le> length xs"
  shows "prefix (take k xs @ ys) g"
proof -
  have "take k xs = take k g" using assms(1,3) by (auto simp: prefix_def)
  with assms(2) show ?thesis by (metis append_take_drop_id same_prefix_prefix)
qed

lemma appended_log_prefix:
  assumes "prefix (map Entry_Command l) g" and "append_ok a" and "segment_of g a"
    and "appended_log l a = (l', li, success)"
  shows "prefix (map Entry_Command l') g \<and> li \<le> int (length g)"
proof -
  have "prefix (map Entry_Command (take k l)) g" for k
    using assms(1) take_is_prefix [of k l] by (metis map_mono_prefix prefix_order.trans)
  moreover have "prefix (map Entry_Command (take (nat (AE_PrevLogIndex a)) l @ AE_Entries a)) g"
    if "AE_PrevLogIndex a \<le> int (length l)"
    using prefix_append_segment [OF assms(1), of "map Entry_Command (AE_Entries a)" "nat (AE_PrevLogIndex a)"]
      assms(2,3) that by (simp add: segment_of_def append_ok_def take_map)
  moreover have "length l \<le> length g" using prefix_length_le [OF assms(1)] by simp
  ultimately show ?thesis
    using assms(1,4) by (auto simp: appended_log_def Let_def split: if_splits)
qed

lemma tracks_steppedDown: "tracks g (steppedDown rf t) = tracks g rf"
  by (rule tracks_cong) simp_all

lemma tracks_Log:
  "tracks g rf \<Longrightarrow> prefix (map Entry_Command l) g \<Longrightarrow> tracks g (rf\<lparr>Log := l\<rparr>)"
  by (simp add: tracks_def commands_def stored_def applied_def matched_def)

text \<open>The reply to an append asks for an index the leader's log reaches.\<close>

lemma tracks_append:
  assumes ok: "server_ok rf" and "Test rf" and a: "append_ok a" and seg: "segment_of g a"
    and t: "tracks g rf" and h: "HandleAppendEntries rf a = Inr (rf', r)"
  shows "tracks g rf' \<and> AER_LastIndex r \<le> int (length g) \<and>
    (State rf' = Leader \<longrightarrow> State rf = Leader) \<and> dead rf' = dead rf"
proof (cases "AE_Term a < Term rf")
  case True
  with h t \<open>Test rf\<close> show ?thesis
    by (auto simp: HandleAppendEntries_unfold zero_AppendEntriesReply_def tracks_persist)
next
  case False
  let ?rf2 = "steppedDown rf (AE_Term a)"
  let ?r = "zero_AppendEntriesReply\<lparr>AER_Success := True, AER_Term := AE_Term a\<rparr>"
  have ok2: "server_ok ?rf2" using ok by (rule server_ok_steppedDown)
  then have wf2: "log_wf ?rf2" by (simp add: server_ok_def)
  have t2: "tracks g ?rf2" using t by (simp add: tracks_steppedDown)
  from False h obtain rf3 where body: "(case AE_Job a of
        Append \<Rightarrow> handleAppendJob ?rf2 a ?r
      | CommitAndHeartBeat \<Rightarrow> handleCommitJob ?rf2 a ?r
      | HeartBeat \<Rightarrow> Inr (?rf2, ?r)) = Inr (rf3, r)" and rf': "rf' = persist rf3"
    by (auto simp: HandleAppendEntries_unfold Let_def go_simps split: if_splits)
  have "tracks g rf3 \<and> AER_LastIndex r \<le> int (length g) \<and> State rf3 = Follwer \<and> Test rf3 = Test rf \<and>
    dead rf3 = dead rf"
  proof (cases "AE_Job a")
    case Append
    obtain l li success where l: "appended_log (Log ?rf2) a = (l, li, success)"
      by (cases "appended_log (Log ?rf2) a")
    have "prefix (map Entry_Command (Log ?rf2)) g" using t by (simp add: tracks_def commands_def)
    from appended_log_prefix [OF this a seg l] Append body t2 show ?thesis
      by (auto simp: handleAppendJob_spec [OF wf2 a] tracks_Log simp del: steppedDown_fields(1)
          simp: l)
  next
    case CommitAndHeartBeat
    let ?c = "min (AE_LeaderCommit a) (int (length (Log rf)))"
    let ?rf3 = "?rf2\<lparr>CommitIndex := ?c\<rparr>"
    have s: "startApply ?rf3 ?c = Inr rf3" and r: "r = ?r"
      using CommitAndHeartBeat body
      by (auto simp: handleCommitJob_def go_min_min last_index_wf [OF wf2] Let_def go_simps)
    have ok3: "server_ok ?rf3" using ok2 by (simp add: server_ok_CommitIndex)
    have t3: "tracks g ?rf3" using t2 by (subst tracks_cong) simp_all
    from tracks_startApply [OF ok3 _ t3 s] startApply_fields [OF s] show ?thesis
      by (simp add: r zero_AppendEntriesReply_def)
  next
    case HeartBeat
    with body t2 show ?thesis by (auto simp: zero_AppendEntriesReply_def)
  qed
  with \<open>Test rf\<close> show ?thesis by (simp add: rf' tracks_persist)
qed

section \<open>The regions of the leader\<close>

lemma commands_persist [simp]: "commands (persist rf) = commands rf"
  by (simp add: commands_def)

text \<open>\<open>keeps_log\<close>: the commands stay, what is on disk, applied and matched stays within bounds, and a
  killed server stays killed.\<close>

definition keeps_log :: "'c Raft \<Rightarrow> 'c Raft \<Rightarrow> bool" where
  "keeps_log rf rf' \<longleftrightarrow> commands rf' = commands rf \<and> stored rf' \<in> {stored rf, commands rf} \<and>
     applied rf' = applied rf \<and> matched rf' \<subseteq> insert 0 (matched rf) \<and> (dead rf \<longrightarrow> dead rf')"

lemma keeps_log_tracks: "keeps_log rf rf' \<Longrightarrow> tracks g rf \<Longrightarrow> tracks g rf'"
  by (auto simp: keeps_log_def tracks_def)

lemma keeps_log_holds: "keeps_log rf rf' \<Longrightarrow> holds_log g rf \<Longrightarrow> holds_log g rf'"
  using keeps_log_tracks [of rf rf' g] by (auto simp: keeps_log_def holds_log_def)

lemma keeps_log_dead: "keeps_log rf rf' \<Longrightarrow> dead rf \<Longrightarrow> dead rf'"
  by (simp add: keeps_log_def)

lemma keeps_log_trans: "keeps_log a b \<Longrightarrow> keeps_log b c \<Longrightarrow> keeps_log a c"
  by (auto simp: keeps_log_def)

named_theorems keeps_log_intros \<open>updates that keep the commands of a server\<close>

lemma keeps_log_cong [keeps_log_intros]:
  "Log rf' = Log rf \<Longrightarrow> persister rf' = persister rf \<Longrightarrow> ApplyChan rf' = ApplyChan rf \<Longrightarrow>
     MatchIndex rf' = MatchIndex rf \<Longrightarrow> dead rf \<longrightarrow> dead rf' \<Longrightarrow> keeps_log rf rf'"
  by (auto simp: keeps_log_def commands_def stored_def applied_def matched_def)

lemma keeps_log_persist:
  "Test rf' \<Longrightarrow> keeps_log rf rf' \<Longrightarrow> keeps_log rf (persist rf')"
  by (simp add: keeps_log_def stored_persist applied_def matched_def)

lemma keeps_log_vote:
  assumes "log_wf rf" and "Test rf" and "HandleRequestVote rf a = Inr (rf', r)"
  shows "keeps_log rf rf' \<and> (State rf' = Leader \<longrightarrow> State rf = Leader)"
proof -
  let ?rf2 = "adoptTerm rf (RV_Term a)"
  have "keeps_log rf (?rf2\<lparr>VotedFor := v\<rparr>)" "keeps_log rf ?rf2" for v
    by (rule keeps_log_cong; simp add: adoptTerm_def)+
  moreover have "State ?rf2 = Leader \<longrightarrow> State rf = Leader" by (simp add: adoptTerm_def)
  ultimately show ?thesis
    using assms(2,3) by (auto simp: HandleRequestVote_spec [OF assms(1)] Let_def intro!: keeps_log_persist
        split: if_splits)
qed

lemma keeps_log_begin:
  assumes "log_wf rf" and "Test rf" and "startAsCand_begin rf = Inr (rf', cp)"
  shows "keeps_log rf rf'"
  using assms by (auto simp: startAsCand_begin_spec Let_def intro!: keeps_log_persist keeps_log_cong)

lemma keeps_log_count:
  assumes "Test rf" and "startAsCand_reply rf cp r = Inr (rf', cp')"
  shows "keeps_log rf rf' \<and> (State rf' = Leader \<longrightarrow> State rf = Leader)"
  using assms
  by (auto simp: startAsCand_reply_def Let_def go_simps setFollwer_def split: option.splits if_splits
      intro!: keeps_log_persist keeps_log_cong)

lemma keeps_log_beat:
  assumes "Test rf" and "sendHeartBeat_reply rf v r = Inr (rf', again)"
  shows "keeps_log rf rf'"
  using assms
  by (auto simp: sendHeartBeat_reply_def go_simps setFollwer_def markDead_def
      split: option.splits if_splits intro!: keeps_log_persist keeps_log_cong)

lemma keeps_log_markDead: "keeps_log rf (markDead rf v)"
  by (rule keeps_log_cong) (simp_all add: markDead_def)

lemma keeps_log_resend:
  "StartOnePeerAppend_resend rf v a r = Inr (rf', a') \<Longrightarrow> keeps_log rf rf'"
  by (auto simp: StartOnePeerAppend_resend_def Let_def go_simps intro!: keeps_log_cong)

lemma keeps_log_setup: "keeps_log rf (startAsLeader_setup rf)"
proof -
  have one: "keeps_log rf (startAsLeader_server s rf)" for s and rf :: "'a Raft"
    by (auto simp: startAsLeader_server_def Let_def keeps_log_def commands_def stored_def applied_def
        matched_def dest: set_AList_update)
  have "keeps_log rf (fold startAsLeader_server ss rf)" for ss
  proof (induction ss arbitrary: rf)
    case Nil
    then show ?case by (simp add: keeps_log_cong)
  next
    case (Cons s ss)
    from keeps_log_trans [OF one Cons.IH] show ?case by simp
  qed
  moreover have "keeps_log rf (setLeader rf)" for rf :: "'a Raft"
    by (rule keeps_log_cong) (simp_all add: setLeader_def)
  ultimately show ?thesis unfolding startAsLeader_setup_def by (blast intro: keeps_log_trans)
qed

text \<open>The requests a leader builds are segments of its log.\<close>

lemma matchOf_bound: "holds_log g rf \<Longrightarrow> matchOf rf v \<le> int (length g)"
  by (auto simp: matchOf_def go_get_def holds_log_def tracks_def matched_def split: option.splits
      dest!: map_of_SomeD)

lemma segment_heartBeat [simp]: "segment_of g (heartBeatArgs rf v)"
  by (simp add: segment_of_def heartBeatArgs_def)

lemma segment_setup:
  assumes "server_ok rf" and "holds_log g rf" and "StartOnePeerAppend_setup rf v = Inr a"
  shows "segment_of g a"
  using StartOnePeerAppend_setup_ok [OF assms(1), of v] assms(2,3) matchOf_bound [OF assms(2), of v]
  by (auto simp: segment_of_def holds_log_def commands_def drop_map)

lemma segment_resend:
  assumes "server_ok rf" and "holds_log g rf" and "0 \<le> resendFrom a r"
    and "StartOnePeerAppend_resend rf v a r = Inr (rf', a')"
  shows "segment_of g a'"
  using assms(2,4)
  by (auto simp: StartOnePeerAppend_resend_spec [OF assms(1,3)] Let_def segment_of_def holds_log_def
      commands_def drop_map split: if_splits)

lemma holds_log_success:
  assumes ok: "server_ok rf" and a: "append_ok a" and seg: "segment_of g a" and h: "holds_log g rf"
    and s: "StartOnePeerAppend_success rf v a = Inr rf'"
  shows "holds_log g rf'"
proof -
  let ?a = "acknowledged rf v a"
  obtain rf2 u where u: "updateCommitForLeader ?a = (rf2, u)" by force
  have oka: "server_ok ?a" using ok a by (rule server_ok_acknowledged)
  then have "lastIndex ?a = int (length (Log ?a))"
    by (simp add: lastIndex_def last_index_wf server_ok_def)
  then obtain b where rf2: "rf2 = ?a\<lparr>CommitIndex := b\<rparr>" and b: "u \<longrightarrow> b \<le> int (length (Log rf2))"
    using updateCommitForLeader_bound [OF u] by auto
  have "length (AE_Entries a) \<le> length g - nat (AE_PrevLogIndex a)"
    using seg prefix_length_le [of "map Entry_Command (AE_Entries a)" "drop (nat (AE_PrevLogIndex a)) g"]
    by (simp add: segment_of_def)
  moreover have "0 \<le> AE_PrevLogIndex a" "AE_PrevLogIndex a \<le> int (length g)"
    using seg a by (simp_all add: segment_of_def append_ok_def)
  ultimately have "int (length (AE_Entries a)) + AE_PrevLogIndex a \<le> int (length g)" by linarith
  with h have h2: "holds_log g rf2"
    by (auto simp: rf2 acknowledged_def Let_def holds_log_def tracks_def commands_def stored_def
        applied_def matched_def dest: set_AList_update)
  have ok2: "server_ok rf2" using oka by (simp add: rf2)
  show ?thesis
  proof (cases "u \<and> IsLeader rf2")
    case True
    with s have "startApply rf2 (CommitIndex rf2) = Inr rf'" by (simp add: StartOnePeerAppend_success_eq u)
    moreover have "CommitIndex rf2 \<le> int (length (Log rf2))" using b True by (simp add: rf2)
    moreover have "tracks g rf2" using h2 by (simp add: holds_log_def)
    ultimately show ?thesis using tracks_startApply [OF ok2] h2 by (simp add: holds_log_def)
  next
    case False
    with s h2 show ?thesis by (auto simp: StartOnePeerAppend_success_eq u)
  qed
qed

lemma holds_log_Start:
  assumes "server_ok rf" and "Test rf" and "holds_log g rf" and "Start_append rf cmd = (rf', i, t)"
  shows "holds_log (g @ [cmd]) rf'"
proof -
  let ?rf = "rf\<lparr>Log := Log rf'\<rparr>"
  have rf': "rf' = persist ?rf" and c: "commands ?rf = g @ [cmd]"
    using assms Start_append_ok [OF assms(1,2,4)]
    by (auto simp: Start_append_def Let_def holds_log_def commands_def)
  have "prefix g (g @ [cmd])" by simp
  with assms(3) tracks_grow [of g rf "g @ [cmd]"] have "tracks (g @ [cmd]) rf" by (simp add: holds_log_def)
  then have "tracks (g @ [cmd]) ?rf"
    by (rule tracks_Log) (use c in \<open>simp add: commands_def\<close>)
  from holds_log_persist [OF _ this c] assms(2) show ?thesis by (subst rf') simp
qed

lemma commands_Make: "commands (Make n me (Copy ps)) = map Entry_Command (snd (snd (gob_load ps)))"
proof -
  have "Log (Make n me (Copy ps)) = snd (snd (gob_load (Copy ps)))"
    using Make_durable [of n me "Copy ps"] by (simp add: durable_of_def prod_eq_iff)
  then show ?thesis by (simp add: commands_def)
qed

lemma crash_tracks: "tracks g rf \<Longrightarrow> tracks g (Make n me (Copy (persister rf)))"
  using commands_Make [of n me "persister rf"] by (simp add: tracks_def stored_def applied_def matched_def)

lemma crash_holds: "holds_log g rf \<Longrightarrow> holds_log g (Make n me (Copy (persister rf)))"
  using commands_Make [of n me "persister rf"] crash_tracks [of g rf n me]
  by (simp add: holds_log_def stored_def)

end
