(* ===== verification/Raft_Progress.thy ===== *)
theory Raft_Progress
  imports Raft_Runs Raft_Catchup Raft_Prefix
begin

text \<open>
  Progress of a cluster: from every reachable state in which a server leads and a majority of servers,
  itself included, is up, the schedule in which these servers take their turns commits a new command.
  Every step of the schedule is a step of the goroutines of \<open>Start\<close> and \<open>StartOnePeerAppend\<close>, of the
  append handlers, and of the followers' main loops.
\<close>

section \<open>Runs\<close>

text \<open>
  The events of a schedule in which nothing goes wrong: threads, calls of \<open>Start\<close> and followers take their
  turns. No timer fires, no RPC fails, no server is killed or crashes, no client calls.
\<close>

fun calm :: "'c event \<Rightarrow> bool" where
  "calm (Run j) = True"
| "calm (DrainHB s) = True"
| "calm (StartAppend i) = True"
| "calm (StartReturn i) = True"
| "calm _ = False"

definition runs_to :: "'c cluster \<Rightarrow> 'c cluster \<Rightarrow> bool" where
  "runs_to c c' \<longleftrightarrow> (\<exists>es. list_all calm es \<and> cluster_run c es = Inr c')"

lemma runs_to_refl [simp]: "runs_to c c"
  unfolding runs_to_def by (intro exI [of _ "[]"]) simp

lemma runs_to_run: "cluster_run c es = Inr c' \<Longrightarrow> list_all calm es \<Longrightarrow> runs_to c c'"
  by (auto simp: runs_to_def)

lemma runs_to_trans [trans]:
  assumes "runs_to c c1" and "runs_to c1 c2"
  shows "runs_to c c2"
proof -
  from assms obtain es fs where "list_all calm (es @ fs)" "cluster_run c es = Inr c1" "cluster_run c1 fs = Inr c2"
    by (auto simp: runs_to_def)
  then show ?thesis by (intro runs_to_run [of c "es @ fs"]) (simp_all add: cluster_run_append)
qed

lemma reachable_runs_to: "reachable n c \<Longrightarrow> runs_to c c' \<Longrightarrow> reachable n c'"
  by (auto simp: runs_to_def intro: reachable_run)

text \<open>The cluster when server \<open>v\<close> is in state \<open>fo\<close> and thread \<open>j\<close> is at \<open>t\<close>.\<close>

definition at_peer :: "'c cluster \<Rightarrow> nat \<Rightarrow> 'c Raft \<Rightarrow> nat \<Rightarrow> 'c thread \<Rightarrow> 'c cluster" where
  "at_peer c v fo j t = set_thread (set_srv c v fo) j t"

lemma at_peer_fields [simp]:
  "servers (at_peer c v fo j t) = servers c" "phase (at_peer c v fo j t) = phase c"
  "starts (at_peer c v fo j t) = starts c" "threads (at_peer c v fo j t) = (threads c)[j := t]"
  "srv (at_peer c v fo j t) = (srv c)(v := fo)"
  by (simp_all add: at_peer_def set_thread_def set_srv_def)

lemma at_peer_again [simp]:
  "set_srv (at_peer c v fo j t) v fo' = at_peer c v fo' j t"
  "set_thread (at_peer c v fo j t) j t' = at_peer c v fo j t'"
  by (simp_all add: at_peer_def set_thread_def set_srv_def)

lemma at_peer_self: "threads c ! j = t \<Longrightarrow> at_peer c v (srv c v) j t = c"
  by (auto simp: at_peer_def set_thread_def set_srv_def)

section \<open>One follower\<close>

text \<open>A follower that is up: its main loop takes notifications, and its term is not ahead of the leader's.\<close>

definition follower_up :: "int \<Rightarrow> 'c Raft \<Rightarrow> bool" where
  "follower_up t fo \<longleftrightarrow> \<not> dead fo \<and> \<not> IsLeader fo \<and> Term fo \<le> t"

lemma follower_up_persist [simp]: "follower_up t (persist rf) = follower_up t rf"
  by (simp add: follower_up_def persist_def)

text \<open>The main loop of the follower drains the notification channel.\<close>

lemma drain_run:
  assumes "v < servers c" and "phase c v = Electing" and "\<not> dead fo"
  shows "runs_to (at_peer c v fo j t) (at_peer c v (fo\<lparr>ReceiveHB := 0\<rparr>) j t)"
  using assms(3)
proof (induction "ReceiveHB fo" arbitrary: fo)
  case 0
  then have "fo\<lparr>ReceiveHB := 0\<rparr> = fo" by simp
  then show ?case by simp
next
  case (Suc k)
  let ?fo = "fo\<lparr>ReceiveHB := k\<rparr>"
  have "ReceiveHB fo = Suc k" using Suc.hyps(2) by simp
  then have "cluster_run (at_peer c v fo j t) [DrainHB v] = Inr (at_peer c v ?fo j t)"
    using assms(1,2) Suc.prems by (simp add: ev_DrainHB_def go_guard_def)
  then have "runs_to (at_peer c v fo j t) (at_peer c v ?fo j t)" by (rule runs_to_run) simp
  also have "runs_to \<dots> (at_peer c v (?fo\<lparr>ReceiveHB := 0\<rparr>) j t)"
    using Suc.hyps(1) [of ?fo] Suc.prems Suc.hyps(2) by simp
  finally show ?case by simp
qed

lemma append_handled:
  assumes ok: "server_ok fo" and up: "follower_up (AE_Term args) fo" and hb: "ReceiveHB fo = 0"
    and args: "append_ok args" "AE_Job args = Append"
  shows "\<exists>fo' r. HandleAppendEntries fo args = Inr (fo', r) \<and> server_ok fo' \<and> follower_up (AE_Term args) fo' \<and>
    appended_log (Log fo) args = (Log fo', AER_LastIndex r, AER_Success r)"
proof -
  let ?fo2 = "steppedDown fo (AE_Term args)"
  have n: "canNotify fo" using up hb by (simp add: canNotify_def follower_up_def)
  have ok2: "server_ok ?fo2" using ok by (rule server_ok_steppedDown)
  then have wf2: "log_wf ?fo2" by (simp add: server_ok_def)
  obtain l li success where l: "appended_log (Log fo) args = (l, li, success)"
    by (cases "appended_log (Log fo) args")
  have "contig 1 l"
    using contig_appended_log [of "Log fo" args] ok args l by (simp add: server_ok_def log_wf_def)
  then have "server_ok (?fo2\<lparr>Log := l\<rparr>)" using ok2 by (simp add: server_ok_Log)
  then show ?thesis
    using args(2) up n
    by (simp add: HandleAppendEntries_unfold Let_def handleAppendJob_spec [OF wf2 args(1)] l)
      (simp add: follower_up_def)
qed

text \<open>
  The resend loop of the thread \<open>j\<close> against follower \<open>v\<close>, from a request on its way to the accepting reply.
  The leader does not change on the way, since it knows already that the follower is alive.
\<close>

definition leads :: "'c cluster \<Rightarrow> nat \<Rightarrow> bool" where
  "leads c p \<longleftrightarrow> p < servers c \<and> State (srv c p) = Leader \<and> \<not> dead (srv c p)"

definition peer_up :: "'c cluster \<Rightarrow> nat \<Rightarrow> nat \<Rightarrow> bool" where
  "peer_up c p v \<longleftrightarrow> v < servers c \<and> v \<noteq> p \<and> phase c v = Electing \<and>
     follower_up (Term (srv c p)) (srv c v)"

lemma alive_same: "go_get False m k \<Longrightarrow> m(k \<mapsto> True) = m"
  by (auto simp: go_get_def fun_eq_iff split: option.splits)

lemma resend_same:
  assumes "server_ok rf" and "describes rf args" and "reply_ok args r" and "\<not> AER_Success r"
    and "resendFrom args r \<le> int (length (Log rf))" and "go_get False (PeerAlive rf) v"
  obtains args' where "StartOnePeerAppend_resend rf v args r = Inr (rf, args')" and "describes rf args'"
    and "AE_PrevLogIndex args' = resendFrom args r"
proof -
  have "append_ok args" using assms(2) by (simp add: describes_def)
  then have p: "0 \<le> resendFrom args r" using assms(3,4) by (rule resendFrom_nonneg)
  obtain rf' args' where r: "StartOnePeerAppend_resend rf v args r = Inr (rf', args')"
    and d: "describes rf args'" "AE_PrevLogIndex args' = resendFrom args r"
    by (rule describes_resend [OF assms(1-5)])
  have "rf' = rf" using r assms(5,6) by (auto simp: StartOnePeerAppend_resend_spec [OF assms(1) p] Let_def alive_same)
  with r d show ?thesis by (intro that) simp_all
qed

lemma resend_loop_run:
  assumes j: "j < length (threads c)" and lead: "leads c p" and ok: "server_ok (srv c p)"
    and v: "v < servers c" "v \<noteq> p" "phase c v = Electing" and alive: "go_get False (PeerAlive (srv c p)) (int v)"
    and d: "describes (srv c p) args" and fo: "server_ok fo" "follower_up (Term (srv c p)) fo"
  shows "\<exists>fo' args' r. runs_to (at_peer c v fo j (AppReq p v args w))
      (at_peer c v fo' j (AppRep p v args' r w)) \<and> AER_Success r \<and> describes (srv c p) args' \<and>
      server_ok fo' \<and> follower_up (Term (srv c p)) fo'"
  using d fo
proof (induction "nat (AE_PrevLogIndex args)" arbitrary: args fo rule: less_induct)
  case less
  let ?ld = "srv c p" and ?fo = "fo\<lparr>ReceiveHB := 0\<rparr>"
  have a: "append_ok args" "AE_Job args = Append" "AE_Term args = Term ?ld"
    using less.prems(1) by (simp_all add: describes_def)
  have drain: "runs_to (at_peer c v fo j (AppReq p v args w)) (at_peer c v ?fo j (AppReq p v args w))"
    using less.prems(3) by (intro drain_run [OF v(1,3)]) (simp add: follower_up_def)
  have ok0: "server_ok ?fo" using less.prems(2) server_ok_cong [of ?fo fo] by simp
  have up0: "follower_up (AE_Term args) ?fo" using less.prems(3) a(3) by (simp add: follower_up_def)
  obtain fo1 r where h: "HandleAppendEntries ?fo args = Inr (fo1, r)" and fo1: "server_ok fo1"
    "follower_up (Term ?ld) fo1" and l: "appended_log (Log fo) args = (Log fo1, AER_LastIndex r, AER_Success r)"
    using append_handled [OF ok0 up0 _ a(1,2)] a(3) by auto
  have handle: "cluster_run (at_peer c v ?fo j (AppReq p v args w)) [Run j] =
      Inr (at_peer c v fo1 j (AppRep p v args r w))"
    using j h by (simp add: go_guard_def append_at_def)
  have first: "runs_to (at_peer c v fo j (AppReq p v args w)) (at_peer c v fo1 j (AppRep p v args r w))"
    by (rule runs_to_trans [OF drain runs_to_run [OF handle]]) simp
  show ?case
  proof (cases "AER_Success r")
    case True
    with first less.prems(1) fo1 show ?thesis by blast
  next
    case False
    from appended_log_cases(2) [OF l a(1) False] obtain m where m: "0 \<le> resendFrom args r"
      "resendFrom args r < AE_PrevLogIndex args" by (auto simp: resendFrom_def)
    have rep: "reply_ok args r" using appended_log_reply [OF a(1) l] by (simp add: reply_ok_def)
    have "resendFrom args r \<le> int (length (Log ?ld))" using m(2) less.prems(1) by (simp add: describes_def)
    then obtain args1 where s: "StartOnePeerAppend_resend ?ld (int v) args r = Inr (?ld, args1)"
      "describes ?ld args1" "AE_PrevLogIndex args1 = resendFrom args r"
      by (rule resend_same [OF ok less.prems(1) rep False _ alive])
    have self: "set_srv (at_peer c v fo1 j t) p ?ld = at_peer c v fo1 j t" for t
    proof -
      have "(srv c)(v := fo1, p := ?ld) = (srv c)(v := fo1)" using v(2) by (simp add: fun_eq_iff)
      then show ?thesis by (simp add: at_peer_def set_srv_def set_thread_def)
    qed
    have "IsLeader ?ld" using lead ok by (simp add: leads_def server_ok_def role_ok_def)
    then have again: "cluster_run (at_peer c v fo1 j (AppRep p v args r w)) [Run j, Run j, Run j] =
        Inr (at_peer c v fo1 j (AppReq p v args1 w))"
      using j v(2) False s(1) lead alive
      by (simp add: go_guard_def app_reply_def self ev_AppLoop_def ev_AppSend_def
          StartOnePeerAppend_continues_def StartOnePeerAppend_sends_def leads_def)
    have round: "runs_to (at_peer c v fo j (AppReq p v args w)) (at_peer c v fo1 j (AppReq p v args1 w))"
      by (rule runs_to_trans [OF first runs_to_run [OF again]]) simp
    have "nat (AE_PrevLogIndex args1) < nat (AE_PrevLogIndex args)" using m s(3) by simp
    from less.hyps [OF this s(2) fo1] obtain fo' args' r' where
      "runs_to (at_peer c v fo1 j (AppReq p v args1 w)) (at_peer c v fo' j (AppRep p v args' r' w))"
      "AER_Success r'" "describes ?ld args'" "server_ok fo'" "follower_up (Term ?ld) fo'" by blast
    with runs_to_trans [OF round] show ?thesis by blast
  qed
qed

section \<open>Acknowledgements\<close>

lemma granted_card:
  assumes "finite A" and "0 < b"
    and "\<And>v. v \<in> A \<Longrightarrow> int v \<noteq> Me rf \<and> go_get False (PeerAlive rf) (int v) \<and> b \<le> matchOf rf (int v)"
  shows "int (card A) + 1 \<le> granted rf b"
proof -
  let ?es = "filter (\<lambda>(s, m). s \<noteq> Me rf \<and> go_get False (PeerAlive rf) s \<and> b \<le> m) (MatchIndex rf)"
  let ?f = "\<lambda>v. (int v, matchOf rf (int v))"
  have "?f v \<in> set ?es" if "v \<in> A" for v
  proof -
    note a = assms(3) [OF that]
    have "map_of (MatchIndex rf) (int v) = Some (matchOf rf (int v))"
      using a assms(2) by (cases "map_of (MatchIndex rf) (int v)") (simp_all add: matchOf_def go_get_def)
    then have "?f v \<in> set (MatchIndex rf)" by (rule map_of_SomeD)
    with a show ?thesis by simp
  qed
  then have "?f ` A \<subseteq> set ?es" by (rule image_subsetI)
  then have "card (?f ` A) \<le> card (set ?es)" by (intro card_mono) simp_all
  moreover have "card (?f ` A) = card A" by (rule card_image) (simp add: inj_on_def)
  ultimately have "card A \<le> card (set ?es)" by simp
  also have "\<dots> \<le> length ?es" by (rule card_length)
  finally show ?thesis by (simp add: granted_length)
qed

text \<open>
  What the leader has done for its last entry, with the command \<open>x\<close>: it is committed and handed to the
  service, or neither.
\<close>

definition commit_status :: "'c option \<Rightarrow> 'c Raft \<Rightarrow> bool" where
  "commit_status x rf \<longleftrightarrow> (let last = int (length (Log rf)) in
     0 < last \<and> commands rf ! nat (last - 1) = x \<and> 0 \<le> CommitIndex rf \<and> CommitIndex rf \<le> last \<and>
     (CommitIndex rf < last \<longrightarrow> LastApply rf < last) \<and>
     (CommitIndex rf = last \<longrightarrow> last \<le> int (length (applied rf)) \<and> applied rf ! nat (last - 1) = x))"

lemma success_commits:
  assumes ok: "server_ok rf" and lead: "IsLeader rf" "\<not> dead rf" and d: "describes rf args"
    and st: "commit_status x rf"
  obtains rf' where "StartOnePeerAppend_success rf s args = Inr rf'" and "commit_status x rf'"
    and "Log rf' = Log rf" and "Term rf' = Term rf" and "State rf' = State rf" and "dead rf' = dead rf"
    and "PeerAlive rf' = (PeerAlive rf)(s \<mapsto> True)"
    and "\<And>u. matchOf rf' u = (if u = s then int (length (Log rf)) else matchOf rf u)"
    and "majority rf' (int (length (Log rf))) \<Longrightarrow> CommitIndex rf' = int (length (Log rf))"
proof -
  let ?a = "acknowledged rf s args" and ?n = "int (length (Log rf))"
  obtain rf2 u where u: "updateCommitForLeader ?a = (rf2, u)" by force
  have args: "append_ok args" using d by (simp add: describes_def)
  have a: "server_ok ?a" using ok args by (rule server_ok_acknowledged)
  have f: "Log ?a = Log rf" "Term ?a = Term rf" "State ?a = State rf" "dead ?a = dead rf"
    "PeerAlive ?a = (PeerAlive rf)(s \<mapsto> True)" "CommitIndex ?a = CommitIndex rf" "LastApply ?a = LastApply rf"
    "ApplyChan ?a = ApplyChan rf" "IsLeader ?a"
    using lead by (simp_all add: acknowledged_def Let_def)
  have "int (length (AE_Entries args)) + AE_PrevLogIndex args = ?n"
    using d by (auto simp: describes_def append_ok_def)
  then have m: "matchOf ?a v = (if v = s then ?n else matchOf rf v)" for v
    by (simp add: acknowledged_def Let_def matchOf_def AList.update_conv' go_get_def)
  have last: "lastIndex ?a = ?n" using a f(1) by (simp add: lastIndex_def last_index_wf server_ok_def)
  have c0: "-1 \<le> CommitIndex ?a" using st f(6) by (simp add: commit_status_def Let_def)
  note spec = updateCommitForLeader_spec [OF c0 u]
  show thesis
  proof (cases u)
    case False
    with spec have rf2: "rf2 = ?a" by simp
    have s': "StartOnePeerAppend_success rf s args = Inr ?a" by (simp add: StartOnePeerAppend_success_eq u False rf2)
    have "commit_status x ?a"
      using st by (simp add: commit_status_def commands_def applied_def f Let_def)
    moreover have "CommitIndex ?a = ?n" if "majority ?a ?n"
    proof (rule ccontr)
      assume "CommitIndex ?a \<noteq> ?n"
      with st f(6) have "CommitIndex ?a < ?n" by (simp add: commit_status_def Let_def)
      with spec False f(9) last that show False by auto
    qed
    ultimately show thesis using m f by (intro that [OF s']) auto
  next
    case True
    with spec obtain b where rf2: "rf2 = ?a\<lparr>CommitIndex := b\<rparr>" and b: "CommitIndex ?a < b" "b \<le> ?n"
      and top: "\<And>i. b < i \<Longrightarrow> i \<le> ?n \<Longrightarrow> \<not> majority ?a i"
      using last by auto
    have la: "0 \<le> LastApply rf2" "LastApply rf < ?n" using a st b f(6) by (auto simp: server_ok_def apply_ok_def rf2 commit_status_def Let_def)
    let ?r = "if b > LastApply rf then rf2\<lparr>LastApply := b,
       ApplyChan := ApplyChan rf @ map (apply_msg (Log rf)) [LastApply rf + 1..b]\<rparr> else rf2"
    have s': "StartOnePeerAppend_success rf s args = Inr ?r"
      using startApply_spec [OF la(1), of b] lead b(2) f
      by (simp add: StartOnePeerAppend_success_eq u True rf2 startApply_spec)
    have al: "int (length (applied rf)) = LastApply rf" using ok by (rule applied_length)
    have "?n \<le> int (length (applied ?r)) \<and> applied ?r ! nat (?n - 1) = x" if "b = ?n"
    proof -
      have "applied ?r = applied rf @ map (\<lambda>i. ApplyMsg_Command (apply_msg (Log rf) i)) [LastApply rf + 1..b]"
        using la(2) that by (simp add: applied_def)
      moreover have "[LastApply rf + 1..b] ! nat (?n - 1 - LastApply rf) = ?n"
        using la(2) that by (subst nth_upto) simp_all
      ultimately show ?thesis
        using la(2) al that st
        by (auto simp: nth_append nat_diff_distrib commit_status_def Let_def apply_msg_def commands_def)
    qed
    then have "commit_status x ?r"
      using st b la f(6) by (auto simp: commit_status_def commands_def rf2 f Let_def)
    moreover have "CommitIndex ?r = ?n" if "majority ?r ?n"
    proof -
      have "majority ?a ?n" using that by (simp add: majority_def granted_def rf2 split: if_splits)
      with top [of ?n] b(2) have "b = ?n" by force
      then show ?thesis by (simp add: rf2)
    qed
    moreover have "matchOf ?r v = matchOf ?a v" for v by (simp add: matchOf_def rf2)
    ultimately show thesis using m f by (intro that [OF s']) (auto simp: rf2)
  qed
qed

section \<open>One call of StartOnePeerAppend\<close>

text \<open>
  A follower the leader can replicate to: it is up, and the log the leader believes it to hold is not
  longer than the leader's own. It is ready when the leader also believes it to be alive.
\<close>

definition peer_known :: "'c cluster \<Rightarrow> nat \<Rightarrow> nat \<Rightarrow> bool" where
  "peer_known c p v \<longleftrightarrow> peer_up c p v \<and> matchOf (srv c p) (int v) \<le> int (length (Log (srv c p)))"

definition peer_ready :: "'c cluster \<Rightarrow> nat \<Rightarrow> nat \<Rightarrow> bool" where
  "peer_ready c p v \<longleftrightarrow> peer_known c p v \<and> go_get False (PeerAlive (srv c p)) (int v)"

lemma peer_round_run:
  assumes r: "reachable n c" and lead: "leads c p" and up: "peer_ready c p v"
    and j: "j < length (threads c)" "threads c ! j = AppInit p v w"
    and st: "commit_status x (srv c p)"
  shows "\<exists>fo' args' rf'. runs_to c (finish_append (set_srv (set_srv c v fo') p rf') j w) \<and>
    StartOnePeerAppend_success (srv c p) (int v) args' = Inr rf' \<and> describes (srv c p) args'"
proof -
  let ?ld = "srv c p"
  have ok: "server_ok (srv c u)" for u by (rule server_ok_of [OF reachable_ok [OF r]])
  have il: "IsLeader ?ld" using lead ok [of p] by (simp add: leads_def server_ok_def role_ok_def)
  have v: "v < servers c" "v \<noteq> p" "phase c v = Electing" "follower_up (Term ?ld) (srv c v)"
    and alive: "go_get False (PeerAlive ?ld) (int v)"
    using up by (simp_all add: peer_ready_def peer_known_def peer_up_def)
  obtain args where a: "StartOnePeerAppend_setup ?ld (int v) = Inr args" and d: "describes ?ld args"
    using StartOnePeerAppend_setup_ok [OF ok, of p "int v"] up by (auto simp: describes_def peer_ready_def peer_known_def)
  have init: "cluster_run c [Run j, Run j, Run j, Run j] = Inr (at_peer c v (srv c v) j (AppReq p v args w))"
    using j lead a alive il
    by (simp add: go_guard_def ev_AppInit_def ev_AppBuild_def ev_AppLoop_def ev_AppSend_def set_thread_def
        at_peer_def set_srv_def StartOnePeerAppend_continues_def StartOnePeerAppend_sends_def leads_def)
  obtain fo' args' r where loop: "runs_to (at_peer c v (srv c v) j (AppReq p v args w))
      (at_peer c v fo' j (AppRep p v args' r w))" and s: "AER_Success r" "describes ?ld args'"
    using resend_loop_run [OF j(1) lead ok v(1-3) alive d ok v(4)] by blast
  have "\<not> dead ?ld" using lead by (simp add: leads_def)
  then obtain rf' where rf': "StartOnePeerAppend_success ?ld (int v) args' = Inr rf'"
    by (rule success_commits [OF ok il _ s(2) st, of "int v"])
  have ack: "cluster_run (at_peer c v fo' j (AppRep p v args' r w)) [Run j] =
      Inr (finish_append (set_srv (set_srv c v fo') p rf') j w)"
    using j(1) s(1) v(2) rf'
    by (simp add: go_guard_def app_reply_def finish_append_def set_thread_def at_peer_def set_srv_def)
  have "runs_to c (at_peer c v (srv c v) j (AppReq p v args w))" using init by (rule runs_to_run) simp
  also note loop
  also have "runs_to (at_peer c v fo' j (AppRep p v args' r w))
      (finish_append (set_srv (set_srv c v fo') p rf') j w)" using ack by (rule runs_to_run) simp
  finally show ?thesis using rf' s(2) by blast
qed

text \<open>What can be done for one follower after another can be done for all of them.\<close>

lemma all_in_turn:
  assumes "finite V" and "P {} c"
    and step: "\<And>A v c. finite A \<Longrightarrow> v \<in> V \<Longrightarrow> v \<notin> A \<Longrightarrow> P A c \<Longrightarrow> \<exists>c'. runs_to c c' \<and> P (insert v A) c'"
  shows "\<exists>c'. runs_to c c' \<and> P V c'"
proof -
  have "\<exists>c'. runs_to c c' \<and> P A c'" if "finite A" "A \<subseteq> V" for A
    using that
  proof (induction rule: finite_subset_induct')
    case empty
    from assms(2) show ?case by (intro exI [of _ c]) simp
  next
    case (insert v A)
    then obtain c1 where "runs_to c c1" "P A c1" by blast
    moreover from step [OF insert.hyps(1,2,4) this(2)] obtain c2 where "runs_to c1 c2" "P (insert v A) c2"
      by blast
    ultimately show ?case by (blast intro: runs_to_trans)
  qed
  from this [OF assms(1) subset_refl] show ?thesis .
qed

lemma spawned_jobs:
  "\<exists>job. \<forall>v \<in> set vs. job v < length (ts @ map f vs) \<and> (ts @ map f vs) ! job v = f v"
proof -
  have "\<exists>k. k < length vs \<and> vs ! k = v" if "v \<in> set vs" for v using that by (auto simp: in_set_conv_nth)
  then have "\<exists>k < length (ts @ map f vs). (ts @ map f vs) ! k = f v" if "v \<in> set vs" for v
    using that by (metis length_append length_map nat_add_left_cancel_less nth_append_length_plus nth_map)
  then show ?thesis by metis
qed

section \<open>A round of calls\<close>

text \<open>
  The call \<open>i\<close> of \<open>Start\<close> has appended \<open>x\<close> as the last entry of the log \<open>l\<close> of the leader \<open>p\<close> and has
  started a thread \<open>job v\<close> for every follower \<open>v\<close>; those of \<open>A\<close> have acknowledged \<open>l\<close>, those of \<open>V\<close>
  that are not in \<open>A\<close> have not been asked yet.
\<close>

definition call_open :: "'c cluster \<Rightarrow> nat \<Rightarrow> nat \<Rightarrow> int \<Rightarrow> 'c Entry list \<Rightarrow> 'c option \<Rightarrow> bool" where
  "call_open c p i t l x \<longleftrightarrow> i < length (starts c) \<and> start_owner (starts c ! i) = p \<and>
     start_command (starts c ! i) = x \<and>
     (\<exists>h. start_stage (starts c ! i) = Appended (int (length l)) t h)"

definition round_of ::
  "nat \<Rightarrow> nat \<Rightarrow> int \<Rightarrow> 'c Entry list \<Rightarrow> 'c option \<Rightarrow> (nat \<Rightarrow> nat) \<Rightarrow> nat set \<Rightarrow> nat set \<Rightarrow> 'c cluster \<Rightarrow> bool" where
  "round_of p i t l x job V A c \<longleftrightarrow> leads c p \<and> Term (srv c p) = t \<and> Log (srv c p) = l \<and>
     commit_status x (srv c p) \<and>
     call_open c p i t l x \<and>
     (\<forall>v \<in> V - A. peer_ready c p v \<and> job v < length (threads c) \<and>
        threads c ! job v = AppInit p v (Some i)) \<and>
     (\<forall>v \<in> A. v \<noteq> p \<and> go_get False (PeerAlive (srv c p)) (int v) \<and>
        matchOf (srv c p) (int v) = int (length l)) \<and>
     (A \<noteq> {} \<longrightarrow> servers c div 2 \<le> card A \<longrightarrow> CommitIndex (srv c p) = int (length l))"

lemma call_open_finish:
  assumes "call_open c p i t l x"
  shows "call_open (finish_append (set_srv (set_srv c v fo) p rf') j (Some i)) p i t l x"
  using assms by (auto simp: call_open_def finish_append_def Let_def set_start_def set_thread_def set_srv_def)

lemma finish_append_fields [simp]:
  "servers (finish_append c j w) = servers c" "srv (finish_append c j w) = srv c"
  "phase (finish_append c j w) = phase c" "threads (finish_append c j w) = (threads c)[j := Finished]"
  by (auto simp: finish_append_def Let_def set_start_def set_thread_def split: option.splits start_stage.splits)

lemma set_srv_fields [simp]:
  "servers (set_srv c s rf) = servers c" "srv (set_srv c s rf) = (srv c)(s := rf)"
  "phase (set_srv c s rf) = phase c" "threads (set_srv c s rf) = threads c"
  by (simp_all add: set_srv_def)

lemma majority_card:
  assumes "srv_ok n p rf" and "finite A" and "n div 2 \<le> card A" and "0 < b"
    and "\<And>v. v \<in> A \<Longrightarrow> v \<noteq> p \<and> go_get False (PeerAlive rf) (int v) \<and> b \<le> matchOf rf (int v)"
  shows "majority rf b"
proof -
  have "int (card A) + 1 \<le> granted rf b"
    using assms by (intro granted_card) (auto simp: srv_ok_def)
  with assms(1,3) show ?thesis by (simp add: majority_def srv_ok_def flip: zdiv_int)
qed

lemma round_step:
  assumes r: "reachable n c" and rnd: "round_of p i t l x job V A c" and v: "v \<in> V" "v \<notin> A" and A: "finite A"
  shows "\<exists>c'. runs_to c c' \<and> round_of p i t l x job V (insert v A) c'"
proof -
  let ?ld = "srv c p" and ?n = "int (length l)"
  have ld: "leads c p" "Log ?ld = l" "commit_status x ?ld" "call_open c p i t l x"
      "Term ?ld = t"
    and up: "peer_ready c p v" "job v < length (threads c)" "threads c ! job v = AppInit p v (Some i)"
    using rnd v by (simp_all add: round_of_def)
  have ok: "cluster_ok n c" using r by (rule reachable_ok)
  obtain fo' args' rf' where run: "runs_to c (finish_append (set_srv (set_srv c v fo') p rf') (job v) (Some i))"
    and s: "StartOnePeerAppend_success ?ld (int v) args' = Inr rf'" "describes ?ld args'"
    using peer_round_run [OF r ld(1) up ld(3)] by blast
  let ?c = "finish_append (set_srv (set_srv c v fo') p rf') (job v) (Some i)"
  have il: "IsLeader ?ld" "\<not> dead ?ld"
    using ld(1) server_ok_of [OF ok, of p] by (auto simp: leads_def server_ok_def role_ok_def)
  have rf': "commit_status x rf'" "Log rf' = l" "Term rf' = Term ?ld" "State rf' = State ?ld" "dead rf' = dead ?ld"
    "PeerAlive rf' = (PeerAlive ?ld)(int v \<mapsto> True)"
    "matchOf rf' u = (if u = int v then ?n else matchOf ?ld u)"
    "majority rf' ?n \<Longrightarrow> CommitIndex rf' = ?n" for u
    using success_commits [OF server_ok_of [OF ok] il s(2) ld(3), of "int v"] s(1) ld(2) by fastforce+
  have pv: "v \<noteq> p" using up(1) by (simp add: peer_ready_def peer_known_def peer_up_def)
  have rest: "peer_ready ?c p u \<and> job u < length (threads ?c) \<and> threads ?c ! job u = AppInit p u (Some i)"
    if "u \<in> V - insert v A" for u
  proof -
    have u: "peer_ready c p u" "job u < length (threads c)" "threads c ! job u = AppInit p u (Some i)"
      using rnd that by (simp_all add: round_of_def)
    have "u \<noteq> v" using that by simp
    then have "job u \<noteq> job v" using u(3) up(3) by auto
    with u \<open>u \<noteq> v\<close> pv rf' ld(2) show ?thesis
      by (auto simp: peer_ready_def peer_known_def peer_up_def go_get_def)
  qed
  have acked: "u \<noteq> p \<and> go_get False (PeerAlive rf') (int u) \<and> matchOf rf' (int u) = ?n" if "u \<in> insert v A" for u
    using that rnd pv rf'(6,7) by (auto simp: round_of_def go_get_def)
  have "srv_ok n p (srv ?c p)" using cluster_ok_srv [OF reachable_ok [OF reachable_runs_to [OF r run]]] .
  moreover have "0 < ?n" using ld(2,3) by (simp add: commit_status_def Let_def)
  moreover have "n = servers c" using ok by (simp add: cluster_ok_def)
  ultimately have "CommitIndex rf' = ?n" if "servers c div 2 \<le> card (insert v A)"
    using that A acked by (intro rf'(8) majority_card [of n p rf' "insert v A"]) auto
  then have "round_of p i t l x job V (insert v A) ?c"
    unfolding round_of_def
    using rest acked rf' ld(1,4,5) call_open_finish [of c p i t l x v fo' rf' "job v"] by (simp add: leads_def)
  with run show ?thesis by blast
qed

lemma round_run:
  assumes "reachable n c" and "round_of p i t l x job V {} c" and "finite V"
  shows "\<exists>c'. runs_to c c' \<and> round_of p i t l x job V V c'"
proof -
  let ?P = "\<lambda>A c. reachable n c \<and> round_of p i t l x job V A c"
  have "\<exists>c'. runs_to c c' \<and> ?P V c'"
  proof (rule all_in_turn [of V ?P c])
    fix A v c1
    assume A: "finite A" "v \<in> V" "v \<notin> A" and c1: "?P A c1"
    then obtain c2 where c2: "runs_to c1 c2" "round_of p i t l x job V (insert v A) c2"
      using round_step by blast
    have "reachable n c2" using c1 c2(1) by (blast intro: reachable_runs_to)
    with c2 show "\<exists>c2. runs_to c1 c2 \<and> ?P (insert v A) c2" by blast
  qed (use assms in simp_all)
  then show ?thesis by blast
qed

section \<open>A command is committed\<close>

text \<open>
  The leader can commit: it has not committed or applied beyond its own log, and \<open>V\<close> is a set of
  followers that make a majority together with it and are ready.
\<close>

definition can_commit :: "'c cluster \<Rightarrow> nat \<Rightarrow> nat set \<Rightarrow> bool" where
  "can_commit c p V \<longleftrightarrow> leads c p \<and> 0 \<le> CommitIndex (srv c p) \<and>
     CommitIndex (srv c p) \<le> int (length (Log (srv c p))) \<and>
     LastApply (srv c p) \<le> int (length (Log (srv c p))) \<and>
     V \<noteq> {} \<and> servers c div 2 \<le> card V \<and> (\<forall>v \<in> V. peer_ready c p v)"

text \<open>Call \<open>i\<close> of \<open>Start\<close> has found its server to be the leader and has not appended yet.\<close>

definition called :: "'c cluster \<Rightarrow> nat \<Rightarrow> nat \<Rightarrow> 'c option \<Rightarrow> bool" where
  "called c p i x \<longleftrightarrow> i < length (starts c) \<and>
     starts c ! i = \<lparr>start_owner = p, start_command = x, start_stage = Checked\<rparr>"

lemma append_opens:
  assumes r: "reachable n c" and can: "can_commit c p V" and i: "called c p i x"
  shows "\<exists>c1 l job. runs_to c c1 \<and> length l = Suc (length (Log (srv c p))) \<and>
    round_of p i (Term (srv c p)) l x job V {} c1"
proof -
  let ?ld = "srv c p"
  obtain rf' index trm where s: "Start_append ?ld x = (rf', index, trm)" by (cases "Start_append ?ld x")
  have ok: "cluster_ok n c" using r by (rule reachable_ok)
  note a = Start_append_ok [OF server_ok_of [OF ok] srv_ok_Test [OF cluster_ok_srv [OF ok]] s]
  have f: "Term rf' = Term ?ld" "State rf' = State ?ld" "dead rf' = dead ?ld" "PeerAlive rf' = PeerAlive ?ld"
    "matchOf rf' = matchOf ?ld" "CommitIndex rf' = CommitIndex ?ld" "LastApply rf' = LastApply ?ld"
    "trm = Term ?ld"
    using s by (auto simp: Start_append_def Let_def persist_def matchOf_def fun_eq_iff split: if_splits)
  define c1 where "c1 = spawn (set_start (set_srv c p rf') i (Appended index trm 1))
    (map (\<lambda>v. AppInit p v (Some i)) (others c p))"
  have run: "cluster_run c [StartAppend i] = Inr c1"
    using i s by (simp add: called_def ev_StartAppend_def go_guard_def c1_def)
  have c1: "servers c1 = servers c" "srv c1 = (srv c)(p := rf')" "phase c1 = phase c"
    "threads c1 = threads c @ map (\<lambda>v. AppInit p v (Some i)) (others c p)"
    "starts c1 = (starts c)[i := \<lparr>start_owner = p, start_command = x, start_stage = Appended index trm 1\<rparr>]"
    using i by (simp_all add: called_def c1_def spawn_def set_start_def set_srv_def)
  obtain job where "\<forall>v \<in> set (others c p). job v < length (threads c1) \<and>
      threads c1 ! job v = AppInit p v (Some i)"
    unfolding c1(4) using spawned_jobs [of "others c p" "threads c" "\<lambda>v. AppInit p v (Some i)"] by blast
  then have job: "job v < length (threads c1) \<and> threads c1 ! job v = AppInit p v (Some i)"
    if "v < servers c" "v \<noteq> p" for v using that by (simp add: others_def)
  have ready: "peer_ready c1 p v \<and> job v < length (threads c1) \<and> threads c1 ! job v = AppInit p v (Some i)"
    if "v \<in> V" for v
    using can that job [of v] a f c1 by (auto simp: can_commit_def peer_ready_def peer_known_def peer_up_def)
  have "0 \<le> LastApply ?ld" using server_ok_of [OF ok, of p] by (simp add: server_ok_def apply_ok_def)
  then have "commit_status x rf'"
    using can a f by (auto simp: can_commit_def commit_status_def Let_def commands_def nth_append)
  then have "round_of p i (Term ?ld) (Log rf') x job V {} c1"
    using can i ready a f c1 by (simp add: called_def) (simp add: round_of_def call_open_def can_commit_def leads_def)
  moreover have "runs_to c c1" using run by (rule runs_to_run) simp
  moreover have "length (Log rf') = Suc (length (Log ?ld))" using a by simp
  ultimately show ?thesis by blast
qed

text \<open>
  The final state: the call of \<open>Start\<close> is answered with the index after the old log and the term of the
  leader, the leader has committed that index and has handed the command to the service there.
\<close>

definition committed_at :: "'c cluster \<Rightarrow> nat \<Rightarrow> nat \<Rightarrow> nat \<Rightarrow> 'c option \<Rightarrow> int \<Rightarrow> bool" where
  "committed_at c p i k x t \<longleftrightarrow> i < length (starts c) \<and>
     starts c ! i = \<lparr>start_owner = p, start_command = x, start_stage = Answered (int (Suc k)) t True\<rparr> \<and>
     CommitIndex (srv c p) = int (Suc k) \<and> k < length (applied (srv c p)) \<and> applied (srv c p) ! k = x"

lemma round_answered:
  assumes r: "reachable n c" and rnd: "round_of p i t l x job V V c" and V: "V \<noteq> {}" "servers c div 2 \<le> card V"
    and l: "length l = Suc k"
  shows "\<exists>c'. runs_to c c' \<and> committed_at c' p i k x t"
proof -
  have ld: "leads c p" "commit_status x (srv c p)" "CommitIndex (srv c p) = int (Suc k)" "Log (srv c p) = l"
    using rnd V l by (simp_all add: round_of_def)
  obtain h where i: "i < length (starts c)" "start_owner (starts c ! i) = p" "start_command (starts c ! i) = x"
    "start_stage (starts c ! i) = Appended (int (Suc k)) t h"
    using rnd l by (auto simp: round_of_def call_open_def)
  have "IsLeader (srv c p)"
    using ld(1) server_ok_of [OF reachable_ok [OF r], of p] by (auto simp: leads_def server_ok_def role_ok_def)
  then have run: "cluster_run c [StartReturn i] =
      Inr (set_start c i (Answered (int (Suc k)) t True))"
    using i ld(3) by (simp add: ev_StartReturn_def go_guard_def Start_waits_def Start_result_def Let_def)
  have "runs_to c (set_start c i (Answered (int (Suc k)) t True))" using run by (rule runs_to_run) simp
  moreover have "committed_at (set_start c i (Answered (int (Suc k)) t True)) p i k x t"
    using i ld l by (auto simp: committed_at_def set_start_def commit_status_def Let_def)
  ultimately show ?thesis by blast
qed

lemma commit_run:
  assumes "reachable n c" and "can_commit c p V" and "finite V" and "called c p i x"
  shows "\<exists>c'. runs_to c c' \<and> committed_at c' p i (length (Log (srv c p))) x (Term (srv c p))"
proof -
  let ?t = "Term (srv c p)"
  obtain c1 l job where c1: "runs_to c c1"
    and l: "length l = Suc (length (Log (srv c p)))" and rnd: "round_of p i ?t l x job V {} c1"
    using append_opens [OF assms(1,2,4)] by blast
  have r1: "reachable n c1" using assms(1) c1 by (rule reachable_runs_to)
  obtain c2 where c2: "runs_to c1 c2" and rnd2: "round_of p i ?t l x job V V c2"
    using round_run [OF r1 rnd assms(3)] by blast
  have r2: "reachable n c2" using r1 c2 by (rule reachable_runs_to)
  have "servers c2 = servers c"
    using reachable_ok [OF r2] reachable_ok [OF assms(1)] by (simp add: cluster_ok_def)
  then have V: "V \<noteq> {}" "servers c2 div 2 \<le> card V" using assms(2) by (simp_all add: can_commit_def)
  obtain c' where "runs_to c2 c'" "committed_at c' p i (length (Log (srv c p))) x ?t"
    using round_answered [OF r2 rnd2 V l] by blast
  with runs_to_trans [OF c1 runs_to_trans [OF c2]] show ?thesis by blast
qed

section \<open>A round of heartbeats\<close>

lemma commit_job_up:
  assumes "server_ok fo" and "follower_up t fo"
  shows "\<exists>fo'. handleCommitJob fo args r = Inr (fo', r) \<and> follower_up t fo'"
  using assms
  by (simp add: handleCommitJob_def Let_def go_min_min last_index_wf startApply_spec server_ok_def apply_ok_def
      follower_up_def)

text \<open>A follower that is up answers a heartbeat of its leader in the leader's term.\<close>

lemma beat_handled:
  assumes ok: "server_ok fo" and up: "follower_up (Term ld) fo" and hb: "ReceiveHB fo = 0"
  shows "\<exists>fo' r. HandleAppendEntries fo (heartBeatArgs ld s) = Inr (fo', r) \<and> follower_up (Term ld) fo' \<and>
    AER_Term r = Term ld"
proof -
  let ?a = "heartBeatArgs ld s" and ?fo = "steppedDown fo (Term ld)"
  let ?r = "zero_AppendEntriesReply\<lparr>AER_Success := True, AER_Term := Term ld\<rparr>"
  have n: "canNotify fo" "Term fo \<le> Term ld" using up hb by (simp_all add: canNotify_def follower_up_def)
  have up2: "follower_up (Term ld) ?fo" using up by (simp add: follower_up_def)
  obtain fo' where "handleCommitJob ?fo ?a ?r = Inr (fo', ?r)" "follower_up (Term ld) fo'"
    using commit_job_up [OF server_ok_steppedDown [OF ok] up2] by blast
  with up2 n show ?thesis by (auto simp: HandleAppendEntries_unfold Let_def heartBeatArgs_def)
qed

text \<open>One heartbeat: the follower hears of the leader, and the leader learns that the follower is alive.\<close>

definition with_alive :: "'c Raft \<Rightarrow> nat \<Rightarrow> 'c Raft" where
  "with_alive rf v = rf\<lparr>PeerAlive := (PeerAlive rf)(int v \<mapsto> True)\<rparr>"

lemma beat_run:
  assumes r: "reachable n c" and lead: "leads c p" and up: "peer_up c p v"
    and j: "j < length (threads c)" "threads c ! j = BeatBuild p v"
  shows "\<exists>fo' ts. runs_to c (spawn (set_srv (at_peer c v fo' j Finished) p (with_alive (srv c p) v)) ts) \<and>
    follower_up (Term (srv c p)) fo'"
proof -
  let ?ld = "srv c p" and ?fo = "(srv c v)\<lparr>ReceiveHB := 0\<rparr>" and ?a = "heartBeatArgs (srv c p) (int v)"
  have ok: "server_ok (srv c u)" for u by (rule server_ok_of [OF reachable_ok [OF r]])
  have v: "v < servers c" "v \<noteq> p" "phase c v = Electing" "follower_up (Term ?ld) (srv c v)"
    using up by (simp_all add: peer_up_def)
  have "server_ok ?fo" using ok [of v] server_ok_cong [of ?fo "srv c v"] by simp
  moreover have "follower_up (Term ?ld) ?fo" using v(4) by (simp add: follower_up_def)
  ultimately obtain fo' rep where h: "HandleAppendEntries ?fo ?a = Inr (fo', rep)"
    "follower_up (Term ?ld) fo'" "AER_Term rep = Term ?ld"
    using beat_handled [of ?fo ?ld "int v"] by auto
  have "cluster_run c [Run j] = Inr (at_peer c v (srv c v) j (BeatReq p v ?a))"
    using j by (simp add: go_guard_def ev_BeatBuild_def at_peer_def set_srv_def set_thread_def)
  then have "runs_to c (at_peer c v (srv c v) j (BeatReq p v ?a))" by (rule runs_to_run) simp
  also have "runs_to \<dots> (at_peer c v ?fo j (BeatReq p v ?a))"
    using v(4) by (intro drain_run [OF v(1,3)]) (simp add: follower_up_def)
  also have "runs_to \<dots> (at_peer c v fo' j (BeatRep p v rep))"
    using j(1) h(1) by (intro runs_to_run [of _ "[Run j]"]) (simp_all add: go_guard_def append_at_def)
  finally have asked: "runs_to c (at_peer c v fo' j (BeatRep p v rep))" .
  have "\<exists>b. sendHeartBeat_reply ?ld (int v) (Some rep) = Inr (with_alive ?ld v, b)"
    using h(3) lead by (auto simp: sendHeartBeat_reply_def with_alive_def leads_def alive_same)
  then obtain b where b: "sendHeartBeat_reply ?ld (int v) (Some rep) = Inr (with_alive ?ld v, b)" ..
  have "cluster_run (at_peer c v fo' j (BeatRep p v rep)) [Run j] =
      Inr (spawn (set_srv (at_peer c v fo' j Finished) p (with_alive ?ld v)) (if b then [AppInit p v None] else []))"
    using j(1) v(2) b by (simp add: go_guard_def beat_reply_def spawn_def at_peer_def set_srv_def set_thread_def)
  then have "runs_to (at_peer c v fo' j (BeatRep p v rep))
      (spawn (set_srv (at_peer c v fo' j Finished) p (with_alive ?ld v)) (if b then [AppInit p v None] else []))"
    by (rule runs_to_run) simp
  with runs_to_trans [OF asked] h(2) show ?thesis by blast
qed

text \<open>
  The leader \<open>p\<close> sends heartbeats: \<open>c0\<close> is the cluster before, and the followers in \<open>A\<close> have answered.
\<close>

definition beats_of ::
  "'c cluster \<Rightarrow> nat \<Rightarrow> (nat \<Rightarrow> nat) \<Rightarrow> nat set \<Rightarrow> nat set \<Rightarrow> 'c cluster \<Rightarrow> bool" where
  "beats_of c0 p job V A c \<longleftrightarrow> servers c = servers c0 \<and> starts c = starts c0 \<and>
     (\<exists>m. srv c p = (srv c0 p)\<lparr>PeerAlive := m\<rparr>) \<and> (\<forall>v \<in> V. peer_up c p v) \<and>
     (\<forall>v \<in> A. go_get False (PeerAlive (srv c p)) (int v)) \<and>
     (\<forall>v \<in> V - A. job v < length (threads c) \<and> threads c ! job v = BeatBuild p v)"

lemma beats_of_leads: "beats_of c0 p job V A c \<Longrightarrow> leads c0 p \<Longrightarrow> leads c p"
  by (auto simp: beats_of_def leads_def)

lemma spawn_fields [simp]:
  "servers (spawn c ts) = servers c" "srv (spawn c ts) = srv c" "phase (spawn c ts) = phase c"
  "starts (spawn c ts) = starts c" "threads (spawn c ts) = threads c @ ts"
  by (simp_all add: spawn_def)

lemma with_alive_fields [simp]:
  "PeerAlive (with_alive rf v) = (PeerAlive rf)(int v \<mapsto> True)" "Term (with_alive rf v) = Term rf"
  by (simp_all add: with_alive_def)

lemma beats_step:
  assumes r: "reachable n c" and lead: "leads c0 p" and b: "beats_of c0 p job V A c" and v: "v \<in> V" "v \<notin> A"
  shows "\<exists>c'. runs_to c c' \<and> beats_of c0 p job V (insert v A) c'"
proof -
  have up: "peer_up c p v" and j: "job v < length (threads c)" "threads c ! job v = BeatBuild p v"
    using b v by (auto simp: beats_of_def)
  obtain fo' ts where run: "runs_to c
      (spawn (set_srv (at_peer c v fo' (job v) Finished) p (with_alive (srv c p) v)) ts)"
    and fo': "follower_up (Term (srv c p)) fo'"
    using beat_run [OF r beats_of_leads [OF b lead] up j] by blast
  let ?c = "spawn (set_srv (at_peer c v fo' (job v) Finished) p (with_alive (srv c p) v)) ts"
  have "starts ?c = starts c" by (simp add: set_srv_def)
  moreover have "\<exists>m. srv ?c p = (srv c0 p)\<lparr>PeerAlive := m\<rparr>"
    using b by (auto simp: beats_of_def with_alive_def)
  moreover have "peer_up ?c p u" if "u \<in> V" for u
    using b that fo' up by (auto simp: beats_of_def peer_up_def)
  moreover have "go_get False (PeerAlive (srv ?c p)) (int u)" if "u \<in> insert v A" for u
    using b that by (auto simp: beats_of_def go_get_def)
  moreover have "job u < length (threads ?c) \<and> threads ?c ! job u = BeatBuild p u" if "u \<in> V - insert v A" for u
  proof -
    have u: "job u < length (threads c)" "threads c ! job u = BeatBuild p u" "u \<noteq> v"
      using b that by (auto simp: beats_of_def)
    then have "job u \<noteq> job v" using j by auto
    with u(1,2) show ?thesis by (simp add: nth_append)
  qed
  ultimately have "beats_of c0 p job V (insert v A) ?c" using b by (simp add: beats_of_def)
  with run show ?thesis by blast
qed

lemma beats_run:
  assumes "reachable n c" and "leads c0 p" and "beats_of c0 p job V {} c" and "finite V"
  shows "\<exists>c'. runs_to c c' \<and> beats_of c0 p job V V c'"
proof -
  let ?P = "\<lambda>A c. reachable n c \<and> beats_of c0 p job V A c"
  have "\<exists>c'. runs_to c c' \<and> ?P V c'"
  proof (rule all_in_turn [of V ?P c])
    fix A v c1
    assume "finite A" "v \<in> V" "v \<notin> A" and c1: "?P A c1"
    then obtain c2 where c2: "runs_to c1 c2" "beats_of c0 p job V (insert v A) c2"
      using beats_step [OF _ assms(2)] by blast
    have "reachable n c2" using c1 c2(1) by (blast intro: reachable_runs_to)
    with c2 show "\<exists>c2. runs_to c1 c2 \<and> ?P (insert v A) c2" by blast
  qed (use assms in simp_all)
  then show ?thesis by blast
qed

text \<open>
  A leader that is not cut off: its loop runs, it has not committed or applied beyond its own log, and
  \<open>V\<close> is a set of followers that make a majority together with it, are up, and whose logs it does not
  believe to be longer than its own.
\<close>

definition can_lead :: "'c cluster \<Rightarrow> nat \<Rightarrow> nat set \<Rightarrow> bool" where
  "can_lead c p V \<longleftrightarrow> leads c p \<and> LeaderLoop p \<in> set (threads c) \<and> 0 \<le> CommitIndex (srv c p) \<and>
     CommitIndex (srv c p) \<le> int (length (Log (srv c p))) \<and>
     LastApply (srv c p) \<le> int (length (Log (srv c p))) \<and>
     V \<noteq> {} \<and> servers c div 2 \<le> card V \<and> (\<forall>v \<in> V. peer_known c p v)"

lemma heartbeats:
  assumes r: "reachable n c" and can: "can_lead c p V" and V: "finite V"
  shows "\<exists>c'. runs_to c c' \<and> can_commit c' p V \<and> starts c' = starts c \<and>
    Log (srv c' p) = Log (srv c p) \<and> Term (srv c' p) = Term (srv c p)"
proof -
  obtain j where j: "j < length (threads c)" "threads c ! j = LeaderLoop p"
    using can by (auto simp: can_lead_def in_set_conv_nth)
  define c1 where "c1 = c\<lparr>threads := (threads c @ [Finished]) @ map (BeatBuild p) (others c p)\<rparr>"
  have "cluster_run c [Run j, Run (length (threads c))] = Inr c1"
    using j can by (simp add: c1_def go_guard_def ev_LeaderTurn_def ev_BeatCheck_def can_lead_def leads_def spawn_def
        set_thread_def nth_append others_def)
  then have run: "runs_to c c1" by (rule runs_to_run) simp
  obtain job where job: "\<forall>v \<in> set (others c p). job v < length (threads c1) \<and> threads c1 ! job v = BeatBuild p v"
    using spawned_jobs [of "others c p" "threads c @ [Finished]" "BeatBuild p"] by (auto simp: c1_def)
  have start: "beats_of c p job V {} c1"
  proof -
    have "v \<in> set (others c p)" "peer_up c1 p v" if "v \<in> V" for v
      using can that by (auto simp: can_lead_def peer_known_def peer_up_def others_def c1_def)
    moreover have "\<exists>m. srv c1 p = (srv c p)\<lparr>PeerAlive := m\<rparr>"
      by (rule exI [of _ "PeerAlive (srv c p)"]) (simp add: c1_def)
    moreover have "servers c1 = servers c" "starts c1 = starts c" by (simp_all add: c1_def)
    ultimately show ?thesis using job by (simp add: beats_of_def)
  qed
  have lead: "leads c p" using can by (simp add: can_lead_def)
  obtain c2 where c2: "runs_to c1 c2" "beats_of c p job V V c2"
    using beats_run [OF reachable_runs_to [OF r run] lead start V] by blast
  obtain m where m: "srv c2 p = (srv c p)\<lparr>PeerAlive := m\<rparr>" using c2(2) by (auto simp: beats_of_def)
  have "can_commit c2 p V"
    using can c2(2) m
    by (auto simp: can_commit_def can_lead_def beats_of_def peer_ready_def peer_known_def leads_def matchOf_def)
  with runs_to_trans [OF run c2(1)] c2(2) m show ?thesis by (auto simp: beats_of_def)
qed

lemma progress:
  assumes "reachable n c" and "can_lead c p V" and "finite V" and "called c p i x"
  shows "\<exists>c'. runs_to c c' \<and> committed_at c' p i (length (Log (srv c p))) x (Term (srv c p))"
proof -
  obtain c1 where c1: "runs_to c c1" "can_commit c1 p V" "starts c1 = starts c"
    "Log (srv c1 p) = Log (srv c p)" "Term (srv c1 p) = Term (srv c p)"
    using heartbeats [OF assms(1-3)] by blast
  have "called c1 p i x" using assms(4) c1(3) by (simp add: called_def)
  then obtain c' where "runs_to c1 c'" "committed_at c' p i (length (Log (srv c p))) x (Term (srv c p))"
    using commit_run [OF reachable_runs_to [OF assms(1) c1(1)] c1(2) assms(3)] c1(4,5) by auto
  with runs_to_trans [OF c1(1)] show ?thesis by blast
qed

text \<open>A client's call of \<open>Start\<close> at a leader.\<close>

lemma call_progress:
  assumes "reachable n c" and "can_lead c p V" and "finite V"
  shows "\<exists>c0 c'. cstep c (ClientStart p x) = Inr c0 \<and> runs_to c0 c' \<and>
    committed_at c' p (length (starts c)) (length (Log (srv c p))) x (Term (srv c p))"
proof -
  define c0 where "c0 = c\<lparr>starts := starts c @ [\<lparr>start_owner = p, start_command = x, start_stage = Checked\<rparr>]\<rparr>"
  have c0: "cstep c (ClientStart p x) = Inr c0"
    using assms(2) by (simp add: ev_Start_def go_guard_def can_lead_def leads_def c0_def)
  have "reachable n c0" using assms(1) c0 by (rule reach_step)
  moreover have "can_lead c0 p V"
    using assms(2) by (simp add: can_lead_def leads_def peer_known_def peer_up_def c0_def)
  moreover have "called c0 p (length (starts c)) x" by (simp add: called_def c0_def)
  ultimately obtain c' where "runs_to c0 c'"
    "committed_at c' p (length (starts c)) (length (Log (srv c0 p))) x (Term (srv c0 p))"
    using progress assms(3) by blast
  with c0 show ?thesis by (auto simp: c0_def)
qed

section \<open>Progress\<close>

text \<open>
  A cluster the theorem applies to: server 0 has committed an entry with server 1, server 1 has then won
  the second term and set itself up as leader. It knows of no peer that is alive, and the log of server 2
  is empty.
\<close>

definition new_leader :: "'c \<Rightarrow> 'c event list" where
  "new_leader x = lead_0 x @ [Run 7, Run 7, Run 7, Run 7, DrainHB 1, Run 7, Run 7,
     Tick 1, Campaign 1, Run 10, Run 10, Decide 1, TakeResult 1, Run 11]"

lemma new_leader_run:
  "run_satisfies (new_leader x) (\<lambda>c. can_lead c 1 {2} \<and> Log (srv c 2) = [] \<and>
     length (Log (srv c 1)) = 1 \<and> Term (srv c 1) = 2 \<and> length (starts c) = 1)"
  by (simp add: run_satisfies_def elect_0_def lead_0_def new_leader_def can_lead_def leads_def peer_known_def
      peer_up_def follower_up_def run_simps cong: step_congs)

text \<open>C6: The leader makes progress. Take any reachable cluster in which a server is alive, leads and runs its
  heartbeat loop, its commit index is not negative, its commit and apply indexes lie within its log, and
  a set of other servers (at least one, so a single server is excluded, and at least half of all servers,
  rounded down) are followers that are up: alive, not leaders, in their follower loops, not ahead in term, and
  with a match index within the leader's log. Then a new call of \<open>Start\<close> with any command is accepted and
  there is a calm schedule (turns of the goroutines, the handlers and the followers' loops, with no timer,
  crash, kill, lost message or other call) after which it has returned the index after the old log, the
  leader's term and true, the leader has committed that index, and the command has been handed to the
  leader's service at that index, however far the followers' logs had diverged.\<close>

theorem leader_commits:
  assumes "reachable n c" and "can_lead c p V" and "finite V"
  shows "\<exists>c0 c'. cstep c (ClientStart p x) = Inr c0 \<and> runs_to c0 c' \<and>
    committed_at c' p (length (starts c)) (length (Log (srv c p))) x (Term (srv c p))"
  using assms by (rule call_progress)

theorem leader_commits_witness:
  "\<exists>(c :: int cluster) c0 c'. reachable 3 c \<and> Log (srv c 2) = [] \<and> cstep c (ClientStart 1 (Some 8)) = Inr c0 \<and>
     runs_to c0 c' \<and> committed_at c' 1 1 1 (Some 8) 2"
proof -
  obtain c :: "int cluster" where c: "reachable 3 c" "can_lead c 1 {2}" "Log (srv c 2) = []"
    "length (Log (srv c 1)) = 1" "Term (srv c 1) = 2" "length (starts c) = 1"
    using run_reachable [OF new_leader_run [of 7]] by blast
  obtain c0 c' where "cstep c (ClientStart 1 (Some 8)) = Inr c0" "runs_to c0 c'" "committed_at c' 1 1 1 (Some 8) 2"
    using leader_commits [OF c(1,2), of "Some 8"] c(4-6) by auto
  with c(1,3) show ?thesis by blast
qed

end
