(* ===== verification/Raft_Recover.thy ===== *)
theory Raft_Recover
  imports Raft_Progress
begin

text \<open>
  A cluster recovers: from every reachable state of at least two servers in which one server is up, its
  commit and apply indexes lie within its log, and followers for whom its log is up to date make a
  majority with it, this server can be elected, and then commits commands.
\<close>

section \<open>Peaceful runs\<close>

text \<open>Events of a run without failures: timers may fire and elections may be held, but no RPC fails, no
  campaign runs out of time, and no server is killed or crashes.\<close>

fun peaceful :: "'c event \<Rightarrow> bool" where
  "peaceful (Tick s) = True"
| "peaceful (Campaign k) = True"
| "peaceful (Decide k) = True"
| "peaceful (TakeResult k) = True"
| "peaceful e = calm e"

definition peace_to :: "'c cluster \<Rightarrow> 'c cluster \<Rightarrow> bool" where
  "peace_to c c' \<longleftrightarrow> (\<exists>es. list_all peaceful es \<and> cluster_run c es = Inr c')"

lemma calm_peaceful: "calm e \<Longrightarrow> peaceful e"
  by (cases e) simp_all

lemma peace_to_run: "cluster_run c es = Inr c' \<Longrightarrow> list_all peaceful es \<Longrightarrow> peace_to c c'"
  by (auto simp: peace_to_def)

lemma runs_to_peace: "runs_to c c' \<Longrightarrow> peace_to c c'"
  unfolding runs_to_def peace_to_def using calm_peaceful by (metis list.pred_mono_strong)

lemma peace_to_trans [trans]:
  assumes "peace_to c c1" and "peace_to c1 c2"
  shows "peace_to c c2"
proof -
  from assms obtain es fs where "list_all peaceful (es @ fs)" "cluster_run c es = Inr c1" "cluster_run c1 fs = Inr c2"
    by (auto simp: peace_to_def)
  then show ?thesis by (intro peace_to_run [of c "es @ fs"]) (simp_all add: cluster_run_append)
qed

lemma reachable_peace: "reachable n c \<Longrightarrow> peace_to c c' \<Longrightarrow> reachable n c'"
  by (auto simp: peace_to_def intro: reachable_run)

section \<open>One vote\<close>

text \<open>The request \<open>a\<close> of a campaign finds a voter: a follower that is up, in an older term, whose log is not
  more recent.\<close>

definition voter_for :: "RequestVoteArgs \<Rightarrow> 'c Raft \<Rightarrow> bool" where
  "voter_for a rf \<longleftrightarrow> \<not> dead rf \<and> \<not> IsLeader rf \<and> Term rf < RV_Term a \<and>
     upToDate (lastLogTerm (Log rf)) (int (length (Log rf))) a"

lemma vote_granted:
  assumes "server_ok rf" and "voter_for a rf" and "ReceiveHB rf = 0"
  shows "\<exists>rf' r. HandleRequestVote rf a = Inr (rf', r) \<and> follower_up (RV_Term a) rf' \<and> Log rf' = Log rf \<and>
    RVR_Term r = RV_Term a \<and> RVR_VoteGranted r"
proof -
  have wf: "log_wf rf" using assms(1) by (simp add: server_ok_def)
  have "canNotify rf" "grantsVote rf a" using assms(2,3) by (simp_all add: canNotify_def voter_for_def grantsVote_def)
  moreover have "follower_up (RV_Term a) ((adoptTerm rf (RV_Term a))\<lparr>VotedFor := RV_PeerId a\<rparr>)"
    using assms(2) by (simp add: follower_up_def voter_for_def adoptTerm_def)
  ultimately show ?thesis
    using assms(2) by (simp add: HandleRequestVote_spec [OF wf] Let_def voter_for_def)
qed

text \<open>The campaign \<open>k\<close> of server \<open>p\<close> waits, with \<open>m\<close> votes.\<close>

definition campaigns :: "'c cluster \<Rightarrow> nat \<Rightarrow> nat \<Rightarrow> RequestVoteArgs \<Rightarrow> int \<Rightarrow> bool" where
  "campaigns c p k a m \<longleftrightarrow> p < servers c \<and> State (srv c p) = Cand \<and> \<not> dead (srv c p) \<and>
     Term (srv c p) = RV_Term a \<and> phase c p = Electing \<and> k < length (cands c) \<and>
     (let cd = cands c ! k in cand_owner cd = p \<and> cand_loop cd = loop_no c p \<and> cand_stage cd = Running \<and>
        \<not> needReturn (cand_campaign cd) \<and> votes (cand_campaign cd) = m \<and>
        campaign_args (cand_campaign cd) = a)"

lemma vote_run:
  assumes r: "reachable n c" and cp: "campaigns c p k a m" and v: "v < servers c" "v \<noteq> p" "phase c v = Electing"
    and voter: "voter_for a (srv c v)" and j: "j < length (threads c)" "threads c ! j = VoteReq k v a"
  shows "\<exists>c' fo'. runs_to c c' \<and> campaigns c' p k a (m + 1) \<and> follower_up (RV_Term a) fo' \<and>
    servers c' = servers c \<and> phase c' = phase c \<and> loop_no c' = loop_no c \<and> starts c' = starts c \<and>
    srv c' = (srv c)(v := fo') \<and> threads c' = (threads c)[j := Finished]"
proof -
  let ?fo = "(srv c v)\<lparr>ReceiveHB := 0\<rparr>"
  have ok: "server_ok (srv c v)" by (rule server_ok_of [OF reachable_ok [OF r]])
  have "server_ok ?fo" using ok server_ok_cong [of ?fo "srv c v"] by simp
  moreover have "voter_for a ?fo" using voter by (simp add: voter_for_def)
  ultimately obtain fo' rep where h: "HandleRequestVote ?fo a = Inr (fo', rep)" "follower_up (RV_Term a) fo'"
    "RVR_Term rep = RV_Term a" "RVR_VoteGranted rep"
    using vote_granted [of ?fo a] by auto
  have "at_peer c v (srv c v) j (VoteReq k v a) = c" using j(2) by (rule at_peer_self)
  moreover have "runs_to (at_peer c v (srv c v) j (VoteReq k v a)) (at_peer c v ?fo j (VoteReq k v a))"
    using voter by (intro drain_run [OF v(1,3)]) (simp add: voter_for_def)
  ultimately have drained: "runs_to c (at_peer c v ?fo j (VoteReq k v a))" by simp
  define c1 where "c1 = (at_peer c v fo' j (VoteRep k v rep))
    \<lparr>votes_cast := insert (v, RVR_Term rep, nat (RV_PeerId a)) (votes_cast c)\<rparr>"
  have "cluster_run (at_peer c v ?fo j (VoteReq k v a)) [Run j] = Inr c1"
    using j(1) h(1,4)
    by (simp add: go_guard_def vote_at_def c1_def at_peer_def set_srv_def set_thread_def)
  then have asked: "runs_to c c1" by (intro runs_to_trans [OF drained] runs_to_run [of _ "[Run j]"]) simp_all
  have f: "servers c1 = servers c" "phase c1 = phase c" "loop_no c1 = loop_no c" "cands c1 = cands c"
    "srv c1 = (srv c)(v := fo')" "threads c1 = (threads c)[j := VoteRep k v rep]" "starts c1 = starts c"
    by (simp_all add: c1_def at_peer_def set_srv_def set_thread_def)
  let ?cd = "cands c ! k" and ?cp = "cand_campaign (cands c ! k)"
  let ?cp' = "?cp\<lparr>hearedBack := hearedBack ?cp + 1, votes := m + 1\<rparr>"
  have cd: "cand_owner ?cd = p" "cand_stage ?cd = Running" "\<not> needReturn ?cp" "votes ?cp = m"
    "k < length (cands c)" "State (srv c p) = Cand" "Term (srv c p) = RV_Term a"
    using cp by (simp_all add: campaigns_def Let_def)
  have rep: "startAsCand_reply (srv c p) ?cp (Some rep) = Inr (srv c p, ?cp')"
    using h(3,4) cd by (simp add: startAsCand_reply_def Let_def)
  define c2 where "c2 = set_thread (set_cand c1 k
    (?cd\<lparr>cand_campaign := ?cp', cand_voters := insert v (cand_voters ?cd)\<rparr>)) j Finished"
  have "set_srv c1 p (srv c1 p) = c1" by (simp add: set_srv_def)
  then have "cluster_run c1 [Run j] = Inr c2"
    using j(1) v(2) cd rep f by (simp add: go_guard_def count_vote_def c2_def Let_def)
  then have "runs_to c c2" by (intro runs_to_trans [OF asked] runs_to_run [of _ "[Run j]"]) simp_all
  moreover have "campaigns c2 p k a (m + 1)"
    using cp v(2) f by (simp add: campaigns_def c2_def set_thread_def set_cand_def Let_def)
  ultimately show ?thesis
    using h(2) f by (intro exI [of _ c2] exI [of _ fo']) (simp add: c2_def set_thread_def set_cand_def)
qed

section \<open>A round of votes\<close>

text \<open>\<open>c0\<close> is the cluster when the requests went out; the servers in \<open>A\<close> have voted.\<close>

definition votes_of ::
  "'c cluster \<Rightarrow> nat \<Rightarrow> nat \<Rightarrow> RequestVoteArgs \<Rightarrow> (nat \<Rightarrow> nat) \<Rightarrow> nat set \<Rightarrow> nat set \<Rightarrow> 'c cluster \<Rightarrow> bool" where
  "votes_of c0 p k a job V A c \<longleftrightarrow> campaigns c p k a (1 + int (card A)) \<and> srv c p = srv c0 p \<and>
     servers c = servers c0 \<and> phase c = phase c0 \<and> starts c = starts c0 \<and>
     (\<forall>v \<in> V. v < servers c0 \<and> v \<noteq> p \<and> phase c0 v = Electing) \<and>
     (\<forall>v \<in> A. follower_up (RV_Term a) (srv c v)) \<and>
     (\<forall>v \<in> V - A. voter_for a (srv c v) \<and> job v < length (threads c) \<and> threads c ! job v = VoteReq k v a)"

lemma votes_step:
  assumes r: "reachable n c" and b: "votes_of c0 p k a job V A c" and A: "finite A" and v: "v \<in> V" "v \<notin> A"
  shows "\<exists>c'. runs_to c c' \<and> votes_of c0 p k a job V (insert v A) c'"
proof -
  have cp: "campaigns c p k a (1 + int (card A))" and vs: "v < servers c" "v \<noteq> p" "phase c v = Electing"
    and voter: "voter_for a (srv c v)" and j: "job v < length (threads c)" "threads c ! job v = VoteReq k v a"
    using b v by (simp_all add: votes_of_def)
  obtain c' fo' where run: "runs_to c c'" and c': "campaigns c' p k a (1 + int (card A) + 1)"
    "follower_up (RV_Term a) fo'" "servers c' = servers c" "phase c' = phase c" "starts c' = starts c"
    "srv c' = (srv c)(v := fo')" "threads c' = (threads c)[job v := Finished]"
    using vote_run [OF r cp vs voter j] by blast
  have "campaigns c' p k a (1 + int (card (insert v A)))" using c'(1) A v(2) by (simp add: algebra_simps)
  moreover have "voter_for a (srv c' u) \<and> job u < length (threads c') \<and> threads c' ! job u = VoteReq k u a"
    if "u \<in> V - insert v A" for u
  proof -
    have u: "voter_for a (srv c u)" "job u < length (threads c)" "threads c ! job u = VoteReq k u a" "u \<noteq> v"
      using b that by (simp_all add: votes_of_def)
    then have "job u \<noteq> job v" using j by auto
    with u c' show ?thesis by simp
  qed
  ultimately have "votes_of c0 p k a job V (insert v A) c'"
    using b c'(2-6) vs(2) by (auto simp: votes_of_def)
  with run show ?thesis by blast
qed

lemma votes_run:
  assumes "reachable n c" and "votes_of c0 p k a job V {} c" and "finite V"
  shows "\<exists>c'. runs_to c c' \<and> votes_of c0 p k a job V V c'"
proof -
  let ?P = "\<lambda>A c. reachable n c \<and> votes_of c0 p k a job V A c"
  have "\<exists>c'. runs_to c c' \<and> ?P V c'"
  proof (rule all_in_turn [of V ?P c])
    fix A v c1
    assume "finite A" "v \<in> V" "v \<notin> A" and c1: "?P A c1"
    then obtain c2 where c2: "runs_to c1 c2" "votes_of c0 p k a job V (insert v A) c2"
      using votes_step by blast
    have "reachable n c2" using c1 c2(1) by (blast intro: reachable_runs_to)
    with c2 show "\<exists>c2. runs_to c1 c2 \<and> ?P (insert v A) c2" by blast
  qed (use assms in simp_all)
  then show ?thesis by blast
qed

section \<open>The new leader\<close>

lemma matchOf_setup:
  "matchOf (fold startAsLeader_server ss rf) u = (if u \<in> set ss then 0 else matchOf rf u)"
proof (induction ss arbitrary: rf)
  case (Cons s ss)
  have "matchOf (startAsLeader_server s rf) u = (if u = s then 0 else matchOf rf u)"
    by (simp add: startAsLeader_server_def Let_def matchOf_def AList.update_conv' go_get_def)
  with Cons.IH show ?case by (cases "u = s") simp_all
qed simp

lemma fold_setup_fields:
  "dead (fold startAsLeader_server ss rf) = dead rf \<and> CommitIndex (fold startAsLeader_server ss rf) = CommitIndex rf"
  by (induction ss arbitrary: rf) (simp_all add: startAsLeader_server_def Let_def)

lemma setup_leads:
  assumes "server_ok rf"
  shows "State (startAsLeader_setup rf) = Leader" "dead (startAsLeader_setup rf) = dead rf"
    "Term (startAsLeader_setup rf) = Term rf" "CommitIndex (startAsLeader_setup rf) = CommitIndex rf"
    "LastApply (startAsLeader_setup rf) = LastApply rf" "length (Log (startAsLeader_setup rf)) = length (Log rf)"
    "0 \<le> u \<Longrightarrow> u < PeerNumber rf \<Longrightarrow> matchOf (startAsLeader_setup rf) u = 0"
proof -
  note f = fold_startAsLeader_server_ok [OF assms, of "[0..PeerNumber rf - 1]"]
  then show "Term (startAsLeader_setup rf) = Term rf" "LastApply (startAsLeader_setup rf) = LastApply rf"
    "length (Log (startAsLeader_setup rf)) = length (Log rf)"
    by (simp_all add: startAsLeader_setup_def setLeader_def keepsVote_def)
  show "State (startAsLeader_setup rf) = Leader" "dead (startAsLeader_setup rf) = dead rf"
    "CommitIndex (startAsLeader_setup rf) = CommitIndex rf"
    using fold_setup_fields [of "[0..PeerNumber rf - 1]" rf]
    by (simp_all add: startAsLeader_setup_def setLeader_def)
  have "matchOf (setLeader r) u = matchOf r u" for r :: "'a Raft" by (simp add: matchOf_def setLeader_def)
  then show "0 \<le> u \<Longrightarrow> u < PeerNumber rf \<Longrightarrow> matchOf (startAsLeader_setup rf) u = 0"
    by (simp add: startAsLeader_setup_def matchOf_setup)
qed

text \<open>
  Server \<open>p\<close> can be elected: it is up and in its follower loop, its commit and apply indexes lie within
  its log, and \<open>V\<close> is a set of followers that are up, in terms that are not ahead, whose logs are not more
  recent, and that make a majority together with it.
\<close>

definition electable :: "'c cluster \<Rightarrow> nat \<Rightarrow> nat set \<Rightarrow> bool" where
  "electable c p V \<longleftrightarrow> p < servers c \<and> \<not> dead (srv c p) \<and> phase c p = Electing \<and>
     0 \<le> CommitIndex (srv c p) \<and> CommitIndex (srv c p) \<le> int (length (Log (srv c p))) \<and>
     LastApply (srv c p) \<le> int (length (Log (srv c p))) \<and> V \<noteq> {} \<and> servers c div 2 \<le> card V \<and>
     (\<forall>v \<in> V. v < servers c \<and> v \<noteq> p \<and> phase c v = Electing \<and>
        voter_for \<lparr>RV_PeerId = int p, RV_Term = Term (srv c p) + 1,
          RV_LastLogIndex = int (length (Log (srv c p))), RV_LastLogTerm = lastLogTerm (Log (srv c p))\<rparr> (srv c v))"

lemma campaign_opens:
  assumes r: "reachable n c" and e: "electable c p V"
  shows "\<exists>c1 k a job. peace_to c c1 \<and> votes_of c1 p k a job V {} c1 \<and> RV_Term a = Term (srv c p) + 1 \<and>
    starts c1 = starts c \<and> servers c1 = servers c \<and> Log (srv c1 p) = Log (srv c p) \<and>
    CommitIndex (srv c1 p) = CommitIndex (srv c p) \<and> LastApply (srv c1 p) = LastApply (srv c p)"
proof -
  let ?k = "length (cands c)" and ?rf = "srv c p"
  have ok: "cluster_ok n c" using r by (rule reachable_ok)
  have me: "Me ?rf = int p" using cluster_ok_srv [OF ok, of p] by (simp add: srv_ok_def)
  define a where "a = \<lparr>RV_PeerId = int p, RV_Term = Term ?rf + 1,
    RV_LastLogIndex = int (length (Log ?rf)), RV_LastLogTerm = lastLogTerm (Log ?rf)\<rparr>"
  define rf' where "rf' = persist (?rf\<lparr>State := Cand, Term := Term ?rf + 1, VotedFor := int p\<rparr>)"
  define cd where "cd = \<lparr>cand_owner = p, cand_loop = loop_no c p, cand_stage = Running,
    cand_campaign = \<lparr>hearedBack = 1, votes = 1, needReturn = False, campaign_args = a\<rparr>, cand_voters = {p}\<rparr>"
  have opens: "startAsCand_begin ?rf = Inr (rf', cand_campaign cd)"
    using startAsCand_begin_spec [OF log_wf_of [OF ok, of p]] me by (simp add: rf'_def cd_def a_def Let_def)
  define c1 where "c1 = (spawn (set_srv (c\<lparr>cands := cands c @ [cd]\<rparr>) p rf') (map (\<lambda>v. VoteReq ?k v a) (others c p)))
    \<lparr>votes_cast := insert (p, Term rf', p) (votes_cast c)\<rparr>"
  have "cluster_run c [Tick p, Campaign ?k] = Inr c1"
    using e opens
    by (simp add: go_guard_def ev_Tick_def ev_Campaign_def electable_def Let_def c1_def cd_def set_cand_def set_srv_def
        spawn_def others_def list_update_append)
  then have "peace_to c c1" by (rule peace_to_run) simp
  have c1: "servers c1 = servers c" "phase c1 = phase c" "loop_no c1 = loop_no c" "starts c1 = starts c"
    "srv c1 = (srv c)(p := rf')" "cands c1 = cands c @ [cd]"
    "threads c1 = threads c @ map (\<lambda>v. VoteReq ?k v a) (others c p)"
    by (simp_all add: c1_def spawn_def set_srv_def)
  obtain job where job: "\<forall>v \<in> set (others c p). job v < length (threads c1) \<and> threads c1 ! job v = VoteReq ?k v a"
    unfolding c1(7) using spawned_jobs [of "others c p" "threads c" "\<lambda>v. VoteReq ?k v a"] by blast
  have rf': "State rf' = Cand" "dead rf' = dead ?rf" "Term rf' = RV_Term a" "Log rf' = Log ?rf"
    "CommitIndex rf' = CommitIndex ?rf" "LastApply rf' = LastApply ?rf"
    by (simp_all add: rf'_def a_def persist_def)
  have "campaigns c1 p ?k a 1"
    using e c1 rf' by (simp add: campaigns_def electable_def cd_def nth_append)
  moreover have "voter_for a (srv c1 v) \<and> job v < length (threads c1) \<and> threads c1 ! job v = VoteReq ?k v a"
    if "v \<in> V" for v
    using e that c1(5) job by (auto simp: electable_def a_def others_def)
  ultimately have "votes_of c1 p ?k a job V {} c1"
    using e c1 by (simp add: votes_of_def electable_def)
  then show ?thesis
    using \<open>peace_to c c1\<close> c1 rf' by (intro exI [of _ c1] exI [of _ ?k] exI [of _ a] exI [of _ job]) (simp add: a_def)
qed

lemma campaign_won:
  assumes r: "reachable n c" and b: "votes_of c0 p k a job V V c" and V: "servers c div 2 \<le> card V"
  shows "\<exists>c'. peace_to c c' \<and> servers c' = servers c \<and> starts c' = starts c \<and> LeaderLoop p \<in> set (threads c') \<and>
    srv c' = (srv c)(p := startAsLeader_setup (srv c p)) \<and> phase c' = (phase c)(p := Leading) \<and>
    (p, RV_Term a) \<in> elected c'"
proof -
  let ?rf = "srv c p" and ?j = "length (threads c)"
  have ok: "cluster_ok n c" using r by (rule reachable_ok)
  have pn: "PeerNumber ?rf = int (servers c)"
    using ok cluster_ok_srv [OF ok, of p] by (simp add: srv_ok_def cluster_ok_def)
  have cp: "campaigns c p k a (1 + int (card V))" using b by (simp add: votes_of_def)
  then have cd: "k < length (cands c)" "cand_stage (cands c ! k) = Running" "cand_owner (cands c ! k) = p"
    "cand_loop (cands c ! k) = loop_no c p" "votes (cand_campaign (cands c ! k)) = 1 + int (card V)"
    "\<not> needReturn (cand_campaign (cands c ! k))" "campaign_args (cand_campaign (cands c ! k)) = a"
    "State ?rf = Cand" "\<not> dead ?rf" "Term ?rf = RV_Term a" "phase c p = Electing"
    by (simp_all add: campaigns_def Let_def)
  have "PeerNumber ?rf div 2 < 1 + int (card V)" using V pn by (simp flip: zdiv_int)
  then have win: "startAsCand_decide ?rf (cand_campaign (cands c ! k)) = Win"
    "\<not> startAsCand_waits ?rf (cand_campaign (cands c ! k))"
    using cd by (simp_all add: startAsCand_decide_def startAsCand_waits_def)
  define c' where "c' = c\<lparr>cands := (cands c)[k := (cands c ! k)\<lparr>cand_stage := Taken\<rparr>],
    elected := insert (p, RV_Term a) (elected c), phase := (phase c)(p := Leading),
    threads := threads c @ [LeaderLoop p], srv := (srv c)(p := startAsLeader_setup ?rf)\<rparr>"
  have "cluster_run c [Decide k, TakeResult k, Run ?j] = Inr c'"
    using cd win
    by (simp add: go_guard_def ev_Decide_def ev_TakeResult_def ev_LeaderSetup_def Let_def set_cand_def spawn_def set_srv_def
        set_thread_def c'_def)
  then have "peace_to c c'" by (rule peace_to_run) simp
  then show ?thesis by (intro exI [of _ c']) (simp add: c'_def)
qed

lemma leader_emerges:
  assumes r: "reachable n c" and e: "electable c p V" and V: "finite V"
  shows "\<exists>c'. peace_to c c' \<and> can_lead c' p V \<and> starts c' = starts c \<and> (p, Term (srv c p) + 1) \<in> elected c' \<and>
    Term (srv c' p) = Term (srv c p) + 1 \<and> length (Log (srv c' p)) = length (Log (srv c p))"
proof -
  obtain c1 k a job where p1: "peace_to c c1" and v1: "votes_of c1 p k a job V {} c1" and a: "RV_Term a = Term (srv c p) + 1"
    and c1: "starts c1 = starts c" "servers c1 = servers c" "Log (srv c1 p) = Log (srv c p)"
      "CommitIndex (srv c1 p) = CommitIndex (srv c p)" "LastApply (srv c1 p) = LastApply (srv c p)"
    using campaign_opens [OF r e] by blast
  have r1: "reachable n c1" using r p1 by (rule reachable_peace)
  obtain c2 where p2: "runs_to c1 c2" and v2: "votes_of c1 p k a job V V c2"
    using votes_run [OF r1 v1 V] by blast
  have r2: "reachable n c2" using r1 p2 by (rule reachable_runs_to)
  have c2: "servers c2 = servers c" "starts c2 = starts c" "srv c2 p = srv c1 p" "phase c2 = phase c1"
    "campaigns c2 p k a (1 + int (card V))" using v2 c1 by (simp_all add: votes_of_def)
  have half: "servers c2 div 2 \<le> card V" "V \<noteq> {}" using e c2(1) by (simp_all add: electable_def)
  obtain c3 where p3: "peace_to c2 c3" and c3: "servers c3 = servers c2" "starts c3 = starts c2"
    "LeaderLoop p \<in> set (threads c3)" "srv c3 = (srv c2)(p := startAsLeader_setup (srv c2 p))"
    "phase c3 = (phase c2)(p := Leading)" "(p, RV_Term a) \<in> elected c3"
    using campaign_won [OF r2 v2 half(1)] by blast
  have ok2: "cluster_ok n c2" using r2 by (rule reachable_ok)
  note established = setup_leads [OF server_ok_of [OF ok2, of p]]
  have pn: "PeerNumber (srv c2 p) = int (servers c2)"
    using ok2 cluster_ok_srv [OF ok2, of p] by (simp add: srv_ok_def cluster_ok_def)
  have lead: "leads c3 p" "Term (srv c3 p) = RV_Term a"
    using c2(5) c3 established by (simp_all add: leads_def campaigns_def Let_def)
  have "peer_known c3 p v" if "v \<in> V" for v
    using v2 that c3 lead(2) established(7) [of "int v"] pn c2(1,4) c1(2)
    by (auto simp: votes_of_def peer_known_def peer_up_def)
  then have "can_lead c3 p V"
    using e half lead(1) c1 c2 c3 established by (simp add: can_lead_def electable_def)
  moreover have "peace_to c c3" using p1 runs_to_peace [OF p2] p3 by (blast intro: peace_to_trans)
  ultimately show ?thesis using a c1 c2 c3 lead(2) established(6) by (intro exI [of _ c3]) simp
qed

section \<open>Recovery\<close>

text \<open>
  A cluster the theorem applies to: the run \<open>new_leader\<close>, after which the new leader 1 crashes and starts
  again from its disk. It holds the one committed entry; server 2 has an empty log.
\<close>

definition leader_lost :: "'c \<Rightarrow> 'c event list" where
  "leader_lost x = new_leader x @ [Crash 1]"

lemma leader_lost_run:
  "run_satisfies (leader_lost x) (\<lambda>c. electable c 1 {2} \<and> Log (srv c 2) = [] \<and> length (Log (srv c 1)) = 1 \<and>
     Term (srv c 1) = 2 \<and> length (starts c) = 1)"
  by (simp add: run_satisfies_def elect_0_def lead_0_def new_leader_def leader_lost_def electable_def voter_for_def
      upToDate_def lastLogTerm_def Copy_def ev_Crash_def run_simps cong: step_congs)

text \<open>C5: The cluster recovers. Take any reachable cluster, whatever kills, crashes, losses and elections led
  to it, with a server \<open>p\<close> that is alive and in its follower loop and whose commit and apply indexes lie
  within its log, and with a set of other servers (at least one, so a single server is excluded, and at
  least half of all servers, rounded down) that are alive, not leaders, in their follower loops, in terms
  not ahead of \<open>p\<close> and with logs not more recent than that of \<open>p\<close>. Then there is a run without failures in
  which \<open>p\<close> wins an election of the next term, and then a new call of \<open>Start\<close> is accepted and a calm run
  answers it with the index after its log, the new term and true, commits that index and applies the
  command there.\<close>

theorem cluster_recovers:
  assumes "reachable n c" and "electable c p V" and "finite V"
  shows "\<exists>c1 c2 c3. peace_to c c1 \<and> (p, Term (srv c p) + 1) \<in> elected c1 \<and>
    cstep c1 (ClientStart p x) = Inr c2 \<and> runs_to c2 c3 \<and>
    committed_at c3 p (length (starts c)) (length (Log (srv c p))) x (Term (srv c p) + 1)"
proof -
  obtain c1 where c1: "peace_to c c1" "can_lead c1 p V" "starts c1 = starts c"
    "(p, Term (srv c p) + 1) \<in> elected c1" "Term (srv c1 p) = Term (srv c p) + 1"
    "length (Log (srv c1 p)) = length (Log (srv c p))"
    using leader_emerges [OF assms] by blast
  have "reachable n c1" using assms(1) c1(1) by (rule reachable_peace)
  with call_progress [OF this c1(2) assms(3), of x] c1 show ?thesis by fastforce
qed

theorem cluster_recovers_witness:
  "\<exists>(c :: int cluster) c1 c2 c3. reachable 3 c \<and> Log (srv c 2) = [] \<and> peace_to c c1 \<and> (1, 3) \<in> elected c1 \<and>
     cstep c1 (ClientStart 1 (Some 8)) = Inr c2 \<and> runs_to c2 c3 \<and> committed_at c3 1 1 1 (Some 8) 3"
proof -
  obtain c :: "int cluster" where c: "reachable 3 c" "electable c 1 {2}" "Log (srv c 2) = []"
    "length (Log (srv c 1)) = 1" "Term (srv c 1) = 2" "length (starts c) = 1"
    using run_reachable [OF leader_lost_run [of 7]] by blast
  obtain c1 c2 c3 where "peace_to c c1" "(1, 3) \<in> elected c1" "cstep c1 (ClientStart 1 (Some 8)) = Inr c2"
    "runs_to c2 c3" "committed_at c3 1 1 1 (Some 8) 3"
    using cluster_recovers [OF c(1,2), of "Some 8"] c(4-6) by auto
  with c(1,3) show ?thesis by blast
qed

end
