(* ===== verification/Kv_Server.thy ===== *)
theory Kv_Server
  imports Raft_Server
begin

text \<open>
  The key-value server of \<open>kvraft/server.go\<close>: its operations, the loop that applies what Raft
  delivers, and the RPC handlers \<open>Get\<close> and \<open>PutAppend\<close> as functions of the states they observe under
  the lock. The contract of the replicated state machine is the locale \<open>exactly_once\<close>: a log with
  repeated requests has the effect of the log with every repetition left out.
\<close>

section \<open>Operations and messages\<close>

definition OK :: string where "OK = ''OK''"
definition ErrNoKey :: string where "ErrNoKey = ''ErrNoKey''"
definition ErrWrongLeader :: string where "ErrWrongLeader = ''ErrWrongLeader''"

definition Putt :: string where "Putt = ''Put''"
definition Appendd :: string where "Appendd = ''Append''"
definition Gett :: string where "Gett = ''Get''"

lemma task_names [simp]:
  "Putt \<noteq> Appendd" "Appendd \<noteq> Putt" "Gett \<noteq> Putt" "Putt \<noteq> Gett" "Gett \<noteq> Appendd" "Appendd \<noteq> Gett"
  "OK \<noteq> ErrWrongLeader" "ErrWrongLeader \<noteq> OK" "OK \<noteq> []" "[] \<noteq> OK"
  by (simp_all add: Putt_def Appendd_def Gett_def OK_def ErrWrongLeader_def)

record PutAppendArgs =
  PA_Key :: string
  PA_Value :: string
  PA_Op :: string
  PA_Client :: int
  PA_Id :: int

text \<open>\<open>PutAppendReply\<close> is its error code; the zero reply is the empty string.\<close>

record PutAppendReply =
  PAR_Err :: string

record GetArgs =
  G_Key :: string
  G_Client :: int
  G_Id :: int

record GetReply =
  GR_Err :: string
  GR_Value :: string

record Op =
  OpTask :: string
  Op_Key :: string
  Op_Value :: string
  Op_Client :: int
  Op_Id :: int

definition zero_Op :: Op where
  "zero_Op = \<lparr>OpTask = [], Op_Key = [], Op_Value = [], Op_Client = 0, Op_Id = 0\<rparr>"

section \<open>State\<close>

text \<open>
  \<open>storage\<close> and the two-level \<open>idTable\<close> are maps as in the code. \<open>applyCh\<close> is the number of messages
  of the Raft server's \<open>ApplyChan\<close> that the loop has received.
\<close>

record KVServer =
  kv_me :: int
  Rf :: "Op Raft"
  applyCh :: nat
  kv_dead :: bool
  maxraftstate :: int
  storage :: "string \<rightharpoonup> string"
  idTable :: "int \<rightharpoonup> (int \<rightharpoonup> Op)"

definition StartKVServer :: "int \<Rightarrow> int \<Rightarrow> Op gob_value Persister \<Rightarrow> int \<Rightarrow> KVServer" where
  "StartKVServer servers me ps maxraft =
     \<lparr>kv_me = me, Rf = Make servers me ps, applyCh = 0, kv_dead = False,
      maxraftstate = maxraft, storage = Map.empty, idTable = Map.empty\<rparr>"

definition existId :: "KVServer \<Rightarrow> int \<Rightarrow> int \<Rightarrow> bool" where
  "existId kv ident client =
     (case idTable kv client of
        None \<Rightarrow> False
      | Some t \<Rightarrow> (case t ident of None \<Rightarrow> False | Some _ \<Rightarrow> True))"

definition existKey :: "KVServer \<Rightarrow> string \<Rightarrow> bool" where
  "existKey kv key = (case storage kv key of None \<Rightarrow> False | Some _ \<Rightarrow> True)"

definition isLeader :: "KVServer \<Rightarrow> bool" where
  "isLeader kv = snd (GetState (Rf kv))"

definition KVServer_Kill :: "KVServer \<Rightarrow> KVServer" where
  "KVServer_Kill kv = kv\<lparr>kv_dead := True, Rf := (Rf kv)\<lparr>dead := True\<rparr>\<rparr>"

section \<open>listenApplyCh\<close>

text \<open>The locked region for one operation.\<close>

definition applyOp :: "KVServer \<Rightarrow> Op \<Rightarrow> KVServer" where
  "applyOp kv curOp =
     (let kv1 = (if \<not> existId kv (Op_Id curOp) (Op_Client curOp) then
            if OpTask curOp = Appendd \<and> existKey kv (Op_Key curOp) then
              kv\<lparr>storage := (storage kv)
                (Op_Key curOp \<mapsto> go_get [] (storage kv) (Op_Key curOp) @ Op_Value curOp)\<rparr>
            else if OpTask curOp = Putt \<or> OpTask curOp = Appendd then
              kv\<lparr>storage := (storage kv)(Op_Key curOp \<mapsto> Op_Value curOp)\<rparr>
            else kv
          else kv);
          kv2 = (case idTable kv1 (Op_Client curOp) of
              None \<Rightarrow> kv1\<lparr>idTable := (idTable kv1)(Op_Client curOp \<mapsto> Map.empty)\<rparr>
            | Some _ \<Rightarrow> kv1)
      in kv2\<lparr>idTable := (idTable kv2)
           (Op_Client curOp \<mapsto> (go_get Map.empty (idTable kv2) (Op_Client curOp))(Op_Id curOp \<mapsto> curOp))\<rparr>)"

text \<open>
  The loop on the messages delivered so far: it stops when the server is killed, and panics on a
  message whose command is not an \<open>Op\<close> (a nil command).
\<close>

fun listenApplyCh :: "KVServer \<Rightarrow> Op ApplyMsg list \<Rightarrow> KVServer go" where
  "listenApplyCh kv [] = Inr kv"
| "listenApplyCh kv (applyMessage # rest) =
     (if kv_dead kv then Inr kv
      else (case ApplyMsg_Command applyMessage of
              None \<Rightarrow> Inl Panic
            | Some curOp \<Rightarrow> listenApplyCh ((applyOp kv curOp)\<lparr>applyCh := applyCh kv + 1\<rparr>) rest))"

section \<open>The RPC handlers\<close>

text \<open>
  A handler takes the lock once per test. \<open>obs t\<close> is the state of the server at its \<open>t\<close>-th lock: the
  apply loop may run between any two of them. \<open>Start\<close> answers \<open>started\<close>.
\<close>

definition wrongLeader :: GetReply where
  "wrongLeader = \<lparr>GR_Err = ErrWrongLeader, GR_Value = []\<rparr>"

fun Get_poll :: "nat \<Rightarrow> (nat \<Rightarrow> KVServer) \<Rightarrow> nat \<Rightarrow> GetArgs \<Rightarrow> GetReply" where
  "Get_poll 0 obs t args = wrongLeader"
| "Get_poll (Suc i) obs t args =
     (if existId (obs t) (G_Id args) (G_Client args) then
        if existKey (obs (t + 1)) (G_Key args)
        then \<lparr>GR_Err = OK, GR_Value = go_get [] (storage (obs (t + 2))) (G_Key args)\<rparr>
        else \<lparr>GR_Err = OK, GR_Value = []\<rparr>
      else Get_poll i obs (t + 1) args)"

definition Get_op :: "GetArgs \<Rightarrow> Op" where
  "Get_op args = \<lparr>OpTask = Gett, Op_Key = G_Key args, Op_Value = [], Op_Client = G_Client args,
     Op_Id = G_Id args\<rparr>"

definition Get ::
  "KVServer \<Rightarrow> (Op \<Rightarrow> int \<times> int \<times> bool) \<Rightarrow> (nat \<Rightarrow> KVServer) \<Rightarrow> GetArgs \<Rightarrow> GetReply" where
  "Get kv Start obs args =
     (if isLeader kv then
        (case Start (Get_op args) of (_, _, Success) \<Rightarrow>
          if Success then Get_poll 10 obs 0 args else wrongLeader)
      else wrongLeader)"

fun PutAppend_poll :: "nat \<Rightarrow> (nat \<Rightarrow> KVServer) \<Rightarrow> nat \<Rightarrow> PutAppendArgs \<Rightarrow> PutAppendReply" where
  "PutAppend_poll 0 obs t args = \<lparr>PAR_Err = ErrWrongLeader\<rparr>"
| "PutAppend_poll (Suc i) obs t args =
     (if existId (obs t) (PA_Id args) (PA_Client args) then
        if existKey (obs (t + 1)) (PA_Key args) then \<lparr>PAR_Err = OK\<rparr> else \<lparr>PAR_Err = []\<rparr>
      else PutAppend_poll i obs (t + 1) args)"

definition PutAppend_op :: "PutAppendArgs \<Rightarrow> Op" where
  "PutAppend_op args = \<lparr>OpTask = PA_Op args, Op_Key = PA_Key args, Op_Value = PA_Value args,
     Op_Client = PA_Client args, Op_Id = PA_Id args\<rparr>"

definition PutAppend ::
  "KVServer \<Rightarrow> (Op \<Rightarrow> int \<times> int \<times> bool) \<Rightarrow> (nat \<Rightarrow> KVServer) \<Rightarrow> PutAppendArgs \<Rightarrow> PutAppendReply" where
  "PutAppend kv Start obs args =
     (if isLeader kv then
        (case Start (PutAppend_op args) of (_, _, Success) \<Rightarrow>
          if Success then PutAppend_poll 10 obs 0 args else \<lparr>PAR_Err = ErrWrongLeader\<rparr>)
      else \<lparr>PAR_Err = ErrWrongLeader\<rparr>)"

end
