(* ===== verification/Kv_Machine.thy ===== *)
theory Kv_Machine
  imports Kv_Server
begin

text \<open>
  The correctness of the replicated key-value machine. A log of requests in which retries repeat a
  request has the effect of the log of first occurrences on an abstract map (\<open>exactly_once\<close>, proved in
  a locale and interpreted on \<open>applyOp\<close>), and the handlers answer \<open>OK\<close> only for requests that have
  been applied.
\<close>

section \<open>Machines that skip repeated requests\<close>

text \<open>The requests of a log that are not repetitions, given the identities seen before.\<close>

fun first_requests :: "('op \<Rightarrow> 'id) \<Rightarrow> 'id set \<Rightarrow> 'op list \<Rightarrow> 'op list" where
  "first_requests ident S [] = []"
| "first_requests ident S (r # rs) =
     (if ident r \<in> S then first_requests ident S rs
      else r # first_requests ident (insert (ident r) S) rs)"

lemma first_requests_cong: "S = T \<Longrightarrow> first_requests ident S rs = first_requests ident T rs"
  by simp

lemma first_requests_append:
  "first_requests ident S (xs @ ys) =
     first_requests ident S xs @ first_requests ident (S \<union> ident ` set xs) ys"
  by (induction xs arbitrary: S) (auto simp: insert_absorb)

lemma set_first_requests: "set (first_requests ident S rs) \<subseteq> set rs"
  by (induction rs arbitrary: S) auto

lemma distinct_first_requests:
  "distinct (map ident (first_requests ident S rs)) \<and>
     ident ` set (first_requests ident S rs) = ident ` set rs - S"
  by (induction rs arbitrary: S) auto

locale exactly_once =
  fixes step :: "'srv \<Rightarrow> 'op \<Rightarrow> 'srv"
    and seen :: "'srv \<Rightarrow> 'id set"
    and value_of :: "'srv \<Rightarrow> 'st"
    and ident :: "'op \<Rightarrow> 'id"
    and exec :: "'op \<Rightarrow> 'st \<Rightarrow> 'st"
  assumes value_step: "value_of (step s r) = (if ident r \<in> seen s then value_of s else exec r (value_of s))"
    and seen_step: "seen (step s r) = insert (ident r) (seen s)"
begin

lemma seen_run: "seen (foldl step s rs) = seen s \<union> ident ` set rs"
  by (induction rs arbitrary: s) (auto simp: seen_step)

theorem value_run:
  "value_of (foldl step s rs) = foldl (\<lambda>st r. exec r st) (value_of s) (first_requests ident (seen s) rs)"
  by (induction rs arbitrary: s) (auto simp: seen_step value_step insert_absorb)

text \<open>A repetition anywhere later in the log changes nothing.\<close>

lemma repetition_skipped:
  assumes "ident r \<in> ident ` set xs"
  shows "value_of (foldl step s (xs @ r # ys)) = value_of (foldl step s (xs @ ys))"
proof -
  have "ident r \<in> seen s \<union> ident ` set xs" using assms by simp
  then show ?thesis by (simp only: value_run first_requests_append) simp
qed

text \<open>Two servers that ran logs with the same first occurrences agree.\<close>

lemma same_requests_same_value:
  assumes "seen s = seen s'" and "value_of s = value_of s'"
    and "first_requests ident (seen s) xs = first_requests ident (seen s) ys"
  shows "value_of (foldl step s xs) = value_of (foldl step s' ys)"
  using assms by (simp add: value_run)

end

section \<open>The key-value machine\<close>

definition request_id :: "Op \<Rightarrow> int \<times> int" where
  "request_id r = (Op_Client r, Op_Id r)"

definition ids :: "KVServer \<Rightarrow> (int \<times> int) set" where
  "ids kv = {(c, i). existId kv i c}"

text \<open>The abstract effect of one request on the map the clients see.\<close>

definition exec_op :: "Op \<Rightarrow> (string \<rightharpoonup> string) \<Rightarrow> (string \<rightharpoonup> string)" where
  "exec_op r m =
     (if OpTask r = Putt then m(Op_Key r \<mapsto> Op_Value r)
      else if OpTask r = Appendd then m(Op_Key r \<mapsto> go_get [] m (Op_Key r) @ Op_Value r)
      else m)"

lemma existId_iff: "existId kv i c \<longleftrightarrow> (\<exists>t op. idTable kv c = Some t \<and> t i = Some op)"
  by (auto simp: existId_def split: option.splits)

lemma existKey_iff: "existKey kv k \<longleftrightarrow> k \<in> dom (storage kv)"
  by (auto simp: existKey_def split: option.splits)

lemma go_get_missing: "m k = None \<Longrightarrow> go_get d m k = d"
  by (simp add: go_get_def)

lemma storage_applyOp:
  "storage (applyOp kv r) = (if request_id r \<in> ids kv then storage kv else exec_op r (storage kv))"
  by (auto simp: applyOp_def Let_def request_id_def ids_def exec_op_def existKey_iff go_get_missing
      split: option.splits)

lemma existId_applyOp:
  "existId (applyOp kv r) i c \<longleftrightarrow> (i, c) = (Op_Id r, Op_Client r) \<or> existId kv i c"
  by (auto simp: applyOp_def Let_def existId_def go_get_def split: option.splits)

lemma ids_applyOp: "ids (applyOp kv r) = insert (request_id r) (ids kv)"
  by (auto simp: ids_def existId_applyOp request_id_def)

interpretation kv: exactly_once applyOp ids storage request_id exec_op
  by unfold_locales (simp_all add: storage_applyOp ids_applyOp)

section \<open>The apply loop\<close>

lemma applyOp_frame [simp]:
  "kv_dead (applyOp kv r) = kv_dead kv" "Rf (applyOp kv r) = Rf kv" "applyCh (applyOp kv r) = applyCh kv"
  by (simp_all add: applyOp_def Let_def split: option.splits)

lemma applyOp_applyCh: "applyOp (kv\<lparr>applyCh := n\<rparr>) r = (applyOp kv r)\<lparr>applyCh := n\<rparr>"
  by (simp add: applyOp_def existId_def existKey_def Let_def split: option.splits)

lemma foldl_applyOp_applyCh:
  "foldl applyOp (kv\<lparr>applyCh := n\<rparr>) rs = (foldl applyOp kv rs)\<lparr>applyCh := n\<rparr>"
  by (induction rs arbitrary: kv) (simp_all add: applyOp_applyCh)

lemma listenApplyCh_run:
  assumes "\<not> kv_dead kv" and "map ApplyMsg_Command msgs = map Some rs"
  shows "listenApplyCh kv msgs =
    Inr ((foldl applyOp kv rs)\<lparr>applyCh := applyCh kv + length rs\<rparr>)"
  using assms
proof (induction msgs arbitrary: kv rs)
  case Nil
  then show ?case by simp
next
  case (Cons m msgs)
  then obtain r rs' where "rs = r # rs'" and "ApplyMsg_Command m = Some r"
    and "map ApplyMsg_Command msgs = map Some rs'" by (cases rs) auto
  with Cons show ?case by (simp add: foldl_applyOp_applyCh)
qed

lemma foldl_applyOp_dead [simp]: "kv_dead (foldl applyOp kv rs) = kv_dead kv"
  by (induction rs arbitrary: kv) simp_all

section \<open>What the loop only adds\<close>

definition kv_grows :: "KVServer \<Rightarrow> KVServer \<Rightarrow> bool" where
  "kv_grows kv kv' \<longleftrightarrow> ids kv \<subseteq> ids kv' \<and> dom (storage kv) \<subseteq> dom (storage kv')"

lemma dom_exec_op: "dom m \<subseteq> dom (exec_op r m)"
  by (auto simp: exec_op_def)

lemma kv_grows_applyOp: "kv_grows kv (applyOp kv r)"
  using dom_exec_op by (auto simp: kv_grows_def ids_applyOp storage_applyOp)

lemma kv_grows_run: "kv_grows kv (foldl applyOp kv rs)"
proof (induction rs rule: rev_induct)
  case Nil
  then show ?case by (simp add: kv_grows_def)
next
  case (snoc r rs)
  then show ?case using kv_grows_applyOp [of "foldl applyOp kv rs" r]
    by (simp add: kv_grows_def) blast
qed

end
