(* ===== verification/Kv_Properties.thy ===== *)
theory Kv_Properties
  imports Kv_Machine
begin

text \<open>
  The properties of the key-value server: exactly-once application of requests, what the RPC handlers
  promise when they answer \<open>OK\<close>, and when they do.
\<close>

section \<open>Exactly once\<close>

definition fresh_kv :: KVServer where
  "fresh_kv = StartKVServer 3 0 MakePersister (-1)"

lemma StartKVServer_empty [simp]:
  "storage (StartKVServer n m ps mr) = Map.empty" "ids (StartKVServer n m ps mr) = {}"
  "\<not> kv_dead (StartKVServer n m ps mr)" "applyCh (StartKVServer n m ps mr) = 0"
  by (simp_all add: StartKVServer_def ids_def existId_def)

text \<open>C10: Exactly-once semantics: after the loop has consumed any sequence of delivered operations, in
  which clients' retries may repeat a request any number of times, the storage is the result of
  executing each request once, at its first occurrence, on an empty map, and \<open>idTable\<close> holds exactly
  the requests consumed.\<close>

theorem apply_loop_exactly_once:
  assumes "map ApplyMsg_Command msgs = map Some rs"
  shows "\<exists>kv'. listenApplyCh (StartKVServer n m ps mr) msgs = Inr kv' \<and>
    storage kv' = foldl (\<lambda>st r. exec_op r st) Map.empty (first_requests request_id {} rs) \<and>
    ids kv' = request_id ` set rs \<and> applyCh kv' = length rs"
proof -
  let ?kv = "StartKVServer n m ps mr"
  have "listenApplyCh ?kv msgs = Inr ((foldl applyOp ?kv rs)\<lparr>applyCh := applyCh ?kv + length rs\<rparr>)"
    using assms by (intro listenApplyCh_run) simp_all
  moreover have "ids (kv\<lparr>applyCh := k\<rparr>) = ids kv" for kv k by (simp add: ids_def existId_def)
  ultimately show ?thesis
    using kv.value_run [of ?kv rs] kv.seen_run [of ?kv rs] by simp
qed

definition append_a :: Op where
  "append_a = \<lparr>OpTask = Appendd, Op_Key = ''k'', Op_Value = ''a'', Op_Client = 1, Op_Id = 1\<rparr>"

definition append_b :: Op where
  "append_b = \<lparr>OpTask = Appendd, Op_Key = ''k'', Op_Value = ''b'', Op_Client = 1, Op_Id = 2\<rparr>"

definition msg_of :: "Op \<Rightarrow> int \<Rightarrow> Op ApplyMsg" where
  "msg_of r i = \<lparr>ApplyMsg_Command = Some r, ApplyMsg_CommandValid = True, ApplyMsg_CommandIndex = i\<rparr>"

text \<open>The request \<open>append_a\<close> is delivered twice.\<close>

theorem apply_loop_exactly_once_witness:
  "\<exists>kv'. listenApplyCh fresh_kv [msg_of append_a 1, msg_of append_b 2, msg_of append_a 3] = Inr kv' \<and>
     storage kv' ''k'' = Some ''ab''"
proof -
  have "foldl (\<lambda>st r. exec_op r st) Map.empty
      (first_requests request_id {} [append_a, append_b, append_a]) ''k'' = Some ''ab''"
    by code_simp
  then show ?thesis
    using apply_loop_exactly_once
      [of "[msg_of append_a 1, msg_of append_b 2, msg_of append_a 3]" "[append_a, append_b, append_a]"
        3 0 MakePersister "-1"]
    by (auto simp: fresh_kv_def msg_of_def)
qed

text \<open>A retry is harmless: a request that repeats one consumed earlier leaves the storage as it would
  be without it, whatever is delivered before, between and after.\<close>

theorem retry_is_harmless:
  assumes "request_id r \<in> request_id ` set before"
  shows "storage (foldl applyOp kv (before @ r # after)) = storage (foldl applyOp kv (before @ after))"
  using kv.repetition_skipped [OF assms] .

theorem retry_is_harmless_witness:
  "storage (foldl applyOp fresh_kv ([append_a] @ append_a # [append_b])) =
     storage (foldl applyOp fresh_kv ([append_a] @ [append_b]))"
proof (rule retry_is_harmless)
  show "request_id append_a \<in> request_id ` set [append_a]" by simp
qed

section \<open>The RPC handlers\<close>

text \<open>
  \<open>observes kv rs n obs\<close>: at its \<open>t\<close>-th lock the handler finds the server as it is after the first
  \<open>n t\<close> operations of \<open>rs\<close>; \<open>n\<close> does not decrease.
\<close>

definition observes :: "KVServer \<Rightarrow> Op list \<Rightarrow> (nat \<Rightarrow> nat) \<Rightarrow> (nat \<Rightarrow> KVServer) \<Rightarrow> bool" where
  "observes kv rs n obs \<longleftrightarrow> mono n \<and> (\<forall>t. n t \<le> length rs \<and>
     storage (obs t) = storage (foldl applyOp kv (take (n t) rs)) \<and>
     idTable (obs t) = idTable (foldl applyOp kv (take (n t) rs)))"

lemma existId_ids: "existId kv i c \<longleftrightarrow> (c, i) \<in> ids kv"
  by (simp add: ids_def)

lemma observes_existId:
  "observes kv rs n obs \<Longrightarrow> existId (obs t) i c \<longleftrightarrow> (c, i) \<in> ids kv \<union> request_id ` set (take (n t) rs)"
  using kv.seen_run [of kv "take (n t) rs"]
  by (simp add: observes_def existId_def ids_def set_eq_iff split: option.splits)

lemma observes_mono: "observes kv rs n obs \<Longrightarrow> t \<le> t' \<Longrightarrow> n t \<le> n t'"
  by (auto simp: observes_def dest: monoD)

lemma Get_poll_cases:
  "Get_poll i obs t args = wrongLeader \<and> (\<forall>j < i. \<not> existId (obs (t + j)) (G_Id args) (G_Client args)) \<or>
   (\<exists>j < i. existId (obs (t + j)) (G_Id args) (G_Client args) \<and> GR_Err (Get_poll i obs t args) = OK \<and>
     GR_Value (Get_poll i obs t args) = (if existKey (obs (t + j + 1)) (G_Key args)
       then go_get [] (storage (obs (t + j + 2))) (G_Key args) else []))"
proof (induction i arbitrary: t)
  case 0
  then show ?case by simp
next
  case (Suc i)
  show ?case
  proof (cases "existId (obs t) (G_Id args) (G_Client args)")
    case True
    then show ?thesis by (intro disjI2 exI [of _ 0]) simp
  next
    case False
    have all: "(\<forall>j < Suc i. P j) \<longleftrightarrow> P 0 \<and> (\<forall>j < i. P (Suc j))" for P
      by (auto simp: less_Suc_eq_0_disj)
    from Suc [of "t + 1"] show ?thesis
    proof (elim disjE conjE exE)
      fix j assume "j < i" and "existId (obs (t + 1 + j)) (G_Id args) (G_Client args)"
        and "GR_Err (Get_poll i obs (t + 1) args) = OK"
        and "GR_Value (Get_poll i obs (t + 1) args) = (if existKey (obs (t + 1 + j + 1)) (G_Key args)
          then go_get [] (storage (obs (t + 1 + j + 2))) (G_Key args) else [])"
      with False show ?thesis by (intro disjI2 exI [of _ "Suc j"]) simp
    qed (use False all in simp)
  qed
qed

text \<open>C22: When \<open>Get\<close> answers \<open>OK\<close>, its own request has been applied, and the value is that of the key
  after some prefix of the applied operations that contains the request (empty if the key is
  missing): the answer is the abstract map's at a point after the request took effect.\<close>

theorem Get_answers_applied_state:
  assumes obs: "observes kv rs n obs" and new: "request_id (Get_op args) \<notin> ids kv"
    and ok: "GR_Err (Get kv0 Start obs args) = OK"
  shows "\<exists>k \<le> length rs. request_id (Get_op args) \<in> request_id ` set (take k rs) \<and>
    GR_Value (Get kv0 Start obs args) =
      go_get [] (foldl (\<lambda>st r. exec_op r st) (storage kv)
        (first_requests request_id (ids kv) (take k rs))) (G_Key args)"
proof -
  have g: "Get kv0 Start obs args = Get_poll 10 obs 0 args"
    using ok by (auto simp: Get_def wrongLeader_def split: prod.splits if_splits)
  then obtain j where j: "existId (obs j) (G_Id args) (G_Client args)"
    and v: "GR_Value (Get kv0 Start obs args) = (if existKey (obs (j + 1)) (G_Key args)
       then go_get [] (storage (obs (j + 2))) (G_Key args) else [])"
    using Get_poll_cases [of 10 obs 0 args] ok by (auto simp: wrongLeader_def)
  define k where "k = (if existKey (obs (j + 1)) (G_Key args) then n (j + 2) else n (j + 1))"
  have "n j \<le> k" using observes_mono [OF obs] by (simp add: k_def)
  moreover have "request_id (Get_op args) \<in> request_id ` set (take (n j) rs)"
    using j new by (simp add: observes_existId [OF obs] request_id_def Get_op_def)
  ultimately have "request_id (Get_op args) \<in> request_id ` set (take k rs)"
    by (meson image_mono set_take_subset_set_take subsetD)
  moreover have "k \<le> length rs" using obs by (simp add: k_def observes_def)
  moreover have "GR_Value (Get kv0 Start obs args) =
      go_get [] (storage (foldl applyOp kv (take k rs))) (G_Key args)"
    using v obs by (auto simp: k_def observes_def existKey_def go_get_def split: option.splits)
  ultimately show ?thesis by (intro exI [of _ k]) (simp add: kv.value_run)
qed

definition get_k :: GetArgs where
  "get_k = \<lparr>G_Key = ''k'', G_Client = 2, G_Id = 9\<rparr>"

definition leading_kv :: KVServer where
  "leading_kv = fresh_kv\<lparr>Rf := setLeader (Rf fresh_kv)\<rparr>"

definition after_ops :: "Op list \<Rightarrow> nat \<Rightarrow> nat \<Rightarrow> KVServer" where
  "after_ops rs d t = foldl applyOp fresh_kv (take (if t < d then 0 else length rs) rs)"

lemma observes_after_ops: "observes fresh_kv rs (\<lambda>t. if t < d then 0 else length rs) (after_ops rs d)"
  by (auto simp: observes_def after_ops_def mono_def)

theorem Get_answers_applied_state_witness:
  "\<exists>k \<le> length [append_a, Get_op get_k]. GR_Value (Get leading_kv (\<lambda>_. (1, 1, True)) (after_ops [append_a, Get_op get_k] 1) get_k) =
     go_get [] (foldl (\<lambda>st r. exec_op r st) (storage fresh_kv)
       (first_requests request_id (ids fresh_kv) (take k [append_a, Get_op get_k]))) (G_Key get_k)"
proof -
  have "GR_Err (Get leading_kv (\<lambda>_. (1, 1, True)) (after_ops [append_a, Get_op get_k] 1) get_k) = OK"
    by code_simp
  moreover have "request_id (Get_op get_k) \<notin> ids fresh_kv" by (simp add: fresh_kv_def)
  ultimately show ?thesis using Get_answers_applied_state [OF observes_after_ops] by blast
qed

lemma PutAppend_poll_cases:
  "PutAppend_poll i obs t args = \<lparr>PAR_Err = ErrWrongLeader\<rparr> \<and>
     (\<forall>j < i. \<not> existId (obs (t + j)) (PA_Id args) (PA_Client args)) \<or>
   (\<exists>j < i. existId (obs (t + j)) (PA_Id args) (PA_Client args) \<and> PutAppend_poll i obs t args =
     (if existKey (obs (t + j + 1)) (PA_Key args) then \<lparr>PAR_Err = OK\<rparr> else \<lparr>PAR_Err = []\<rparr>))"
proof (induction i arbitrary: t)
  case 0
  then show ?case by simp
next
  case (Suc i)
  show ?case
  proof (cases "existId (obs t) (PA_Id args) (PA_Client args)")
    case True
    then show ?thesis by (intro disjI2 exI [of _ 0]) simp
  next
    case False
    have all: "(\<forall>j < Suc i. P j) \<longleftrightarrow> P 0 \<and> (\<forall>j < i. P (Suc j))" for P
      by (auto simp: less_Suc_eq_0_disj)
    from Suc [of "t + 1"] show ?thesis
    proof (elim disjE conjE exE)
      fix j assume "j < i" and "existId (obs (t + 1 + j)) (PA_Id args) (PA_Client args)"
        and "PutAppend_poll i obs (t + 1) args =
          (if existKey (obs (t + 1 + j + 1)) (PA_Key args) then \<lparr>PAR_Err = OK\<rparr> else \<lparr>PAR_Err = []\<rparr>)"
      with False show ?thesis by (intro disjI2 exI [of _ "Suc j"]) simp
    qed (use False all in simp)
  qed
qed

lemma dom_foldl_exec_op:
  "dom m \<subseteq> dom (foldl (\<lambda>st r. exec_op r st) m xs) \<and>
   (\<forall>r \<in> set xs. OpTask r \<in> {Putt, Appendd} \<longrightarrow> Op_Key r \<in> dom (foldl (\<lambda>st r. exec_op r st) m xs))"
proof (induction xs arbitrary: m)
  case Nil
  then show ?case by simp
next
  case (Cons x xs)
  have "OpTask x \<in> {Putt, Appendd} \<Longrightarrow> Op_Key x \<in> dom (exec_op x m)" by (auto simp: exec_op_def)
  with Cons [of "exec_op x m"] dom_exec_op [of m x] show ?case
    unfolding foldl_Cons list.set by blast
qed

lemma applied_key_exists:
  assumes "request_id r \<in> request_id ` set rs" and "request_id r \<notin> ids kv"
    and "\<And>r'. r' \<in> set rs \<Longrightarrow> request_id r' = request_id r \<Longrightarrow>
      OpTask r' \<in> {Putt, Appendd} \<and> Op_Key r' = Op_Key r"
  shows "Op_Key r \<in> dom (storage (foldl applyOp kv rs))"
proof -
  have "request_id r \<in> request_id ` set (first_requests request_id (ids kv) rs)"
    using distinct_first_requests [of request_id "ids kv" rs] assms(1,2) by auto
  then obtain r' where r': "r' \<in> set (first_requests request_id (ids kv) rs)"
    and "request_id r' = request_id r" by auto
  moreover have "r' \<in> set rs" using r' set_first_requests by fast
  ultimately have "OpTask r' \<in> {Putt, Appendd}" and "Op_Key r' = Op_Key r" using assms(3) by auto
  with r' dom_foldl_exec_op [of "storage kv"] show ?thesis unfolding kv.value_run by fastforce
qed

text \<open>\<open>PutAppend\<close> of a put or an append answers \<open>OK\<close> or \<open>ErrWrongLeader\<close>, never the empty error of its
  missing-key branch; when it answers \<open>OK\<close> its request is among the applied ones and the key exists.\<close>

theorem PutAppend_acknowledges_applied:
  assumes obs: "observes kv rs n obs" and new: "request_id (PutAppend_op args) \<notin> ids kv"
    and task: "PA_Op args \<in> {Putt, Appendd}"
    and own: "\<And>r. r \<in> set rs \<Longrightarrow> request_id r = request_id (PutAppend_op args) \<Longrightarrow> r = PutAppend_op args"
  shows "PAR_Err (PutAppend kv0 Start obs args) \<in> {OK, ErrWrongLeader} \<and>
    (PAR_Err (PutAppend kv0 Start obs args) = OK \<longrightarrow>
      (\<exists>k \<le> length rs. PutAppend_op args \<in> set (take k rs) \<and>
        PA_Key args \<in> dom (storage (foldl applyOp kv (take k rs)))))"
proof (cases "PutAppend kv0 Start obs args = \<lparr>PAR_Err = ErrWrongLeader\<rparr>")
  case True
  then show ?thesis by simp
next
  case False
  then have "PutAppend kv0 Start obs args = PutAppend_poll 10 obs 0 args"
    by (auto simp: PutAppend_def split: prod.splits if_splits)
  then obtain j where j: "existId (obs j) (PA_Id args) (PA_Client args)"
    and r: "PutAppend kv0 Start obs args =
      (if existKey (obs (j + 1)) (PA_Key args) then \<lparr>PAR_Err = OK\<rparr> else \<lparr>PAR_Err = []\<rparr>)"
    using PutAppend_poll_cases [of 10 obs 0 args] False by auto
  let ?r = "PutAppend_op args" and ?k = "n (j + 1)"
  have sub: "set (take ?k rs) \<subseteq> set rs" by (rule set_take_subset)
  have "request_id ?r \<in> request_id ` set (take (n j) rs)"
    using j new by (simp add: observes_existId [OF obs] request_id_def PutAppend_op_def)
  then have id: "request_id ?r \<in> request_id ` set (take ?k rs)"
    using observes_mono [OF obs, of j "j + 1"] set_take_subset_set_take [of "n j" ?k rs] by auto
  have "Op_Key ?r \<in> dom (storage (foldl applyOp kv (take ?k rs)))"
  proof (rule applied_key_exists [OF id new])
    fix r' assume "r' \<in> set (take ?k rs)" and "request_id r' = request_id ?r"
    then have "r' = ?r" using own sub by blast
    with task show "OpTask r' \<in> {Putt, Appendd} \<and> Op_Key r' = Op_Key ?r" by (simp add: PutAppend_op_def)
  qed
  then have key: "PA_Key args \<in> dom (storage (foldl applyOp kv (take ?k rs)))"
    by (simp add: PutAppend_op_def)
  then have "existKey (obs (j + 1)) (PA_Key args)" using obs by (simp add: observes_def existKey_iff)
  moreover from id obtain r' where "r' \<in> set (take ?k rs)" "request_id r' = request_id ?r" by auto
  with own sub have "?r \<in> set (take ?k rs)" by blast
  moreover have "?k \<le> length rs" using obs by (simp add: observes_def)
  ultimately show ?thesis using r key by auto
qed

definition put_k :: PutAppendArgs where
  "put_k = \<lparr>PA_Key = ''k'', PA_Value = ''v'', PA_Op = Putt, PA_Client = 2, PA_Id = 9\<rparr>"

theorem PutAppend_acknowledges_applied_witness:
  "PAR_Err (PutAppend leading_kv (\<lambda>_. (1, 1, True)) (after_ops [append_a, PutAppend_op put_k] 1) put_k) = OK \<and>
   (\<exists>k \<le> length [append_a, PutAppend_op put_k]. PA_Key put_k \<in> dom (storage (foldl applyOp fresh_kv (take k [append_a, PutAppend_op put_k]))))"
proof -
  let ?rs = "[append_a, PutAppend_op put_k]"
  have ok: "PAR_Err (PutAppend leading_kv (\<lambda>_. (1, 1, True)) (after_ops ?rs 1) put_k) = OK"
    by code_simp
  have "request_id (PutAppend_op put_k) \<notin> ids fresh_kv" by (simp add: fresh_kv_def)
  moreover have "PA_Op put_k \<in> {Putt, Appendd}" by (simp add: put_k_def)
  moreover have "r = PutAppend_op put_k"
    if "r \<in> set ?rs" "request_id r = request_id (PutAppend_op put_k)" for r
    using that by (auto simp: request_id_def append_a_def PutAppend_op_def put_k_def)
  ultimately have "\<exists>k \<le> length ?rs. PutAppend_op put_k \<in> set (take k ?rs) \<and>
      PA_Key put_k \<in> dom (storage (foldl applyOp fresh_kv (take k ?rs)))"
    using PutAppend_acknowledges_applied [OF observes_after_ops, of put_k ?rs] ok by blast
  with ok show ?thesis by blast
qed

text \<open>The polls of \<open>PutAppend\<close>: the first one that finds the request decides.\<close>

lemma PutAppend_poll_result:
  "PAR_Err (PutAppend_poll n obs s args) =
     (if \<exists>t < n. existId (obs (s + t)) (PA_Id args) (PA_Client args)
      then if existKey (obs (s + Suc (LEAST t. existId (obs (s + t)) (PA_Id args) (PA_Client args)))) (PA_Key args)
        then OK else []
      else ErrWrongLeader)"
proof (induction n arbitrary: s)
  case (Suc n)
  let ?P = "\<lambda>t. existId (obs (s + t)) (PA_Id args) (PA_Client args)"
  show ?case
  proof (cases "?P 0")
    case True
    then have "(LEAST t. ?P t) = 0" "\<exists>t < Suc n. ?P t" by (auto intro: Least_equality)
    with True show ?thesis by simp
  next
    case False
    have ex: "(\<exists>t < Suc n. ?P t) \<longleftrightarrow> (\<exists>t < n. existId (obs (Suc s + t)) (PA_Id args) (PA_Client args))"
      using False by (simp add: Ex_less_Suc2)
    have "(LEAST t. ?P t) = Suc (LEAST t. ?P (Suc t))" if "\<exists>t < Suc n. ?P t"
      using that False Least_Suc [of ?P] by blast
    with False Suc.IH [of "Suc s"] show ?thesis unfolding ex by auto
  qed
qed simp

text \<open>C29: What \<open>Get\<close> and \<open>PutAppend\<close> answer, whatever the apply loop does between their locks. \<open>Get\<close> answers
  \<open>OK\<close> exactly when the server leads at the start, Raft accepted the command, and the request has been
  applied at one of the ten polls, and \<open>ErrWrongLeader\<close> with no value otherwise. Under the same
  condition \<open>PutAppend\<close> answers \<open>OK\<close> when the key exists at the test after the first poll that finds the
  request, and an empty error when it does not; otherwise it answers \<open>ErrWrongLeader\<close>.\<close>

theorem handlers_answer_iff_applied_in_time:
  "(if isLeader kv \<and> snd (snd (Start (Get_op args))) \<and> (\<exists>t < 10. existId (obs t) (G_Id args) (G_Client args))
    then GR_Err (Get kv Start obs args) = OK
    else Get kv Start obs args = \<lparr>GR_Err = ErrWrongLeader, GR_Value = []\<rparr>) \<and>
   PAR_Err (PutAppend kv Start obs pargs) =
     (if isLeader kv \<and> snd (snd (Start (PutAppend_op pargs))) \<and>
         (\<exists>t < 10. existId (obs t) (PA_Id pargs) (PA_Client pargs))
      then if existKey (obs (Suc (LEAST t. existId (obs t) (PA_Id pargs) (PA_Client pargs)))) (PA_Key pargs)
        then OK else []
      else ErrWrongLeader)"
proof
  have "if \<exists>t < 10. existId (obs t) (G_Id args) (G_Client args) then GR_Err (Get_poll 10 obs 0 args) = OK
      else Get_poll 10 obs 0 args = wrongLeader"
    using Get_poll_cases [of 10 obs 0 args] by (auto simp: wrongLeader_def)
  then show "if isLeader kv \<and> snd (snd (Start (Get_op args))) \<and>
        (\<exists>t < 10. existId (obs t) (G_Id args) (G_Client args))
      then GR_Err (Get kv Start obs args) = OK
      else Get kv Start obs args = \<lparr>GR_Err = ErrWrongLeader, GR_Value = []\<rparr>"
    by (auto simp: Get_def wrongLeader_def split: prod.splits if_splits)
qed (use PutAppend_poll_result [of 10 obs 0 pargs] in \<open>auto simp: PutAppend_def split: prod.splits\<close>)

end
