(* ===== verification/Go_Text.thy ===== *)
theory Go_Text
  imports Go_Prelude "HOL-Library.Sublist"
begin

text \<open>
  What the console and the command-line runners use of the libraries \<open>fmt\<close>, \<open>strings\<close> and \<open>unicode\<close>:
  words of a text, scanning one word from the standard input, substrings, and printing. A text is a
  list of characters of the first 256 code points.
\<close>

section \<open>Words\<close>

text \<open>\<open>unicode.IsSpace\<close> on those code points.\<close>

definition is_space :: "char \<Rightarrow> bool" where
  "is_space ch \<longleftrightarrow> (of_char ch :: nat) \<in> {9, 10, 11, 12, 13, 32, 133, 160}"

text \<open>\<open>strings.FieldsFunc(s, unicode.IsSpace)\<close>, with the characters of the word in hand, last one first.\<close>

fun fields_loop :: "string \<Rightarrow> string \<Rightarrow> string list" where
  "fields_loop w [] = (if w = [] then [] else [rev w])"
| "fields_loop w (ch # s) =
     (if is_space ch then (if w = [] then fields_loop [] s else rev w # fields_loop [] s)
      else fields_loop (ch # w) s)"

definition text_fields :: "string \<Rightarrow> string list" where
  "text_fields s = fields_loop [] s"

text \<open>\<open>fmt.Scan(&s)\<close>: the next word and what is left. At the end of the input the variable keeps its value,
  the empty string, and the error is ignored.\<close>

definition scan :: "string \<Rightarrow> string \<times> string" where
  "scan s = (let t = dropWhile is_space s in
     (takeWhile (\<lambda>ch. \<not> is_space ch) t, dropWhile (\<lambda>ch. \<not> is_space ch) t))"

text \<open>\<open>strings.Contains(s, sub)\<close>.\<close>

fun str_contains :: "string \<Rightarrow> string \<Rightarrow> bool" where
  "str_contains [] sub = (sub = [])"
| "str_contains (ch # s) sub = (take (length sub) (ch # s) = sub \<or> str_contains s sub)"

section \<open>Printing\<close>

fun show_nat :: "nat \<Rightarrow> string" where
  "show_nat n = (if n < 10 then [char_of (48 + n)] else show_nat (n div 10) @ [char_of (48 + n mod 10)])"

declare show_nat.simps [simp del]

definition show_int :: "int \<Rightarrow> string" where
  "show_int i = (if i < 0 then ''-'' @ show_nat (nat (- i)) else show_nat (nat i))"

text \<open>\<open>fmt.Println\<close> puts a space between all operands and ends the line.\<close>

definition newline :: string where
  "newline = [CHR 0x0A]"

definition unwords :: "string list \<Rightarrow> string" where
  "unwords ws = concat (case ws of [] \<Rightarrow> [] | w # ws \<Rightarrow> w # map (\<lambda>v. '' '' @ v) ws)"

definition println :: "string list \<Rightarrow> string" where
  "println ws = unwords ws @ newline"

section \<open>Laws\<close>

text \<open>A word is not empty and has no space; what follows a word is the end or starts with a space.\<close>

definition word_text :: "string \<Rightarrow> bool" where
  "word_text w \<longleftrightarrow> w \<noteq> [] \<and> list_all (\<lambda>ch. \<not> is_space ch) w"

definition word_end :: "string \<Rightarrow> bool" where
  "word_end s \<longleftrightarrow> (case s of [] \<Rightarrow> True | ch # _ \<Rightarrow> is_space ch)"

lemma is_space_newline [simp]: "is_space (CHR 0x0A)"
  by (simp add: is_space_def)

lemma is_space_blank [simp]: "is_space (CHR '' '')"
  by (simp add: is_space_def)

lemma word_end_simps [simp]: "word_end []" "word_end (ch # s) = is_space ch"
  by (simp_all add: word_end_def)

lemma fields_loop_word:
  assumes "list_all (\<lambda>ch. \<not> is_space ch) w" and "word_end s" and "v @ w \<noteq> []"
  shows "fields_loop v (w @ s) = (rev v @ w) # fields_loop [] s"
  using assms
proof (induction w arbitrary: v)
  case Nil
  then show ?case by (cases s) auto
qed simp

lemma text_fields_word:
  "word_text w \<Longrightarrow> word_end s \<Longrightarrow> text_fields (w @ s) = w # text_fields s"
  using fields_loop_word [of w s "[]"] by (simp add: text_fields_def word_text_def)

lemma text_fields_simps [simp]:
  "text_fields [] = []" "is_space ch \<Longrightarrow> text_fields (ch # s) = text_fields s"
  by (simp_all add: text_fields_def)

lemma scan_space [simp]: "is_space ch \<Longrightarrow> scan (ch # s) = scan s"
  by (simp add: scan_def)

lemma scan_word:
  assumes "word_text w" and "word_end s"
  shows "scan (w @ s) = (w, s)"
proof -
  obtain ch w' where w: "w = ch # w'" and ch: "\<not> is_space ch" using assms(1) by (cases w) (auto simp: word_text_def)
  have "takeWhile (\<lambda>ch. \<not> is_space ch) s = [] \<and> dropWhile (\<lambda>ch. \<not> is_space ch) s = s"
    using assms(2) by (cases s) auto
  with assms(1) show ?thesis
    by (simp add: scan_def Let_def w ch word_text_def list_all_iff)
qed

lemma scan_end [simp]: "scan [] = ([], [])"
  by (simp add: scan_def)

lemma word_end_dropWhile: "word_end (dropWhile (\<lambda>ch. \<not> is_space ch) s)"
  by (induction s) auto

lemma scan_fields: "text_fields s = (if fst (scan s) = [] then [] else fst (scan s) # text_fields (snd (scan s)))"
proof (induction s)
  case (Cons ch s)
  show ?case
  proof (cases "is_space ch")
    case False
    let ?w = "takeWhile (\<lambda>ch. \<not> is_space ch) (ch # s)" and ?r = "dropWhile (\<lambda>ch. \<not> is_space ch) (ch # s)"
    have "word_text ?w" using False by (auto simp: word_text_def list_all_iff dest: set_takeWhileD)
    moreover have "word_end ?r" by (rule word_end_dropWhile)
    ultimately have "text_fields (?w @ ?r) = ?w # text_fields ?r" by (rule text_fields_word)
    moreover have "scan (ch # s) = (?w, ?r)" using False by (simp add: scan_def)
    ultimately show ?thesis using False by simp
  qed (use Cons in simp)
qed simp

lemma scan_idle: "fst (scan s) = [] \<Longrightarrow> snd (scan s) = []"
proof (induction s)
  case (Cons ch s)
  then show ?case by (cases "is_space ch") (simp, simp add: scan_def)
qed simp

text \<open>Words separated by line ends come back.\<close>

lemma text_fields_lines:
  assumes "list_all word_text ws"
  shows "text_fields (concat (map (\<lambda>w. newline @ w) ws)) = ws"
  using assms
proof (induction ws)
  case (Cons w ws)
  have "word_end (concat (map (\<lambda>w. newline @ w) ws))" by (cases ws) (simp_all add: newline_def)
  with Cons text_fields_word [of w] show ?case by (simp add: newline_def)
qed simp

lemma str_contains_iff: "str_contains s sub \<longleftrightarrow> (\<exists>a b. s = a @ sub @ b)"
proof (induction s)
  case (Cons ch s)
  have "take (length sub) (ch # s) = sub \<longleftrightarrow> (\<exists>b. ch # s = sub @ b)"
    by (metis append_eq_conv_conj append_take_drop_id)
  with Cons show ?case by (auto simp: Cons_eq_append_conv)
qed auto

end
