(* ===== verification/Kv_Run.thy ===== *)
theory Kv_Run
  imports Kv_Properties
begin

text \<open>
  The running server (\<open>raftRun.go\<close>, \<open>serverRun.go\<close>): the network switch in front of the RPCs, the RPC
  wrappers, and the JSON file a server reads back when it starts. The file and its reader are the
  second interpretation of \<open>durable_store\<close>.
\<close>

section \<open>The network switch\<close>

definition goConnect :: "'c Raft \<Rightarrow> 'c Raft" where
  "goConnect rf = rf\<lparr>Network := Connect\<rparr>"

definition goDisconnect :: "'c Raft \<Rightarrow> 'c Raft" where
  "goDisconnect rf = rf\<lparr>Network := Disconnect\<rparr>"

text \<open>The number in the message is \<open>Me\<close>; the error is identified by it.\<close>

definition checkNetwork :: "'c Raft \<Rightarrow> int option" where
  "checkNetwork rf = (if Network rf = Disconnect then Some (Me rf) else None)"

text \<open>A handler's error is \<open>Inl\<close>, its reply \<open>Inr\<close>.\<close>

definition HandleAppendEntriesRun ::
  "'c Raft \<Rightarrow> 'c AppendEntriesArgs \<Rightarrow> ('c Raft \<times> (int + AppendEntriesReply)) go" where
  "HandleAppendEntriesRun rf args =
     (case checkNetwork rf of
        Some err \<Rightarrow> Inr (rf, Inl err)
      | None \<Rightarrow> go_bind (HandleAppendEntries rf args) (\<lambda>(rf', reply). Inr (rf', Inr reply)))"

definition HandleRequestVoteRun ::
  "'c Raft \<Rightarrow> RequestVoteArgs \<Rightarrow> ('c Raft \<times> (int + RequestVoteReply)) go" where
  "HandleRequestVoteRun rf args =
     (case checkNetwork rf of
        Some err \<Rightarrow> Inr (rf, Inl err)
      | None \<Rightarrow> go_bind (HandleRequestVote rf args) (\<lambda>(rf', reply). Inr (rf', Inr reply)))"

text \<open>
  The caller's side. \<open>dialed\<close> is the connection, if dialling gave one, and \<open>send\<close> the reply that the RPC
  library brings back over it, if there is no error.
\<close>

definition dial_call :: "'h option \<Rightarrow> ('h \<Rightarrow> 'r option) \<Rightarrow> 'r option" where
  "dial_call dialed send =
     (case dialed of
        None \<Rightarrow> None
      | Some h \<Rightarrow> (case send h of None \<Rightarrow> None | Some reply \<Rightarrow> Some reply))"

definition rf_call :: "'c Raft \<Rightarrow> 'h option \<Rightarrow> ('h \<Rightarrow> 'r option) \<Rightarrow> 'r option" where
  "rf_call rf dialed send = (if Network rf = Connect then dial_call dialed send else None)"

section \<open>The RPC wrappers of the key-value server\<close>

definition GetRun ::
  "KVServer \<Rightarrow> (Op \<Rightarrow> int \<times> int \<times> bool) \<Rightarrow> (nat \<Rightarrow> KVServer) \<Rightarrow> GetArgs \<Rightarrow> GetReply" where
  "GetRun kv Start obs args = Get kv Start obs args"

definition PutAppendRun ::
  "KVServer \<Rightarrow> (Op \<Rightarrow> int \<times> int \<times> bool) \<Rightarrow> (nat \<Rightarrow> KVServer) \<Rightarrow> PutAppendArgs \<Rightarrow> PutAppendReply" where
  "PutAppendRun kv Start obs args = PutAppend kv Start obs args"

section \<open>Reading the file back\<close>

text \<open>
  \<open>Decode(&v)\<close> on a stream of JSON values: at the end of the file, on a value of another kind and on
  \<open>null\<close>, \<open>v\<close> keeps its value (the code ignores the error).
\<close>

fun json_decode_int :: "int \<Rightarrow> Op json_value list \<Rightarrow> int \<times> Op json_value list" where
  "json_decode_int v [] = (v, [])"
| "json_decode_int v (JsonInt n # r) = (n, r)"
| "json_decode_int v (JsonCommand c # r) = (v, r)"

fun json_decode_op :: "Op \<Rightarrow> Op json_value list \<Rightarrow> Op \<times> Op json_value list" where
  "json_decode_op v [] = (v, [])"
| "json_decode_op v (JsonCommand (Some r) # rs) = (r, rs)"
| "json_decode_op v (JsonCommand None # rs) = (v, rs)"
| "json_decode_op v (JsonInt n # rs) = (v, rs)"

fun json_decode_entries :: "nat \<Rightarrow> Op json_value list \<Rightarrow> Op Entry list" where
  "json_decode_entries 0 d = []"
| "json_decode_entries (Suc k) d =
     (let (op, d1) = json_decode_op zero_Op d;
          (ident, d2) = json_decode_int 0 d1;
          (index, d3) = json_decode_int 0 d2;
          (trm, d4) = json_decode_int 0 d3
      in \<lparr>Entry_Index = index, Entry_Command = Some op, Entry_Term = trm, Entry_Id = ident\<rparr>
         # json_decode_entries k d4)"

definition json_parse :: "Op json_value list \<Rightarrow> Op durable" where
  "json_parse d =
     (let (CurrentTerm, d1) = json_decode_int 0 d;
          (Voted, d2) = json_decode_int 0 d1;
          (len, d3) = json_decode_int 0 d2
      in (CurrentTerm, Voted, json_decode_entries (nat len) d3))"

definition readPersistRun :: "Op Raft \<Rightarrow> Op json_value list option \<Rightarrow> Op Raft" where
  "readPersistRun rf file =
     (case file of
        None \<Rightarrow> rf
      | Some d \<Rightarrow> (case json_parse d of (CurrentTerm, voted, Logs) \<Rightarrow>
          rf\<lparr>Term := CurrentTerm, VotedFor := voted, Log := Logs\<rparr>))"

text \<open>
  The state \<open>StartKVServerRun\<close> builds before it serves: \<open>file\<close> is the contents of the server's file,
  if there is one, and the file stays as it is.
\<close>

definition StartKVServerRun :: "int \<Rightarrow> int \<Rightarrow> Op json_value list option \<Rightarrow> int \<Rightarrow> KVServer" where
  "StartKVServerRun servers me file maxraft =
     \<lparr>kv_me = me, Rf = readPersistRun ((MakeRun zero_Raft servers me)\<lparr>yys := file\<rparr>) file,
      applyCh = 0, kv_dead = False, maxraftstate = maxraft, storage = Map.empty,
      idTable = Map.empty\<rparr>"

section \<open>The file as durable storage\<close>

text \<open>Every command of the key-value server is an operation, never nil.\<close>

definition all_ops :: "Op durable \<Rightarrow> bool" where
  "all_ops s \<longleftrightarrow> (\<forall>e \<in> set (snd (snd s)). Entry_Command e \<noteq> None)"

lemma json_decode_entries_image:
  "\<forall>e \<in> set l. Entry_Command e \<noteq> None \<Longrightarrow>
     json_decode_entries (length l) (concat (map json_entry l) @ rest) = l"
proof (induction l)
  case (Cons e l)
  then obtain r where "Entry_Command e = Some r" by auto
  with Cons show ?case by (simp add: json_entry_def)
qed simp

lemma json_parse_image: "all_ops s \<Longrightarrow> json_parse (json_image s) = s"
  using json_decode_entries_image [of "snd (snd s)" "[]"]
  by (cases s) (simp add: json_parse_def json_image_def all_ops_def)

definition json_save :: "Op durable \<Rightarrow> Op json_value list option \<Rightarrow> Op json_value list option" where
  "json_save s file = Some (json_image s)"

definition json_load :: "Op json_value list option \<Rightarrow> Op durable" where
  "json_load file = (case file of None \<Rightarrow> (0, -1, []) | Some d \<Rightarrow> json_parse d)"

interpretation json: durable_store all_ops json_save json_load
  by unfold_locales (simp add: json_save_def json_load_def json_parse_image)

lemma yys_persist: "\<not> Test rf \<Longrightarrow> yys (persist rf) = json_save (durable_of rf) (yys rf)"
  by (simp add: persist_def json_save_def)

lemma readPersistRun_load:
  "durable_of (readPersistRun rf file) = (if file = None then durable_of rf else json_load file)"
  by (auto simp: readPersistRun_def json_load_def durable_of_def split: option.splits prod.splits)

lemma durable_MakeRun: "durable_of ((MakeRun zero_Raft n me)\<lparr>yys := file\<rparr>) = (0, -1, [])"
  by (simp add: durable_of_def MakeRun_def setRaft_def)

lemma json_load_persist:
  assumes "\<not> Test rf" and "\<forall>e \<in> set (Log rf). Entry_Command e \<noteq> None"
  obtains d where "yys (persist rf) = Some d" and "json_parse d = durable_of rf"
proof -
  have "all_ops (durable_of rf)" using assms(2) by (simp add: all_ops_def durable_of_def)
  then have "json_load (yys (persist rf)) = durable_of rf"
    unfolding yys_persist [OF assms(1)] by (rule json.load_save)
  moreover obtain d where "yys (persist rf) = Some d"
    by (simp add: yys_persist [OF assms(1)] json_save_def)
  ultimately show ?thesis by (intro that) (simp_all add: json_load_def)
qed

lemma restart_durable:
  assumes "\<not> Test rf" and "\<forall>e \<in> set (Log rf). Entry_Command e \<noteq> None"
  shows "durable_of (Rf (StartKVServerRun n me (yys (persist rf)) mr)) = (Term rf, VotedFor rf, Log rf)"
proof -
  obtain d where "yys (persist rf) = Some d" "json_parse d = durable_of rf"
    by (rule json_load_persist [OF assms])
  then show ?thesis
    by (simp add: StartKVServerRun_def readPersistRun_load json_load_def) (simp add: durable_of_def)
qed

section \<open>Properties\<close>

text \<open>A running server that is restarted finds in its file the term, the vote and the log of the last
  \<open>persist\<close>, whatever the log holds; without a file it starts in term 0 without a vote and with an
  empty log.\<close>

theorem run_mode_restart_roundtrip:
  assumes "\<not> Test rf" and "\<forall>e \<in> set (Log rf). Entry_Command e \<noteq> None"
  shows "durable_of (Rf (StartKVServerRun n me (yys (persist rf)) mr)) = (Term rf, VotedFor rf, Log rf) \<and>
    durable_of (Rf (StartKVServerRun n me None mr)) = (0, -1, [])"
  using restart_durable [OF assms]
  by (simp add: StartKVServerRun_def readPersistRun_load durable_MakeRun)

definition running :: "Op Raft" where
  "running = (MakeRun zero_Raft 3 1)\<lparr>Term := 4, VotedFor := 2,
     Log := [\<lparr>Entry_Index = 1, Entry_Command = Some append_a, Entry_Term = 4, Entry_Id = 0\<rparr>]\<rparr>"

theorem run_mode_restart_roundtrip_witness:
  "Term (Rf (StartKVServerRun 3 1 (yys (persist running)) 0)) = 4 \<and>
   map Entry_Command (Log (Rf (StartKVServerRun 3 1 (yys (persist running)) 0))) = [Some append_a]"
  using run_mode_restart_roundtrip [of running 3 1 0]
  by (simp add: running_def MakeRun_def setRaft_def durable_of_def)

text \<open>A disconnected server neither answers nor changes: both RPC wrappers return the error with its
  number and leave the state alone, and its own calls fail; once connected again the wrappers are the
  handlers.\<close>

theorem disconnected_server_isolated:
  "HandleAppendEntriesRun (goDisconnect rf) a = Inr (goDisconnect rf, Inl (Me rf)) \<and>
   HandleRequestVoteRun (goDisconnect rf) v = Inr (goDisconnect rf, Inl (Me rf)) \<and>
   rf_call (goDisconnect rf) dialed send = None \<and>
   rf_call (goConnect rf) dialed send = Option.bind dialed send \<and>
   HandleRequestVoteRun (goConnect rf) v =
     (case HandleRequestVote (goConnect rf) v of
        Inl e \<Rightarrow> Inl e | Inr (rf', r) \<Rightarrow> Inr (rf', Inr r)) \<and>
   HandleAppendEntriesRun (goConnect rf) a =
     (case HandleAppendEntries (goConnect rf) a of
        Inl e \<Rightarrow> Inl e | Inr (rf', r) \<Rightarrow> Inr (rf', Inr r))"
  by (simp add: HandleAppendEntriesRun_def HandleRequestVoteRun_def goDisconnect_def goConnect_def
      checkNetwork_def rf_call_def dial_call_def split: sum.split option.split)

end
