(* ===== verification/Kv_Client.thy ===== *)
theory Kv_Client
  imports Kv_Properties
begin

text \<open>
  The clerk of \<open>kvraft/client.go\<close>. Both operations repeat their RPC over the servers until one answers
  \<open>OK\<close>; the loop may never end, so it is a partial function, and \<open>None\<close> means it does not return.
\<close>

section \<open>The clerk\<close>

record Clerk =
  clientId :: int
  ck_Test :: bool
  serverNumber :: int

text \<open>\<open>now\<close> is what \<open>time.Now().UnixNano()\<close> returns.\<close>

definition MakeClerk :: "int \<Rightarrow> int \<Rightarrow> Clerk" where
  "MakeClerk nservers now = \<lparr>clientId = now, ck_Test = True, serverNumber = nservers\<rparr>"

definition MakeClerkRun :: "int \<Rightarrow> int \<Rightarrow> Clerk" where
  "MakeClerkRun nservers now = \<lparr>clientId = now, ck_Test = False, serverNumber = nservers\<rparr>"

text \<open>
  The two nested loops: \<open>net t i\<close> is the outcome of the \<open>t\<close>-th RPC when it goes to server \<open>i\<close> (\<open>None\<close>
  when the call fails), \<open>good\<close> the test \<open>reply.Err == OK\<close>.
\<close>

partial_function (option) retry_loop ::
  "int \<Rightarrow> (nat \<Rightarrow> int \<Rightarrow> 'r option) \<Rightarrow> ('r \<Rightarrow> bool) \<Rightarrow> nat \<Rightarrow> int \<Rightarrow> 'r option" where
  "retry_loop n net good t i =
     (if i < n then
        (case net t i of
           None \<Rightarrow> retry_loop n net good (t + 1) (i + 1)
         | Some r \<Rightarrow> if good r then Some r else retry_loop n net good (t + 1) (i + 1))
      else retry_loop n net good t 0)"

definition Clerk_Get ::
  "Clerk \<Rightarrow> int \<Rightarrow> (GetArgs \<Rightarrow> nat \<Rightarrow> int \<Rightarrow> GetReply option) \<Rightarrow> string \<Rightarrow> string option" where
  "Clerk_Get ck now net key =
     map_option GR_Value
       (retry_loop (serverNumber ck)
          (net \<lparr>G_Key = key, G_Client = clientId ck, G_Id = now\<rparr>) (\<lambda>r. GR_Err r = OK) 0 0)"

definition Clerk_PutAppend ::
  "Clerk \<Rightarrow> int \<Rightarrow> (PutAppendArgs \<Rightarrow> nat \<Rightarrow> int \<Rightarrow> PutAppendReply option) \<Rightarrow>
     string \<Rightarrow> string \<Rightarrow> string \<Rightarrow> unit option" where
  "Clerk_PutAppend ck now net key v op =
     map_option (\<lambda>_. ())
       (retry_loop (serverNumber ck)
          (net \<lparr>PA_Key = key, PA_Value = v, PA_Op = op, PA_Client = clientId ck, PA_Id = now\<rparr>)
          (\<lambda>r. PAR_Err r = OK) 0 0)"

definition Clerk_Put ::
  "Clerk \<Rightarrow> int \<Rightarrow> (PutAppendArgs \<Rightarrow> nat \<Rightarrow> int \<Rightarrow> PutAppendReply option) \<Rightarrow>
     string \<Rightarrow> string \<Rightarrow> unit option" where
  "Clerk_Put ck now net key v = Clerk_PutAppend ck now net key v Putt"

definition Clerk_Append ::
  "Clerk \<Rightarrow> int \<Rightarrow> (PutAppendArgs \<Rightarrow> nat \<Rightarrow> int \<Rightarrow> PutAppendReply option) \<Rightarrow>
     string \<Rightarrow> string \<Rightarrow> unit option" where
  "Clerk_Append ck now net key v = Clerk_PutAppend ck now net key v Appendd"

section \<open>When the loop returns\<close>

text \<open>The \<open>t\<close>-th call goes to server \<open>t mod n\<close>.\<close>

definition answer :: "int \<Rightarrow> (nat \<Rightarrow> int \<Rightarrow> 'r option) \<Rightarrow> ('r \<Rightarrow> bool) \<Rightarrow> nat \<Rightarrow> 'r option" where
  "answer n net good t =
     (case net t (int t mod n) of None \<Rightarrow> None | Some r \<Rightarrow> if good r then Some r else None)"

lemma retry_loop_step:
  assumes "0 < n"
  shows "retry_loop n net good t (int t mod n) =
    (case answer n net good t of
       Some r \<Rightarrow> Some r
     | None \<Rightarrow> retry_loop n net good (t + 1) (int (t + 1) mod n))"
proof -
  have "int t mod n < n" using assms by simp
  moreover have "retry_loop n net good (t + 1) (int t mod n + 1) =
      retry_loop n net good (t + 1) (int (t + 1) mod n)"
  proof (cases "int t mod n + 1 < n")
    case True
    then have "int (t + 1) mod n = int t mod n + 1"
      using assms mod_add_left_eq [of "int t" n 1] by (simp add: algebra_simps)
    then show ?thesis by simp
  next
    case False
    with assms have e: "int t mod n + 1 = n" using pos_mod_bound [of n "int t"] by linarith
    then have "int (t + 1) mod n = 0"
      using mod_add_left_eq [of "int t" n 1] by (simp add: algebra_simps)
    then show ?thesis by (subst retry_loop.simps) (simp add: e)
  qed
  ultimately show ?thesis
    by (subst retry_loop.simps) (simp add: answer_def split: option.splits)
qed

lemma retry_loop_answers:
  assumes "0 < n" and "\<forall>j. t \<le> j \<and> j < t + k \<longrightarrow> answer n net good j = None"
    and "answer n net good (t + k) = Some r"
  shows "retry_loop n net good t (int t mod n) = Some r"
  using assms(2,3)
proof (induction k arbitrary: t)
  case 0
  then show ?case by (simp add: retry_loop_step [OF assms(1)])
next
  case (Suc k)
  then have "answer n net good t = None" by simp
  moreover have "retry_loop n net good (t + 1) (int (t + 1) mod n) = Some r"
    by (rule Suc.IH) (use Suc.prems in auto)
  ultimately show ?case by (simp add: retry_loop_step [OF assms(1)])
qed

definition turn_ok :: "int \<Rightarrow> nat \<Rightarrow> int \<Rightarrow> bool" where
  "turn_ok n t i \<longleftrightarrow> (if i < n then i = int t mod n else i = n \<and> int t mod n = 0)"

lemma turn_ok_next:
  assumes "0 < n" and "i < n" and "turn_ok n t i"
  shows "turn_ok n (t + 1) (i + 1)"
proof -
  have "int (t + 1) mod n = (i + 1) mod n"
    using assms mod_add_left_eq [of "int t" n 1] by (simp add: turn_ok_def algebra_simps)
  moreover have "0 \<le> i" using assms by (simp add: turn_ok_def)
  moreover have "i + 1 < n \<or> i + 1 = n" using assms(2) by linarith
  ultimately show ?thesis using assms(1) by (auto simp: turn_ok_def)
qed

lemma retry_loop_sound:
  assumes "retry_loop n net good t i = Some r"
  shows "0 < n \<longrightarrow> turn_ok n t i \<longrightarrow>
    (\<exists>k. answer n net good (t + k) = Some r \<and> (\<forall>j < k. answer n net good (t + j) = None))"
proof (rule retry_loop.raw_induct [where P = "\<lambda>n net good t i r. (0 < n \<longrightarrow> turn_ok n t i \<longrightarrow>
    (\<exists>k. answer n net good (t + k) = Some r \<and> (\<forall>j < k. answer n net good (t + j) = None)))", OF _ assms])
  fix loop :: "int \<Rightarrow> (nat \<Rightarrow> int \<Rightarrow> 'a option) \<Rightarrow> ('a \<Rightarrow> bool) \<Rightarrow> nat \<Rightarrow> int \<Rightarrow> 'a option"
    and n net good t i r
  assume IH: "\<And>n net good t i r. loop n net good t i = Some r \<Longrightarrow> (0 < n \<longrightarrow> turn_ok n t i \<longrightarrow>
    (\<exists>k. answer n net good (t + k) = Some r \<and> (\<forall>j < k. answer n net good (t + j) = None)))"
    and body: "(if i < n then
        (case net t i of
           None \<Rightarrow> loop n net good (t + 1) (i + 1)
         | Some r \<Rightarrow> if good r then Some r else loop n net good (t + 1) (i + 1))
      else loop n net good t 0) = Some r"
  show "0 < n \<longrightarrow> turn_ok n t i \<longrightarrow>
    (\<exists>k. answer n net good (t + k) = Some r \<and> (\<forall>j < k. answer n net good (t + j) = None))"
  proof (intro impI)
    assume n: "0 < n" and i: "turn_ok n t i"
    show "\<exists>k. answer n net good (t + k) = Some r \<and> (\<forall>j < k. answer n net good (t + j) = None)"
    proof (cases "i < n")
      case False
      then have "loop n net good t 0 = Some r" using body by simp
      moreover have "turn_ok n t 0" using False i n by (simp add: turn_ok_def)
      ultimately show ?thesis using IH n by blast
    next
      case True
      then have ans: "answer n net good t =
          (case net t i of None \<Rightarrow> None | Some r \<Rightarrow> if good r then Some r else None)"
        using i by (simp add: answer_def turn_ok_def)
      show ?thesis
      proof (cases "answer n net good t")
        case (Some x)
        then have "x = r" using body True ans by (auto split: option.splits if_splits)
        with Some show ?thesis by (intro exI [of _ 0]) simp
      next
        case None
        then have "loop n net good (t + 1) (i + 1) = Some r"
          using body True ans by (auto split: option.splits if_splits)
        with IH turn_ok_next [OF n True i] n obtain k where
          k: "answer n net good (t + 1 + k) = Some r" "\<forall>j < k. answer n net good (t + 1 + j) = None"
          by blast
        have "\<forall>j < Suc k. answer n net good (t + j) = None"
        proof (intro allI impI)
          fix j assume "j < Suc k"
          with None k(2) show "answer n net good (t + j) = None" by (cases j) auto
        qed
        with k(1) show ?thesis by (intro exI [of _ "Suc k"]) simp
      qed
    qed
  qed
qed

text \<open>The loop returns exactly the first good answer of the round-robin sequence of calls.\<close>

lemma retry_loop_iff:
  assumes "0 < n"
  shows "retry_loop n net good 0 0 = Some r \<longleftrightarrow>
    (\<exists>k. answer n net good k = Some r \<and> (\<forall>j < k. answer n net good j = None))"
proof
  assume "retry_loop n net good 0 0 = Some r"
  from retry_loop_sound [OF this] assms show "\<exists>k. answer n net good k = Some r \<and>
      (\<forall>j < k. answer n net good j = None)" by (simp add: turn_ok_def)
next
  assume "\<exists>k. answer n net good k = Some r \<and> (\<forall>j < k. answer n net good j = None)"
  then obtain k where "answer n net good (0 + k) = Some r"
    and "\<forall>j. 0 \<le> j \<and> j < 0 + k \<longrightarrow> answer n net good j = None" by auto
  from retry_loop_answers [OF assms this(2,1)] show "retry_loop n net good 0 0 = Some r" by simp
qed

text \<open>Without servers the loop never returns.\<close>

lemma retry_loop_no_servers:
  assumes "retry_loop n net good t i = Some r"
  shows "n \<le> 0 \<longrightarrow> 0 \<le> i \<longrightarrow> False"
proof (rule retry_loop.raw_induct [where P = "\<lambda>n net good t i r. (n \<le> 0 \<longrightarrow> 0 \<le> i \<longrightarrow> False)", OF _ assms])
  fix loop :: "int \<Rightarrow> (nat \<Rightarrow> int \<Rightarrow> 'a option) \<Rightarrow> ('a \<Rightarrow> bool) \<Rightarrow> nat \<Rightarrow> int \<Rightarrow> 'a option"
    and n net good t i r
  assume IH: "\<And>n net good t i r. loop n net good t i = Some r \<Longrightarrow> (n \<le> 0 \<longrightarrow> 0 \<le> i \<longrightarrow> False)"
    and body: "(if i < n then
        (case net t i of
           None \<Rightarrow> loop n net good (t + 1) (i + 1)
         | Some r \<Rightarrow> if good r then Some r else loop n net good (t + 1) (i + 1))
      else loop n net good t 0) = Some r"
  show "n \<le> 0 \<longrightarrow> 0 \<le> i \<longrightarrow> False"
  proof (intro impI)
    assume "n \<le> 0" and "0 \<le> i"
    with body have "loop n net good t 0 = Some r" by simp
    with IH \<open>n \<le> 0\<close> show False by blast
  qed
qed

section \<open>Properties of the clerk\<close>

lemma answer_None:
  "answer n net good j = None \<longleftrightarrow> (\<forall>r. net j (int j mod n) = Some r \<longrightarrow> \<not> good r)"
  by (auto simp: answer_def split: option.splits)

lemma answer_Some: "answer n net good j = Some r \<longleftrightarrow> net j (int j mod n) = Some r \<and> good r"
  by (auto simp: answer_def split: option.splits)

text \<open>C39: With at least one server, \<open>Get\<close> of the clerk returns exactly when some call of its round robin over
  the servers is answered \<open>OK\<close>, and then returns the value of the first such answer; otherwise it never returns.\<close>

theorem Clerk_Get_returns_first_OK:
  assumes "0 < serverNumber ck"
  shows "Clerk_Get ck now net key = Some v \<longleftrightarrow>
    (\<exists>k r. net \<lparr>G_Key = key, G_Client = clientId ck, G_Id = now\<rparr> k (int k mod serverNumber ck) = Some r \<and>
      GR_Err r = OK \<and> GR_Value r = v \<and>
      (\<forall>j < k. \<forall>r'. net \<lparr>G_Key = key, G_Client = clientId ck, G_Id = now\<rparr> j
        (int j mod serverNumber ck) = Some r' \<longrightarrow> GR_Err r' \<noteq> OK))"
  by (auto simp: Clerk_Get_def retry_loop_iff [OF assms(1)] answer_None answer_Some)

text \<open>The network of the witness: the first call fails, the second is refused, the third answers.\<close>

definition third_answers :: "GetArgs \<Rightarrow> nat \<Rightarrow> int \<Rightarrow> GetReply option" where
  "third_answers args t i =
     (if t = 0 then None else if i = 1 then Some wrongLeader
      else Some \<lparr>GR_Err = OK, GR_Value = ''v''\<rparr>)"

theorem Clerk_Get_returns_first_OK_witness:
  "Clerk_Get (MakeClerk 3 7) 8 third_answers ''k'' = Some ''v''"
proof -
  have "0 < serverNumber (MakeClerk 3 7)" by (simp add: MakeClerk_def)
  from Clerk_Get_returns_first_OK [OF this, of 8 third_answers "''k''" "''v''"] show ?thesis
    by (auto simp: third_answers_def MakeClerk_def wrongLeader_def less_Suc_eq numeral_2_eq_2
        intro!: exI [of _ 2])
qed

text \<open>C30: \<open>PutAppend\<close> of the clerk returns exactly when some call is answered \<open>OK\<close>; a clerk without
  servers never returns.\<close>

theorem Clerk_PutAppend_returns_iff:
  "Clerk_PutAppend ck now net key v op = Some () \<longleftrightarrow>
     0 < serverNumber ck \<and>
     (\<exists>k r. net \<lparr>PA_Key = key, PA_Value = v, PA_Op = op, PA_Client = clientId ck, PA_Id = now\<rparr> k
        (int k mod serverNumber ck) = Some r \<and> PAR_Err r = OK)"
proof (cases "0 < serverNumber ck")
  case True
  let ?net = "net \<lparr>PA_Key = key, PA_Value = v, PA_Op = op, PA_Client = clientId ck, PA_Id = now\<rparr>"
  let ?good = "\<lambda>r. PAR_Err r = OK"
  have "(\<exists>r k. answer (serverNumber ck) ?net ?good k = Some r \<and>
      (\<forall>j < k. answer (serverNumber ck) ?net ?good j = None)) \<longleftrightarrow>
    (\<exists>k. answer (serverNumber ck) ?net ?good k \<noteq> None)" (is "?first \<longleftrightarrow> ?some")
  proof
    assume ?some
    then obtain k where "answer (serverNumber ck) ?net ?good k \<noteq> None"
      and "\<forall>j < k. answer (serverNumber ck) ?net ?good j = None"
      using exists_least_iff [of "\<lambda>k. answer (serverNumber ck) ?net ?good k \<noteq> None"] by blast
    then show ?first by blast
  qed blast
  then show ?thesis
    using True by (simp add: Clerk_PutAppend_def retry_loop_iff [OF True] answer_Some)
next
  case False
  have "retry_loop (serverNumber ck) net' good 0 0 = None" for net' and good :: "PutAppendReply \<Rightarrow> bool"
    using retry_loop_no_servers [of "serverNumber ck" net' good 0 0] False
    by (cases "retry_loop (serverNumber ck) net' good 0 0") auto
  with False show ?thesis by (simp add: Clerk_PutAppend_def)
qed

end
