(* ===== verification/Kv_Console.thy ===== *)
theory Kv_Console
  imports Go_Text Kv_Run Kv_Client
begin

text \<open>
  The console menus of run mode: \<open>startUserInterface\<close> of the clerk (\<open>clientRun.go\<close>) and of the server
  (\<open>serverRun.go\<close>), and what the server prints of its log and its store. One turn of a menu reads words
  from the standard input and writes text; the loops of the code never end, so a session is a number of
  turns. What the clerk prints while it retries is left out.
\<close>

section \<open>The menu of the clerk\<close>

definition menu_line :: string where
  "menu_line = ''-----------------------------------------''"

definition client_menu :: string where
  "client_menu = println [newline @ newline @ menu_line] @ println ['' 1. Append''] @ println ['' 2. Get ''] @
     println ['' 3. Put''] @ menu_line @ newline @ '' Select a option ->: ''"

definition enter_key :: string where
  "enter_key = '' Enter Key: ''"

definition enter_value :: string where
  "enter_value = '' Enter Value: ''"

definition reselect :: string where
  "reselect = println [''INCORRECT  Reselect'']"

text \<open>The servers as the clerk sees them in one operation: the time, and the outcomes of its RPCs.\<close>

record world =
  w_now :: int
  w_get :: "GetArgs \<Rightarrow> nat \<Rightarrow> int \<Rightarrow> GetReply option"
  w_putAppend :: "PutAppendArgs \<Rightarrow> nat \<Rightarrow> int \<Rightarrow> PutAppendReply option"

text \<open>One turn: the rest of the input and the output; \<open>None\<close> when the operation does not return.\<close>

definition client_turn :: "Clerk \<Rightarrow> world \<Rightarrow> string \<Rightarrow> (string \<times> string) option" where
  "client_turn ck w inp =
     (let (op, r) = scan inp in
      if op = ''3'' then
        let (key, r1) = scan r; (v, r2) = scan r1 in
        map_option (\<lambda>_. (r2, client_menu @ enter_key @ enter_value))
          (Clerk_Put ck (w_now w) (w_putAppend w) key v)
      else if op = ''2'' then
        let (key, r1) = scan r in
        map_option (\<lambda>v. (r1, client_menu @ enter_key @ println [''Key: '', key, '', Value: '', v]))
          (Clerk_Get ck (w_now w) (w_get w) key)
      else if op = ''1'' then
        let (key, r1) = scan r; (v, r2) = scan r1 in
        map_option (\<lambda>_. (r2, client_menu @ enter_key @ enter_value))
          (Clerk_Append ck (w_now w) (w_putAppend w) key v)
      else Some (r, client_menu @ reselect))"

text \<open>The turns \<open>k\<close> to \<open>k + n - 1\<close> of the loop; in turn \<open>k\<close> the servers are \<open>ws k\<close>.\<close>

fun client_session :: "Clerk \<Rightarrow> (nat \<Rightarrow> world) \<Rightarrow> nat \<Rightarrow> nat \<Rightarrow> string \<Rightarrow> (string \<times> string) option" where
  "client_session ck ws k 0 inp = Some (inp, [])"
| "client_session ck ws k (Suc n) inp =
     Option.bind (client_turn ck (ws k) inp) (\<lambda>(r, out).
       map_option (\<lambda>(r', out'). (r', out @ out')) (client_session ck ws (k + 1) n r))"

section \<open>What the server prints\<close>

text \<open>\<open>Print\<close> of a command, by its fields; a nil command is \<open><nil>\<close>.\<close>

definition show_command :: "Op option \<Rightarrow> string" where
  "show_command c =
     (case c of
        None \<Rightarrow> ''<nil>''
      | Some op \<Rightarrow> ''{'' @ unwords [OpTask op, Op_Key op, Op_Value op, show_int (Op_Client op), show_int (Op_Id op)] @ ''}'')"

definition PrintLog :: "Op Raft \<Rightarrow> string" where
  "PrintLog rf =
     (let state = (if State rf = Leader then ''Leader'' else if State rf = Cand then ''Candidate'' else ''Follwer'')
      in println [menu_line] @ println [state, '' with '', show_int (Term rf), '' have LOG:''] @
         concat (map (\<lambda>vs. ''Command: '' @ show_command (Entry_Command vs) @ newline) (Log rf)) @
         menu_line @ newline @ newline)"

text \<open>What \<open>readPersistRun\<close> prints of the state it has read from the file.\<close>

definition disk_report :: "Op durable \<Rightarrow> string" where
  "disk_report s =
     (case s of (trm, voted, entries) \<Rightarrow>
        println [newline @ ''READ FROM DISK--------------''] @ println [''Term: '', show_int trm] @
        println [''VotedFor'', show_int voted] @
        concat (map (\<lambda>vs. ''Command: '' @ show_command (Entry_Command vs) @ newline) entries) @
        println [''----------------------------''])"

definition readPersistRun_output :: "string \<Rightarrow> Op json_value list option \<Rightarrow> string" where
  "readPersistRun_output server file =
     (case file of
        None \<Rightarrow> println [server @ ''.yys'', '' is not created'']
      | Some d \<Rightarrow> disk_report (json_parse d))"

lemma restart_report:
  assumes "\<not> Test rf" and "\<forall>e \<in> set (Log rf). Entry_Command e \<noteq> None"
  shows "readPersistRun_output server (yys (persist rf)) = disk_report (Term rf, VotedFor rf, Log rf)"
proof -
  obtain d where "yys (persist rf) = Some d" "json_parse d = durable_of rf"
    by (rule json_load_persist [OF assms])
  then show ?thesis by (simp add: readPersistRun_output_def) (simp add: durable_of_def)
qed

text \<open>The storage is printed in the order in which the map is iterated.\<close>

definition PrintStateMachine :: "((string \<rightharpoonup> string) \<Rightarrow> (string \<times> string) list) \<Rightarrow> KVServer \<Rightarrow> string" where
  "PrintStateMachine iterate kv =
     println [menu_line] @ println [''State Machine:''] @
     concat (map (\<lambda>(i, vs). ''Key: '' @ i @ println ['', Value: '', vs]) (iterate (storage kv))) @
     menu_line @ newline @ newline"

section \<open>The menu of the server\<close>

definition server_menu :: string where
  "server_menu = println [newline @ '' a.PrintLog''] @ println ['' b.Connect ''] @ println ['' c.Disconnect''] @
     println ['' d.PrintStateMachine''] @ '' Enter: ''"

definition server_turn ::
  "((string \<rightharpoonup> string) \<Rightarrow> (string \<times> string) list) \<Rightarrow> KVServer \<Rightarrow> string \<Rightarrow> KVServer \<times> string \<times> string" where
  "server_turn iterate kv inp =
     (let (op, r) = scan inp in
      if op = ''b'' then (kv\<lparr>Rf := goConnect (Rf kv)\<rparr>, r, server_menu)
      else if op = ''c'' then (kv\<lparr>Rf := goDisconnect (Rf kv)\<rparr>, r, server_menu)
      else if op = ''a'' then (kv, r, server_menu @ PrintLog (Rf kv))
      else if op = ''d'' then (kv, r, server_menu @ PrintStateMachine iterate kv)
      else (kv, r, server_menu @ reselect))"

fun server_session ::
  "((string \<rightharpoonup> string) \<Rightarrow> (string \<times> string) list) \<Rightarrow> nat \<Rightarrow> KVServer \<Rightarrow> string \<Rightarrow> KVServer \<times> string \<times> string" where
  "server_session iterate 0 kv inp = (kv, inp, [])"
| "server_session iterate (Suc n) kv inp =
     (let (kv1, r1, out1) = server_turn iterate kv inp;
          (kv2, r2, out2) = server_session iterate n kv1 r1
      in (kv2, r2, out1 @ out2))"

section \<open>A typed session\<close>

datatype command = AppendC string string | GetC string | PutC string string

fun command_words :: "command \<Rightarrow> string list" where
  "command_words (AppendC k v) = [''1'', k, v]"
| "command_words (GetC k) = [''2'', k]"
| "command_words (PutC k v) = [''3'', k, v]"

definition typed :: "command list \<Rightarrow> string" where
  "typed cs = concat (map (\<lambda>c. concat (map (\<lambda>w. newline @ w) (command_words c))) cs)"

text \<open>The operations a list of commands asks for, one after the other, and what is shown of them.\<close>

fun perform :: "Clerk \<Rightarrow> world \<Rightarrow> command \<Rightarrow> string option" where
  "perform ck w (AppendC k v) =
     map_option (\<lambda>_. client_menu @ enter_key @ enter_value) (Clerk_Append ck (w_now w) (w_putAppend w) k v)"
| "perform ck w (GetC k) =
     map_option (\<lambda>v. client_menu @ enter_key @ println [''Key: '', k, '', Value: '', v])
       (Clerk_Get ck (w_now w) (w_get w) k)"
| "perform ck w (PutC k v) =
     map_option (\<lambda>_. client_menu @ enter_key @ enter_value) (Clerk_Put ck (w_now w) (w_putAppend w) k v)"

fun perform_all :: "Clerk \<Rightarrow> (nat \<Rightarrow> world) \<Rightarrow> nat \<Rightarrow> command list \<Rightarrow> string option" where
  "perform_all ck ws k [] = Some []"
| "perform_all ck ws k (c # cs) =
     Option.bind (perform ck (ws k) c) (\<lambda>out. map_option (\<lambda>out'. out @ out') (perform_all ck ws (k + 1) cs))"

definition typable :: "command \<Rightarrow> bool" where
  "typable c \<longleftrightarrow> list_all word_text (command_words c)"

lemma scan_line: "word_text w \<Longrightarrow> word_end s \<Longrightarrow> scan (newline @ w @ s) = (w, s)"
  by (simp add: newline_def scan_word)

lemma word_end_newline [simp]: "word_end (newline @ s)"
  by (simp add: newline_def)

lemma word_digits [simp]: "word_text ''1''" "word_text ''2''" "word_text ''3''"
  by (simp_all add: word_text_def is_space_def)

lemma scan_digit [simp]:
  assumes "word_end s"
  shows "scan (newline @ CHR ''1'' # s) = (''1'', s)" "scan (newline @ CHR ''2'' # s) = (''2'', s)"
    "scan (newline @ CHR ''3'' # s) = (''3'', s)"
  using scan_line [OF _ assms, of "''1''"] scan_line [OF _ assms, of "''2''"] scan_line [OF _ assms, of "''3''"]
  by simp_all

lemma client_turn_typed:
  assumes "typable c" and "word_end s"
  shows "client_turn ck w (concat (map (\<lambda>w. newline @ w) (command_words c)) @ s) =
    map_option (\<lambda>out. (s, out)) (perform ck w c)"
  using assms
  by (cases c) (simp_all add: typable_def client_turn_def scan_line option.map_comp comp_def Let_def)

lemma word_end_typed [simp]: "word_end (typed cs)"
proof (cases cs)
  case (Cons c cs')
  then show ?thesis by (cases c) (simp_all add: typed_def)
qed (simp add: typed_def)

text \<open>C32: A session at the clerk's console performs exactly the operations that were typed, in order, with
  their keys and values, and shows their results; it stops at the first that does not return. When the
  input has ended, every further turn prints the menu and an error, for ever. Keys and values are words:
  they are not empty and have no space in them.\<close>

theorem client_session_typed:
  assumes "list_all typable cs"
  shows "client_session ck ws k (length cs) (typed cs) = map_option (\<lambda>out. ([], out)) (perform_all ck ws k cs) \<and>
    client_session ck ws k n [] = Some ([], concat (replicate n (client_menu @ reselect)))"
proof
  show "client_session ck ws k (length cs) (typed cs) = map_option (\<lambda>out. ([], out)) (perform_all ck ws k cs)"
    using assms
  proof (induction cs arbitrary: k)
    case (Cons c cs)
    have "client_turn ck (ws k) (typed (c # cs)) = map_option (\<lambda>out. (typed cs, out)) (perform ck (ws k) c)"
      using client_turn_typed [of c "typed cs", OF _ word_end_typed] Cons.prems by (simp add: typed_def)
    with Cons show ?case by (cases "perform ck (ws k) c") (simp_all add: option.map_comp comp_def)
  qed (simp add: typed_def)
  show "client_session ck ws k n [] = Some ([], concat (replicate n (client_menu @ reselect)))"
    by (induction n arbitrary: k) (simp_all add: client_turn_def)
qed

text \<open>The servers of the witness answer every request.\<close>

definition answering :: world where
  "answering = \<lparr>w_now = 5, w_get = (\<lambda>args t i. Some \<lparr>GR_Err = OK, GR_Value = ''v''\<rparr>),
     w_putAppend = (\<lambda>args t i. Some \<lparr>PAR_Err = OK\<rparr>)\<rparr>"

theorem client_session_typed_witness:
  "client_session (MakeClerkRun 3 7) (\<lambda>_. answering) 0 2 (typed [PutC ''k'' ''v'', GetC ''k'']) =
    Some ([], client_menu @ enter_key @ enter_value @ client_menu @ enter_key @
      println [''Key: '', ''k'', '', Value: '', ''v''])"
proof -
  let ?cs = "[PutC ''k'' ''v'', GetC ''k'']"
  have t: "list_all typable ?cs" by (simp add: typable_def word_text_def is_space_def)
  have "perform_all (MakeClerkRun 3 7) (\<lambda>_. answering) 0 ?cs = Some (client_menu @ enter_key @ enter_value @
      client_menu @ enter_key @ println [''Key: '', ''k'', '', Value: '', ''v''])"
    by (simp add: answering_def MakeClerkRun_def Clerk_Put_def Clerk_PutAppend_def Clerk_Get_def retry_loop.simps)
  moreover have "client_session (MakeClerkRun 3 7) (\<lambda>_. answering) 0 (length ?cs) (typed ?cs) =
      map_option (\<lambda>out. ([], out)) (perform_all (MakeClerkRun 3 7) (\<lambda>_. answering) 0 ?cs)"
    using client_session_typed [OF t] by blast
  ultimately show ?thesis by (simp only: list.size option.map numeral_2_eq_2 add_Suc_right add_0_right One_nat_def)
qed

section \<open>The console of the server\<close>

text \<open>The network flag after a word.\<close>

definition switch :: "string \<Rightarrow> network_status \<Rightarrow> network_status" where
  "switch w st = (if w = ''b'' then Connect else if w = ''c'' then Disconnect else st)"

lemma server_turn_switch:
  "fst (server_turn iterate kv inp) =
     kv\<lparr>Rf := (Rf kv)\<lparr>Network := switch (fst (scan inp)) (Network (Rf kv))\<rparr>\<rparr> \<and>
   fst (snd (server_turn iterate kv inp)) = snd (scan inp)"
  by (auto simp: server_turn_def switch_def goConnect_def goDisconnect_def split_beta Let_def)

lemma switch_words:
  "fold switch (take (Suc n) (text_fields inp)) st =
     fold switch (take n (text_fields (snd (scan inp)))) (switch (fst (scan inp)) st)"
proof (cases "fst (scan inp) = []")
  case True
  have "text_fields (snd (scan inp)) = []"
    using True scan_fields [of inp] scan_fields [of "snd (scan inp)"] scan_idle [OF True] by simp
  with True show ?thesis by (subst scan_fields) (simp add: switch_def)
qed (subst scan_fields, simp)

text \<open>Whatever is typed at a server's console, the only state it changes is the network flag, which is
  what the last \<open>b\<close> or \<open>c\<close> among the words read has made it; the log, the store and everything else are
  as they were. Printing the state machine names every key of the store with its value once.\<close>

theorem server_console_only_switches:
  assumes "map_of (iterate (storage kv)) = storage kv" and "distinct (map fst (iterate (storage kv)))"
  shows "fst (server_session iterate n kv inp) =
      kv\<lparr>Rf := (Rf kv)\<lparr>Network := fold switch (take n (text_fields inp)) (Network (Rf kv))\<rparr>\<rparr> \<and>
    (\<exists>ps. PrintStateMachine iterate kv = println [menu_line] @ println [''State Machine:''] @
        concat (map (\<lambda>(i, v). ''Key: '' @ i @ '', Value: '' @ '' '' @ v @ newline) ps) @ menu_line @ newline @ newline \<and>
      distinct (map fst ps) \<and> set ps = {(i, v). storage kv i = Some v})"
proof
  show "fst (server_session iterate n kv inp) =
      kv\<lparr>Rf := (Rf kv)\<lparr>Network := fold switch (take n (text_fields inp)) (Network (Rf kv))\<rparr>\<rparr>"
  proof (induction n arbitrary: kv inp)
    case (Suc n)
    then show ?case
      using server_turn_switch [of iterate kv inp] by (simp add: split_beta switch_words Let_def)
  qed simp
  let ?ps = "iterate (storage kv)"
  have d: "distinct (map fst ?ps)" and m: "map_of ?ps = storage kv" using assms by simp_all
  have "(i, v) \<in> set ?ps \<longleftrightarrow> map_of ?ps i = Some v" for i v using d by simp
  then have "(i, v) \<in> set ?ps \<longleftrightarrow> storage kv i = Some v" for i v by (simp only: m)
  then have "set ?ps = {(i, v). storage kv i = Some v}" by auto
  with d show "\<exists>ps. PrintStateMachine iterate kv = println [menu_line] @ println [''State Machine:''] @
        concat (map (\<lambda>(i, v). ''Key: '' @ i @ '', Value: '' @ '' '' @ v @ newline) ps) @ menu_line @ newline @ newline \<and>
      distinct (map fst ps) \<and> set ps = {(i, v). storage kv i = Some v}"
    by (intro exI [of _ ?ps]) (simp add: PrintStateMachine_def println_def unwords_def split_beta)
qed

definition printing :: KVServer where
  "printing = (StartKVServerRun 3 1 None 0)\<lparr>storage := [''k'' \<mapsto> ''v'']\<rparr>"

theorem server_console_only_switches_witness:
  "Network (Rf (fst (server_session (\<lambda>_. [(''k'', ''v'')]) 3 printing ''b c x''))) = Disconnect \<and>
   storage (fst (server_session (\<lambda>_. [(''k'', ''v'')]) 3 printing ''b c x'')) = [''k'' \<mapsto> ''v'']"
proof -
  have "text_fields ''b c x'' = [''b'', ''c'', ''x'']"
    by (simp add: text_fields_def is_space_def)
  moreover have "map_of [(''k'', ''v'')] = storage printing" by (simp add: printing_def fun_eq_iff)
  ultimately show ?thesis
    using server_console_only_switches [of "\<lambda>_. [(''k'', ''v'')]" printing 3 "''b c x''"]
    by (simp add: switch_def printing_def)
qed

end
