(* ===== verification/Runner.thy ===== *)
theory Runner
  imports Kv_Console
begin

text \<open>
  The processes of run mode (\<open>runner/srunner/main/sRun.go\<close>, \<open>runner/crunner/main/cRun.go\<close>): reading the
  list of servers, finding the own line in it, and starting the server or the clerk. The address of the
  machine, the file system and the printed list of servers are arguments or left out.
\<close>

section \<open>The programs\<close>



text \<open>The loop that looks for the own line, with the index of the line in hand.\<close>

fun find_me :: "string list \<Rightarrow> string \<Rightarrow> int \<Rightarrow> int" where
  "find_me [] ip k = -1"
| "find_me (v # servers) ip k = (if str_contains v ip then k else find_me servers ip (k + 1))"



section \<open>The own line\<close>






text \<open>The test is for a substring: a machine whose address is the beginning of another's takes the line of
  the other.\<close>

lemma address_prefix_confused:
  "find_me [''10.0.0.12:80'', ''10.0.0.1:80''] ''10.0.0.1'' 0 = 0"
  by simp

end
