(* ===== verification/Porc_Bitset.thy ===== *)
theory Porc_Bitset
  imports Go_Prelude "HOL-Library.Word"
begin

text \<open>
  \<open>porcupine/bitset.go\<close>: sets of operation ids as a slice of 64-bit words. The interface a checker
  relies on is the locale \<open>id_set\<close>, interpreted on the words.
\<close>

unbundle bit_operations_syntax

section \<open>Operations\<close>

type_synonym bitset = "64 word list"

definition newBitset :: "nat \<Rightarrow> bitset" where
  "newBitset bits =
     (let extra = (if bits mod 64 \<noteq> 0 then 1 else 0); chunks = bits div 64 + extra
      in replicate chunks 0)"

definition clone :: "bitset \<Rightarrow> bitset" where
  "clone b = map (\<lambda>i. b ! i) [0..<length b]"

definition bitsetIndex :: "nat \<Rightarrow> nat \<times> nat" where
  "bitsetIndex pos = (pos div 64, pos mod 64)"

definition bs_set :: "bitset \<Rightarrow> nat \<Rightarrow> bitset go" where
  "bs_set b pos = (case bitsetIndex pos of (major, minor) \<Rightarrow>
     go_bind (go_index b (int major)) (\<lambda>w. Inr (b[major := w OR push_bit minor 1])))"

definition bs_clear :: "bitset \<Rightarrow> nat \<Rightarrow> bitset go" where
  "bs_clear b pos = (case bitsetIndex pos of (major, minor) \<Rightarrow>
     go_bind (go_index b (int major)) (\<lambda>w. Inr (b[major := w AND NOT (push_bit minor 1)])))"

definition bs_get :: "bitset \<Rightarrow> nat \<Rightarrow> bool go" where
  "bs_get b pos = (case bitsetIndex pos of (major, minor) \<Rightarrow>
     go_bind (go_index b (int major)) (\<lambda>w. Inr (w AND push_bit minor 1 \<noteq> 0)))"

text \<open>\<open>bits.OnesCount64\<close> of the Go library: the number of bits that are set.\<close>

definition onesCount64 :: "64 word \<Rightarrow> nat" where
  "onesCount64 v = length (filter (bit v) [0..<64])"

definition popcnt :: "bitset \<Rightarrow> nat" where
  "popcnt b = fold (\<lambda>v total. total + onesCount64 v) b 0"

definition bs_hash :: "bitset \<Rightarrow> 64 word" where
  "bs_hash b = fold (\<lambda>v h. h XOR v) b (of_nat (popcnt b))"

definition bs_equals :: "bitset \<Rightarrow> bitset \<Rightarrow> bool" where
  "bs_equals b b2 =
     (if length b \<noteq> length b2 then False
      else list_all (\<lambda>i. b ! i = b2 ! i) [0..<length b])"

section \<open>The set a bitset stands for\<close>

definition members :: "bitset \<Rightarrow> nat set" where
  "members b = {p. p div 64 < length b \<and> bit (b ! (p div 64)) (p mod 64)}"

definition capacity :: "bitset \<Rightarrow> nat" where
  "capacity b = 64 * length b"

lemma clone_id [simp]: "clone b = b"
  by (simp add: clone_def map_nth)

lemma index_in_capacity: "p < capacity b \<longleftrightarrow> p div 64 < length b"
  by (simp add: capacity_def less_mult_imp_div_less div_less_iff_less_mult mult.commute)

lemma bit_chunk_set:
  "m < 64 \<Longrightarrow> bit (w OR push_bit m 1 :: 64 word) i \<longleftrightarrow> bit w i \<or> i = m"
  by (auto simp: bit_simps)

lemma bit_chunk_clear:
  "m < 64 \<Longrightarrow> bit (w AND NOT (push_bit m 1) :: 64 word) i \<longleftrightarrow> bit w i \<and> i \<noteq> m"
  by (auto simp: bit_simps dest: bit_imp_le_length)

lemma chunk_get: "(w AND push_bit m 1 \<noteq> (0 :: 64 word)) \<longleftrightarrow> bit w m"
  by (rule bit_iff_and_push_bit_not_eq_0 [symmetric])

lemma chunk_index: "p < capacity b \<Longrightarrow> go_index b (int (p div 64)) = Inr (b ! (p div 64))"
  by (simp add: go_index_def index_in_capacity flip: of_nat_div)

text \<open>Changing the bit of \<open>p\<close> in its word changes only the membership of \<open>p\<close>.\<close>

lemma members_update:
  assumes "p < capacity b" and "\<And>i. i < 64 \<Longrightarrow> bit w i \<longleftrightarrow> (if i = p mod 64 then v else bit (b ! (p div 64)) i)"
  shows "q \<in> members (b[p div 64 := w]) \<longleftrightarrow> (if q = p then v else q \<in> members b)"
proof (cases "q div 64 = p div 64")
  case True
  moreover have "q mod 64 = p mod 64 \<longleftrightarrow> q = p"
    using True by (metis div_mult_mod_eq)
  moreover have "q mod 64 < 64" by simp
  ultimately show ?thesis using assms by (simp add: members_def index_in_capacity)
next
  case False
  then have "q \<noteq> p" and "b[p div 64 := w] ! (q div 64) = b ! (q div 64)" by auto
  then show ?thesis by (simp add: members_def)
qed

lemma members_update_set:
  assumes "p < capacity b" and "\<And>i. i < 64 \<Longrightarrow> bit w i \<longleftrightarrow> (if i = p mod 64 then v else bit (b ! (p div 64)) i)"
  shows "members (b[p div 64 := w]) = (if v then insert p (members b) else members b - {p})"
proof (rule set_eqI)
  fix q
  have "q \<in> members (b[p div 64 := w]) \<longleftrightarrow> (if q = p then v else q \<in> members b)"
    using assms by (rule members_update)
  then show "q \<in> members (b[p div 64 := w]) \<longleftrightarrow>
      q \<in> (if v then insert p (members b) else members b - {p})"
    by (cases v; cases "q = p") simp_all
qed

lemma bs_set_spec:
  assumes "p < capacity b"
  shows "\<exists>b'. bs_set b p = Inr b' \<and> members b' = insert p (members b) \<and> capacity b' = capacity b"
proof -
  let ?b' = "b[p div 64 := b ! (p div 64) OR push_bit (p mod 64) 1]"
  have "bs_set b p = Inr ?b'"
    unfolding bs_set_def bitsetIndex_def prod.case chunk_index [OF assms] go_bind.simps ..
  moreover have "members ?b' = (if True then insert p (members b) else members b - {p})"
    using assms by (rule members_update_set) (simp add: bit_chunk_set del: push_bit_of_1)
  ultimately show ?thesis by (intro exI [of _ ?b'] conjI) (simp_all only: capacity_def length_list_update if_True if_False)
qed

lemma bs_clear_spec:
  assumes "p < capacity b"
  shows "\<exists>b'. bs_clear b p = Inr b' \<and> members b' = members b - {p} \<and> capacity b' = capacity b"
proof -
  let ?b' = "b[p div 64 := b ! (p div 64) AND NOT (push_bit (p mod 64) 1)]"
  have "bs_clear b p = Inr ?b'"
    unfolding bs_clear_def bitsetIndex_def prod.case chunk_index [OF assms] go_bind.simps ..
  moreover have "members ?b' = (if False then insert p (members b) else members b - {p})"
    using assms by (rule members_update_set) (simp add: bit_chunk_clear del: push_bit_of_1)
  ultimately show ?thesis by (intro exI [of _ ?b'] conjI) (simp_all only: capacity_def length_list_update if_True if_False)
qed

lemma bs_get_spec: "p < capacity b \<Longrightarrow> bs_get b p = Inr (p \<in> members b)"
  unfolding bs_get_def bitsetIndex_def prod.case
  by (simp only: chunk_index go_bind.simps chunk_get) (simp add: members_def index_in_capacity)

lemma newBitset_spec: "members (newBitset n) = {} \<and> n \<le> capacity (newBitset n)"
proof -
  have "members (newBitset n) = {}" by (auto simp: members_def newBitset_def Let_def)
  moreover have "n \<le> 64 * (n div 64 + (if n mod 64 \<noteq> 0 then 1 else 0))"
  proof (cases "n mod 64 = 0")
    case True
    then show ?thesis using div_mult_mod_eq [of n 64] by simp
  next
    case False
    moreover have "n mod 64 < 64" by simp
    ultimately show ?thesis using div_mult_mod_eq [of n 64] by simp
  qed
  ultimately show ?thesis by (simp add: capacity_def newBitset_def Let_def)
qed

lemma bs_equals_eq: "bs_equals b b2 \<longleftrightarrow> b = b2"
  by (auto simp: bs_equals_def list_all_iff intro: nth_equalityI)

lemma members_subset: "members b \<subseteq> {..<capacity b}"
  by (auto simp: members_def index_in_capacity)

lemma bs_equals_spec:
  assumes "capacity b = capacity b2"
  shows "bs_equals b b2 \<longleftrightarrow> members b = members b2"
proof
  assume m: "members b = members b2"
  have l: "length b = length b2" using assms by (simp add: capacity_def)
  have "b ! i = b2 ! i" if "i < length b" for i
  proof (rule bit_eqI)
    fix k assume "possible_bit TYPE(64 word) k"
    then have "k < 64" by simp
    then have "(64 * i + k) div 64 = i" and "(64 * i + k) mod 64 = k" by simp_all
    moreover have "64 * i + k \<in> members b \<longleftrightarrow> 64 * i + k \<in> members b2" using m by simp
    ultimately show "bit (b ! i) k = bit (b2 ! i) k" using that l by (simp add: members_def)
  qed
  with l show "bs_equals b b2" by (simp add: bs_equals_eq list_eq_iff_nth_eq)
qed (simp add: bs_equals_eq)

lemma onesCount64_card: "onesCount64 v = card {i. bit v i}"
proof -
  have "{i. bit v i} = set (filter (bit v) [0..<64])" by (auto dest: bit_imp_le_length)
  moreover have "card (set (filter (bit v) [0..<64])) = length (filter (bit v) [0..<64])"
    by (rule distinct_card) simp
  ultimately show ?thesis by (simp only: onesCount64_def)
qed

section \<open>The interface\<close>

text \<open>
  What the search needs of its sets: insertion and removal of an id below the capacity, which do not
  fail, and an equality test that decides equality of the sets.
\<close>

locale id_set =
  fixes elems :: "'s \<Rightarrow> nat set"
    and room :: "'s \<Rightarrow> nat"
    and insert_id :: "'s \<Rightarrow> nat \<Rightarrow> 's go"
    and remove_id :: "'s \<Rightarrow> nat \<Rightarrow> 's go"
    and same :: "'s \<Rightarrow> 's \<Rightarrow> bool"
  assumes insert_law: "p < room s \<Longrightarrow>
      \<exists>s'. insert_id s p = Inr s' \<and> elems s' = insert p (elems s) \<and> room s' = room s"
    and remove_law: "p < room s \<Longrightarrow>
      \<exists>s'. remove_id s p = Inr s' \<and> elems s' = elems s - {p} \<and> room s' = room s"
    and same_law: "room s = room s' \<Longrightarrow> same s s' \<longleftrightarrow> elems s = elems s'"
begin

text \<open>Removing a fresh element after inserting it gives back an equal set.\<close>

lemma insert_remove:
  assumes "p < room s" and "p \<notin> elems s" and "insert_id s p = Inr s1" and "remove_id s1 p = Inr s2"
  shows "same s2 s"
proof -
  from insert_law [OF assms(1)] assms(3) have e: "elems s1 = insert p (elems s)" "room s1 = room s"
    by auto
  then have "elems s2 = elems s1 - {p}" and "room s2 = room s1"
    using remove_law [of p s1] assms(1,4) by auto
  with e assms(2) show ?thesis by (subst same_law) auto
qed

text \<open>Inserting ids one by one.\<close>

fun insert_all :: "'s \<Rightarrow> nat list \<Rightarrow> 's go" where
  "insert_all s [] = Inr s"
| "insert_all s (p # ps) = go_bind (insert_id s p) (\<lambda>s1. insert_all s1 ps)"

lemma insert_all_elems:
  "\<forall>p \<in> set ps. p < room s \<Longrightarrow>
     \<exists>s'. insert_all s ps = Inr s' \<and> elems s' = elems s \<union> set ps \<and> room s' = room s"
proof (induction ps arbitrary: s)
  case Nil
  then show ?case by simp
next
  case (Cons p ps)
  then obtain s1 where "insert_id s p = Inr s1" "elems s1 = insert p (elems s)" "room s1 = room s"
    using insert_law [of p s] by auto
  with Cons.IH [of s1] Cons.prems show ?case by auto
qed

end

interpretation words: id_set members capacity bs_set bs_clear bs_equals
  by unfold_locales (simp_all add: bs_set_spec bs_clear_spec bs_equals_spec)

end
