(* ===== verification/Porc_Model.thy ===== *)
theory Porc_Model
  imports Go_Prelude "HOL-Library.Char_ord" "HOL-Library.List_Lexorder" "HOL-Library.Word"
begin

text \<open>
  The types of \<open>porcupine/model.go\<close> and the model of the key-value store in \<open>models/kv.go\<close>. A value of
  type \<open>interface{}\<close> is an input or an output, so the type assertions of a model are pattern matches
  on the sum. The fields of a model that describe operations and states are not part of the record; the
  description of the key-value operations is a function of its own.
\<close>

section \<open>Histories and models\<close>

record ('i, 'o) Operation =
  Operation_ClientId :: int
  Operation_Input :: 'i
  Operation_Call :: int
  Operation_Output :: 'o
  Operation_Return :: int

datatype EventKind = CallEvent | ReturnEvent

record ('i, 'o) Event =
  Event_ClientId :: int
  Event_Kind :: EventKind
  Event_Value :: "'i + 'o"
  Event_Id :: int

text \<open>A function field that may be nil is an option.\<close>

record ('i, 'o, 'st) Model =
  Partition :: "(('i, 'o) Operation list \<Rightarrow> ('i, 'o) Operation list list) option"
  PartitionEvent :: "(('i, 'o) Event list \<Rightarrow> ('i, 'o) Event list list) option"
  Init :: 'st
  Step :: "'st \<Rightarrow> 'i \<Rightarrow> 'o \<Rightarrow> bool \<times> 'st"
  Equal :: "('st \<Rightarrow> 'st \<Rightarrow> bool) option"

datatype CheckResult = Unknown | Ok | Illegal

definition NoPartition :: "('i, 'o) Operation list \<Rightarrow> ('i, 'o) Operation list list" where
  "NoPartition history = [history]"

definition NoPartitionEvent :: "('i, 'o) Event list \<Rightarrow> ('i, 'o) Event list list" where
  "NoPartitionEvent history = [history]"

definition ShallowEqual :: "'st \<Rightarrow> 'st \<Rightarrow> bool" where
  "ShallowEqual state1 state2 \<longleftrightarrow> state1 = state2"

definition fillDefault :: "('i, 'o, 'st) Model \<Rightarrow> ('i, 'o, 'st) Model" where
  "fillDefault m = m\<lparr>
     Partition := (case Partition m of None \<Rightarrow> Some NoPartition | Some f \<Rightarrow> Some f),
     PartitionEvent := (case PartitionEvent m of None \<Rightarrow> Some NoPartitionEvent | Some f \<Rightarrow> Some f),
     Equal := (case Equal m of None \<Rightarrow> Some ShallowEqual | Some f \<Rightarrow> Some f)\<rparr>"

section \<open>The key-value model\<close>

text \<open>\<open>Op\<close> is a \<open>uint8\<close>: 0 is get, 1 is put, and every other number is an append.\<close>

record KvInput =
  KvInput_Op :: "8 word"
  KvInput_Key :: string
  KvInput_Value :: string

record KvOutput =
  KvOutput_Value :: string

type_synonym kv_operation = "(KvInput, KvOutput) Operation"

definition op_key :: "kv_operation \<Rightarrow> string" where
  "op_key v = KvInput_Key (Operation_Input v)"

text \<open>The map from keys to their operations, the sorted list of its keys, and the partition.\<close>

definition kv_group :: "kv_operation list \<Rightarrow> (string \<rightharpoonup> kv_operation list)" where
  "kv_group history =
     foldl (\<lambda>m v. m(op_key v \<mapsto> go_get [] m (op_key v) @ [v])) Map.empty history"

definition kv_keys :: "kv_operation list \<Rightarrow> string list" where
  "kv_keys history = sort (remdups (map op_key history))"

definition kv_Partition :: "kv_operation list \<Rightarrow> kv_operation list list" where
  "kv_Partition history = map (\<lambda>k. go_get [] (kv_group history) k) (kv_keys history)"

definition kv_Step :: "string \<Rightarrow> KvInput \<Rightarrow> KvOutput \<Rightarrow> bool \<times> string" where
  "kv_Step st inp out =
     (if KvInput_Op inp = 0 then (KvOutput_Value out = st, st)
      else if KvInput_Op inp = 1 then (True, KvInput_Value inp)
      else (True, st @ KvInput_Value inp))"

text \<open>\<open>DescribeOperation\<close>: \<open>quoted\<close> is the verb \<open>'%s'\<close> of the format string.\<close>

definition quoted :: "string \<Rightarrow> string" where
  "quoted s = [CHR 0x27] @ s @ [CHR 0x27]"

definition kv_DescribeOperation :: "KvInput \<Rightarrow> KvOutput \<Rightarrow> string" where
  "kv_DescribeOperation inp out =
     (if KvInput_Op inp = 0 then
        ''get('' @ quoted (KvInput_Key inp) @ '') -> '' @ quoted (KvOutput_Value out)
      else if KvInput_Op inp = 1 then
        ''put('' @ quoted (KvInput_Key inp) @ '', '' @ quoted (KvInput_Value inp) @ '')''
      else if KvInput_Op inp = 2 then
        ''append('' @ quoted (KvInput_Key inp) @ '', '' @ quoted (KvInput_Value inp) @ '')''
      else ''<invalid>'')"

definition KvModel :: "(KvInput, KvOutput, string) Model" where
  "KvModel = \<lparr>Partition = Some kv_Partition, PartitionEvent = None, Init = [], Step = kv_Step,
     Equal = None\<rparr>"

section \<open>The partition\<close>

lemma kv_group_foldl:
  "go_get [] (foldl (\<lambda>m v. m(op_key v \<mapsto> go_get [] m (op_key v) @ [v])) m history) k =
     go_get [] m k @ filter (\<lambda>v. op_key v = k) history"
  by (induction history arbitrary: m) auto

lemma kv_group_filter: "go_get [] (kv_group history) k = filter (\<lambda>v. op_key v = k) history"
  by (simp add: kv_group_def kv_group_foldl)

lemma kv_Partition_filter:
  "kv_Partition history = map (\<lambda>k. filter (\<lambda>v. op_key v = k) history) (kv_keys history)"
  by (simp add: kv_Partition_def kv_group_filter)

lemma kv_keys_facts:
  "set (kv_keys history) = op_key ` set history" "sorted (kv_keys history)" "distinct (kv_keys history)"
  by (auto simp: kv_keys_def)

end
