(* ===== verification/Porc_Checker.thy ===== *)
theory Porc_Checker
  imports Porc_Bitset Porc_Model "HOL-Library.Multiset"
begin

text \<open>
  \<open>porcupine/checker.go\<close>: the entries of a history, the doubly linked list of nodes with its lift and
  unlift operations, the search \<open>checkSingle\<close> with its cache and call stack, and the collection of the
  partitions' results. The heap of nodes is a map from addresses; following a nil pointer is a panic.
\<close>

section \<open>Entries\<close>

datatype entryKind = callEntry | returnEntry

record ('i, 'o) entry =
  entry_kind :: entryKind
  entry_value :: "'i + 'o"
  entry_id :: int
  entry_time :: int
  entry_clientId :: int

fun operation_entries :: "int \<Rightarrow> ('i, 'o) Operation list \<Rightarrow> ('i, 'o) entry list" where
  "operation_entries ident [] = []"
| "operation_entries ident (elem # history) =
     \<lparr>entry_kind = callEntry, entry_value = Inl (Operation_Input elem), entry_id = ident,
      entry_time = Operation_Call elem, entry_clientId = Operation_ClientId elem\<rparr>
     # \<lparr>entry_kind = returnEntry, entry_value = Inr (Operation_Output elem), entry_id = ident,
        entry_time = Operation_Return elem, entry_clientId = Operation_ClientId elem\<rparr>
     # operation_entries (ident + 1) history"

text \<open>
  \<open>sort.Sort\<close> of the Go library is not stable: it returns a permutation sorted by time, and the order
  of entries of equal time is up to the library. It is the argument \<open>sortByTime\<close>.
\<close>

definition sorts_by_time :: "(('i, 'o) entry list \<Rightarrow> ('i, 'o) entry list) \<Rightarrow> bool" where
  "sorts_by_time f \<longleftrightarrow> (\<forall>es. mset (f es) = mset es \<and> sorted (map entry_time (f es)))"

definition makeEntries ::
  "(('i, 'o) entry list \<Rightarrow> ('i, 'o) entry list) \<Rightarrow> ('i, 'o) Operation list \<Rightarrow> ('i, 'o) entry list" where
  "makeEntries sortByTime history = sortByTime (operation_entries 0 history)"

text \<open>\<open>renumber\<close>: the state of its loop is the map of the ids seen and the next id.\<close>

fun renumber_loop ::
  "(int \<rightharpoonup> int) \<Rightarrow> int \<Rightarrow> ('i, 'o) Event list \<Rightarrow> ('i, 'o) Event list" where
  "renumber_loop m ident [] = []"
| "renumber_loop m ident (v # events) =
     (case m (Event_Id v) of
        Some r \<Rightarrow> v\<lparr>Event_Id := r\<rparr> # renumber_loop m ident events
      | None \<Rightarrow> v\<lparr>Event_Id := ident\<rparr> # renumber_loop (m(Event_Id v \<mapsto> ident)) (ident + 1) events)"

definition renumber :: "('i, 'o) Event list \<Rightarrow> ('i, 'o) Event list" where
  "renumber events = renumber_loop Map.empty 0 events"

definition convertEntries :: "('i, 'o) Event list \<Rightarrow> ('i, 'o) entry list" where
  "convertEntries events =
     map (\<lambda>(i, elem). \<lparr>entry_kind = (if Event_Kind elem = ReturnEvent then returnEntry else callEntry),
        entry_value = Event_Value elem, entry_id = Event_Id elem, entry_time = int i,
        entry_clientId = Event_ClientId elem\<rparr>) (enumerate 0 events)"

section \<open>Nodes\<close>

type_synonym ptr = "nat option"

record ('i, 'o) node =
  node_value :: "('i + 'o) option"
  node_match :: ptr
  node_id :: int
  node_next :: ptr
  node_prev :: ptr

type_synonym ('i, 'o) heap = "nat \<rightharpoonup> ('i, 'o) node"

definition deref :: "('i, 'o) heap \<Rightarrow> ptr \<Rightarrow> ('i, 'o) node go" where
  "deref h p = (case p of None \<Rightarrow> Inl Panic
     | Some a \<Rightarrow> (case h a of None \<Rightarrow> Inl Panic | Some nd \<Rightarrow> Inr nd))"

definition set_next :: "('i, 'o) heap \<Rightarrow> ptr \<Rightarrow> ptr \<Rightarrow> ('i, 'o) heap go" where
  "set_next h p q = go_bind (deref h p) (\<lambda>nd. Inr (h(the p \<mapsto> nd\<lparr>node_next := q\<rparr>)))"

definition set_prev :: "('i, 'o) heap \<Rightarrow> ptr \<Rightarrow> ptr \<Rightarrow> ('i, 'o) heap go" where
  "set_prev h p q = go_bind (deref h p) (\<lambda>nd. Inr (h(the p \<mapsto> nd\<lparr>node_prev := q\<rparr>)))"

definition insertBefore :: "('i, 'o) heap \<Rightarrow> ptr \<Rightarrow> ptr \<Rightarrow> ('i, 'o) heap go" where
  "insertBefore h n mark =
     (if mark = None then Inr h
      else go_bind (deref h mark) (\<lambda>mk.
        let beforeMark = node_prev mk in
        go_bind (set_prev h mark n) (\<lambda>h1.
        go_bind (set_next h1 n mark) (\<lambda>h2.
          if beforeMark \<noteq> None then
            go_bind (set_prev h2 n beforeMark) (\<lambda>h3. set_next h3 beforeMark n)
          else Inr h2))))"

text \<open>The loop that counts nodes; it does not return on a cyclic list.\<close>

partial_function (option) node_length :: "('i, 'o) heap \<Rightarrow> ptr \<Rightarrow> nat \<Rightarrow> nat go option" where
  "node_length h n l =
     (if n = None then Some (Inr l)
      else (case deref h n of
              Inl e \<Rightarrow> Some (Inl e)
            | Inr nd \<Rightarrow> node_length h (node_next nd) (l + 1)))"

text \<open>One turn of the loop of \<open>makeLinkedEntries\<close>; the loop runs from the last entry to the first. The
  state is the heap, the map \<open>match\<close>, the root and the next free address.\<close>

type_synonym ('i, 'o) linking = "('i, 'o) heap \<times> (int \<rightharpoonup> nat) \<times> ptr \<times> nat"

definition link_entry :: "('i, 'o) entry \<Rightarrow> ('i, 'o) linking \<Rightarrow> ('i, 'o) linking go" where
  "link_entry elem s = (case s of (h, mtch, root, free) \<Rightarrow>
     if entry_kind elem = returnEntry then
       let nd = \<lparr>node_value = Some (entry_value elem), node_match = None, node_id = entry_id elem,
                 node_next = None, node_prev = None\<rparr>
       in go_bind (insertBefore (h(free \<mapsto> nd)) (Some free) root) (\<lambda>h1.
            Inr (h1, mtch(entry_id elem \<mapsto> free), Some free, free + 1))
     else
       let nd = \<lparr>node_value = Some (entry_value elem), node_match = mtch (entry_id elem),
                 node_id = entry_id elem, node_next = None, node_prev = None\<rparr>
       in go_bind (insertBefore (h(free \<mapsto> nd)) (Some free) root) (\<lambda>h1.
            Inr (h1, mtch, Some free, free + 1)))"

fun makeLinkedEntries :: "('i, 'o) entry list \<Rightarrow> ('i, 'o) linking go" where
  "makeLinkedEntries [] = Inr (Map.empty, Map.empty, None, 0)"
| "makeLinkedEntries (elem # entries) =
     go_bind (makeLinkedEntries entries) (\<lambda>s. link_entry elem s)"

definition lift :: "('i, 'o) heap \<Rightarrow> ptr \<Rightarrow> ('i, 'o) heap go" where
  "lift h ent =
     go_bind (deref h ent) (\<lambda>e.
     go_bind (set_next h (node_prev e) (node_next e)) (\<lambda>h1.
     go_bind (deref h1 ent) (\<lambda>e1.
     go_bind (set_prev h1 (node_next e1) (node_prev e1)) (\<lambda>h2.
     go_bind (deref h2 (node_match e)) (\<lambda>m.
     go_bind (set_next h2 (node_prev m) (node_next m)) (\<lambda>h3.
     go_bind (deref h3 (node_match e)) (\<lambda>m1.
       if node_next m1 \<noteq> None then set_prev h3 (node_next m1) (node_prev m1) else Inr h3)))))))"

definition unlift :: "('i, 'o) heap \<Rightarrow> ptr \<Rightarrow> ('i, 'o) heap go" where
  "unlift h ent =
     go_bind (deref h ent) (\<lambda>e.
     let mtch = node_match e in
     go_bind (deref h mtch) (\<lambda>m.
     go_bind (set_next h (node_prev m) mtch) (\<lambda>h1.
     go_bind (deref h1 mtch) (\<lambda>m1.
     go_bind (if node_next m1 \<noteq> None then set_prev h1 (node_next m1) mtch else Inr h1) (\<lambda>h2.
     go_bind (deref h2 ent) (\<lambda>e1.
     go_bind (set_next h2 (node_prev e1) ent) (\<lambda>h3.
     go_bind (deref h3 ent) (\<lambda>e2. set_prev h3 (node_next e2) ent))))))))"

section \<open>The search\<close>

text \<open>
  The variables of \<open>checkSingle\<close>. A cache entry is a pair of bitset and state; the cache maps hashes to
  lists of them. \<open>longest\<close> holds, per operation, the longest partial linearization found (the code
  shares the slices, the model copies them).
\<close>

type_synonym 'st cacheEntry = "bitset \<times> 'st"

record ('i, 'o, 'st) search =
  s_heap :: "('i, 'o) heap"
  s_entry :: ptr
  s_head :: ptr
  linearized :: bitset
  cache :: "64 word \<rightharpoonup> 'st cacheEntry list"
  calls :: "(nat \<times> 'st) list"
  s_state :: 'st
  longest :: "int list option list"

text \<open>The model has been through \<open>fillDefault\<close>, so its equality is there.\<close>

definition the_Equal :: "('i, 'o, 'st) Model \<Rightarrow> 'st \<Rightarrow> 'st \<Rightarrow> bool" where
  "the_Equal model = the (Equal (fillDefault model))"

definition cacheContains ::
  "('i, 'o, 'st) Model \<Rightarrow> (64 word \<rightharpoonup> 'st cacheEntry list) \<Rightarrow> 'st cacheEntry \<Rightarrow> bool" where
  "cacheContains model c ent =
     list_ex (\<lambda>elem. bs_equals (fst ent) (fst elem) \<and> the_Equal model (snd ent) (snd elem))
       (go_get [] c (bs_hash (fst ent)))"

text \<open>\<open>uint(i)\<close>.\<close>

definition uint_of :: "int \<Rightarrow> nat" where
  "uint_of i = nat (i mod 2 ^ 64)"

text \<open>\<open>model.Step\<close> on two values of type \<open>interface{}\<close>: its type assertions panic unless the first is an
  input and the second an output.\<close>

fun step_values ::
  "('i, 'o, 'st) Model \<Rightarrow> 'st \<Rightarrow> ('i + 'o) option \<Rightarrow> ('i + 'o) option \<Rightarrow> (bool \<times> 'st) go" where
  "step_values model st (Some (Inl i)) (Some (Inr out)) = Inr (Step model st i out)"
| "step_values model st _ _ = Inl Panic"

text \<open>The ids of the calls on the stack.\<close>

fun call_ids :: "('i, 'o) heap \<Rightarrow> (nat \<times> 'st) list \<Rightarrow> int list go" where
  "call_ids h [] = Inr []"
| "call_ids h ((a, st) # cs) =
     go_bind (deref h (Some a)) (\<lambda>nd. go_bind (call_ids h cs) (\<lambda>ids. Inr (node_id nd # ids)))"

text \<open>The loop that records the present stack for the operations it improves.\<close>

fun record_longest :: "int list \<Rightarrow> int list \<Rightarrow> int list option list \<Rightarrow> int list option list go" where
  "record_longest seq [] lg = Inr lg"
| "record_longest seq (i # is) lg =
     go_bind (go_index lg i) (\<lambda>old.
       record_longest seq is
         (if old = None \<or> length seq > length (the old) then lg[nat i := Some seq] else lg))"

text \<open>
  One turn of the search loop, for a head whose list is not empty: the next state, or the result.
\<close>

definition search_call ::
  "('i, 'o, 'st) Model \<Rightarrow> ('i, 'o, 'st) search \<Rightarrow> ('i, 'o) node \<Rightarrow> ('i, 'o) node \<Rightarrow>
     ('i, 'o, 'st) search go" where
  "search_call model s e matching =
     go_bind (step_values model (s_state s) (node_value e) (node_value matching)) (\<lambda>(good, newState).
       if good then
         go_bind (bs_set (clone (linearized s)) (uint_of (node_id e))) (\<lambda>newLinearized.
           if \<not> cacheContains model (cache s) (newLinearized, newState) then
             let hash = bs_hash newLinearized in
             go_bind (bs_set (linearized s) (uint_of (node_id e))) (\<lambda>lin.
             go_bind (lift (s_heap s) (s_entry s)) (\<lambda>h.
             go_bind (deref h (s_head s)) (\<lambda>hnd.
               Inr (s\<lparr>cache := (cache s)(hash \<mapsto> go_get [] (cache s) hash @ [(newLinearized, newState)]),
                      calls := calls s @ [(the (s_entry s), s_state s)], s_state := newState,
                      linearized := lin, s_heap := h, s_entry := node_next hnd\<rparr>))))
           else Inr (s\<lparr>s_entry := node_next e\<rparr>))
       else Inr (s\<lparr>s_entry := node_next e\<rparr>))"

definition search_backtrack ::
  "bool \<Rightarrow> ('i, 'o, 'st) search \<Rightarrow> ('i, 'o, 'st) search go" where
  "search_backtrack computePartial s =
     go_bind (if computePartial
         then go_bind (call_ids (s_heap s) (calls s)) (\<lambda>seq. record_longest seq seq (longest s))
         else Inr (longest s)) (\<lambda>lg.
       case last (calls s) of (a, st) \<Rightarrow>
         go_bind (deref (s_heap s) (Some a)) (\<lambda>e.
         go_bind (bs_clear (linearized s) (uint_of (node_id e))) (\<lambda>lin.
         go_bind (unlift (s_heap s) (Some a)) (\<lambda>h.
         go_bind (deref h (Some a)) (\<lambda>e'.
           Inr (s\<lparr>longest := lg, s_state := st, linearized := lin,
                  calls := butlast (calls s), s_heap := h, s_entry := node_next e'\<rparr>))))))"

definition search_turn ::
  "('i, 'o, 'st) Model \<Rightarrow> bool \<Rightarrow> bool \<Rightarrow> ('i, 'o, 'st) search \<Rightarrow>
     (('i, 'o, 'st) search + bool \<times> int list option list) go" where
  "search_turn model computePartial kill s =
     (if kill then Inr (Inr (False, longest s))
      else go_bind (deref (s_heap s) (s_entry s)) (\<lambda>e.
        if node_match e \<noteq> None then
          go_bind (deref (s_heap s) (node_match e)) (\<lambda>matching.
            go_bind (search_call model s e matching) (\<lambda>s'. Inr (Inl s')))
        else if calls s = [] then Inr (Inr (False, longest s))
        else go_bind (search_backtrack computePartial s) (\<lambda>s'. Inr (Inl s'))))"

text \<open>
  The loop, with fuel; \<open>kill t\<close> is whether the flag is found set in turn \<open>t\<close>. When the head has no next
  node, the stack is the complete linearization.
\<close>

fun search_loop ::
  "nat \<Rightarrow> ('i, 'o, 'st) Model \<Rightarrow> bool \<Rightarrow> (nat \<Rightarrow> bool) \<Rightarrow> nat \<Rightarrow> ('i, 'o, 'st) search \<Rightarrow>
     (bool \<times> int list option list) go option" where
  "search_loop 0 model computePartial kill t s = None"
| "search_loop (Suc fuel) model computePartial kill t s =
     (case deref (s_heap s) (s_head s) of
        Inl e \<Rightarrow> Some (Inl e)
      | Inr hnd \<Rightarrow>
          if node_next hnd = None then
            Some (go_bind (call_ids (s_heap s) (calls s)) (\<lambda>seq.
              Inr (True, replicate (length (longest s)) (Some seq))))
          else (case search_turn model computePartial (kill t) s of
                  Inl e \<Rightarrow> Some (Inl e)
                | Inr (Inr r) \<Rightarrow> Some (Inr r)
                | Inr (Inl s') \<Rightarrow> search_loop fuel model computePartial kill (t + 1) s'))"

text \<open>The state the loop starts in. \<open>None\<close> would be a cyclic list.\<close>

definition search_init ::
  "('i, 'o, 'st) Model \<Rightarrow> ('i, 'o) entry list \<Rightarrow> ('i, 'o, 'st) search go option" where
  "search_init model history =
     (case makeLinkedEntries history of
        Inl e \<Rightarrow> Some (Inl e)
      | Inr (h, mtch, root, free) \<Rightarrow>
          (case node_length h root 0 of
             None \<Rightarrow> None
           | Some (Inl e) \<Rightarrow> Some (Inl e)
           | Some (Inr len) \<Rightarrow>
               (let n = len div 2;
                    hnd = \<lparr>node_value = None, node_match = None, node_id = -1, node_next = None,
                          node_prev = None\<rparr>
                in Some (go_bind (insertBefore (h(free \<mapsto> hnd)) (Some free) root) (\<lambda>h1.
                     Inr \<lparr>s_heap = h1, s_entry = root, s_head = Some free,
                          linearized = newBitset n, cache = Map.empty, calls = [],
                          s_state = Init model, longest = replicate n None\<rparr>)))))"

definition checkSingle ::
  "nat \<Rightarrow> ('i, 'o, 'st) Model \<Rightarrow> ('i, 'o) entry list \<Rightarrow> bool \<Rightarrow> (nat \<Rightarrow> bool) \<Rightarrow>
     (bool \<times> int list option list) go option" where
  "checkSingle fuel model history computePartial kill =
     (case search_init model history of
        None \<Rightarrow> None
      | Some (Inl e) \<Rightarrow> Some (Inl e)
      | Some (Inr s) \<Rightarrow> search_loop fuel model computePartial kill 0 s)"

section \<open>Collecting the partitions\<close>

text \<open>
  What the select loop of \<open>checkParallel\<close> receives, in order: the result of partition \<open>i\<close>, or the
  timeout. The kill flag is only set when the loop is left, so the results received are those of
  undisturbed searches. \<open>collect\<close> returns \<open>(ok, timedOut)\<close>; a search that panics takes the program
  with it, and \<open>None\<close> means that the loop still waits after the given arrivals (for ever, if nothing
  else can arrive).
\<close>

datatype arrival = Result nat | Timeout

fun collect ::
  "(bool \<times> int list option list) go option list \<Rightarrow> bool \<Rightarrow> bool \<Rightarrow> nat \<Rightarrow> arrival list \<Rightarrow>
     (bool \<times> bool) go option" where
  "collect results computeInfo good cnt [] = None"
| "collect results computeInfo good cnt (Timeout # es) = Some (Inr (good, True))"
| "collect results computeInfo good cnt (Result i # es) =
     (case results ! i of
        None \<Rightarrow> None
      | Some (Inl e) \<Rightarrow> Some (Inl e)
      | Some (Inr (r, _)) \<Rightarrow>
          (let good' = (good \<and> r); cnt' = cnt + 1 in
           if \<not> good' \<and> \<not> computeInfo then Some (Inr (good', False))
           else if cnt' \<ge> length results then Some (Inr (good', False))
           else collect results computeInfo good' cnt' es))"

definition verdict :: "bool \<times> bool \<Rightarrow> CheckResult" where
  "verdict r = (case r of (good, timedOut) \<Rightarrow>
     if \<not> good then Illegal else if timedOut then Unknown else Ok)"

definition checkParallel ::
  "nat \<Rightarrow> ('i, 'o, 'st) Model \<Rightarrow> ('i, 'o) entry list list \<Rightarrow> bool \<Rightarrow> arrival list \<Rightarrow>
     CheckResult go option" where
  "checkParallel fuel model history computeInfo arrivals =
     (let results = map (\<lambda>sub. checkSingle fuel model sub computeInfo (\<lambda>_. False)) history
      in map_option (\<lambda>m. go_bind m (\<lambda>r. Inr (verdict r))) (collect results computeInfo True 0 arrivals))"

definition checkOperations ::
  "nat \<Rightarrow> (('i, 'o) entry list \<Rightarrow> ('i, 'o) entry list) \<Rightarrow> ('i, 'o, 'st) Model \<Rightarrow>
     ('i, 'o) Operation list \<Rightarrow> bool \<Rightarrow> arrival list \<Rightarrow> CheckResult go option" where
  "checkOperations fuel sortByTime model0 history verbose arrivals =
     (let model = fillDefault model0;
          partitions = the (Partition model) history;
          l = map (makeEntries sortByTime) partitions
      in checkParallel fuel model l verbose arrivals)"

definition checkEvents ::
  "nat \<Rightarrow> ('i, 'o, 'st) Model \<Rightarrow> ('i, 'o) Event list \<Rightarrow> bool \<Rightarrow> arrival list \<Rightarrow>
     CheckResult go option" where
  "checkEvents fuel model0 history verbose arrivals =
     (let model = fillDefault model0;
          partitions = the (PartitionEvent model) history;
          l = map (\<lambda>sub. convertEntries (renumber sub)) partitions
      in checkParallel fuel model l verbose arrivals)"

text \<open>
  The exported functions of \<open>porcupine.go\<close>; those that take no timeout get an order of results only.
\<close>

definition CheckOperations ::
  "nat \<Rightarrow> (('i, 'o) entry list \<Rightarrow> ('i, 'o) entry list) \<Rightarrow> ('i, 'o, 'st) Model \<Rightarrow>
     ('i, 'o) Operation list \<Rightarrow> nat list \<Rightarrow> bool go option" where
  "CheckOperations fuel sortByTime model history order =
     map_option (\<lambda>m. go_bind m (\<lambda>res. Inr (res = Ok)))
       (checkOperations fuel sortByTime model history False (map Result order))"

definition CheckOperationsTimeout ::
  "nat \<Rightarrow> (('i, 'o) entry list \<Rightarrow> ('i, 'o) entry list) \<Rightarrow> ('i, 'o, 'st) Model \<Rightarrow>
     ('i, 'o) Operation list \<Rightarrow> arrival list \<Rightarrow> CheckResult go option" where
  "CheckOperationsTimeout fuel sortByTime model history arrivals =
     checkOperations fuel sortByTime model history False arrivals"

definition CheckEvents ::
  "nat \<Rightarrow> ('i, 'o, 'st) Model \<Rightarrow> ('i, 'o) Event list \<Rightarrow> nat list \<Rightarrow> bool go option" where
  "CheckEvents fuel model history order =
     map_option (\<lambda>m. go_bind m (\<lambda>res. Inr (res = Ok)))
       (checkEvents fuel model history False (map Result order))"

definition CheckEventsTimeout ::
  "nat \<Rightarrow> ('i, 'o, 'st) Model \<Rightarrow> ('i, 'o) Event list \<Rightarrow> arrival list \<Rightarrow> CheckResult go option" where
  "CheckEventsTimeout fuel model history arrivals = checkEvents fuel model history False arrivals"

end
