(* ===== verification/Porc_Links.thy ===== *)
theory Porc_Links
  imports Porc_Checker
begin

text \<open>
  The doubly linked list of nodes as a list of addresses: \<open>seg\<close> says that the heap holds a segment, and
  \<open>lift\<close>, \<open>unlift\<close> and \<open>makeLinkedEntries\<close> are described by what they do to it. Lifting an operation
  removes its two nodes, and unlifting restores the heap as it was.
\<close>

section \<open>Segments\<close>

fun first_ptr :: "nat list \<Rightarrow> ptr \<Rightarrow> ptr" where
  "first_ptr [] q = q"
| "first_ptr (x # xs) q = Some x"

fun last_ptr :: "ptr \<Rightarrow> nat list \<Rightarrow> ptr" where
  "last_ptr p [] = p"
| "last_ptr p (x # xs) = last_ptr (Some x) xs"

fun seg :: "('i, 'o) heap \<Rightarrow> ptr \<Rightarrow> nat list \<Rightarrow> ptr \<Rightarrow> bool" where
  "seg h p [] q = True"
| "seg h p (x # xs) q =
     ((case h x of None \<Rightarrow> False | Some nd \<Rightarrow> node_prev nd = p \<and> node_next nd = first_ptr xs q) \<and>
      seg h (Some x) xs q)"

lemma first_ptr_append [simp]: "first_ptr (xs @ ys) q = first_ptr xs (first_ptr ys q)"
  by (cases xs) simp_all

lemma last_ptr_append [simp]: "last_ptr p (xs @ ys) = last_ptr (last_ptr p xs) ys"
  by (induction xs arbitrary: p) simp_all

lemma seg_append: "seg h p (xs @ ys) q \<longleftrightarrow> seg h p xs (first_ptr ys q) \<and> seg h (last_ptr p xs) ys q"
  by (induction xs arbitrary: p) (auto split: option.splits)

lemma seg_frame: "seg h p xs q \<Longrightarrow> \<forall>x \<in> set xs. h' x = h x \<Longrightarrow> seg h' p xs q"
  by (induction xs arbitrary: p) auto

lemma seg_node: "seg h p xs q \<Longrightarrow> x \<in> set xs \<Longrightarrow> \<exists>nd. h x = Some nd"
  by (induction xs arbitrary: p) (auto split: option.splits)

lemma seg_node_at:
  "seg h p (xs @ x # ys) q \<Longrightarrow>
     \<exists>nd. h x = Some nd \<and> node_prev nd = last_ptr p xs \<and> node_next nd = first_ptr ys q"
  by (auto simp: seg_append split: option.splits)

text \<open>The fields that the list operations leave alone.\<close>

definition info :: "('i, 'o) heap \<Rightarrow> nat \<Rightarrow> (('i + 'o) option \<times> ptr \<times> int) option" where
  "info h a = map_option (\<lambda>nd. (node_value nd, node_match nd, node_id nd)) (h a)"

lemma info_Some:
  "info h a = Some (v, m, i) \<longleftrightarrow>
     (\<exists>nd. h a = Some nd \<and> node_value nd = v \<and> node_match nd = m \<and> node_id nd = i)"
  by (auto simp: info_def)

named_theorems heap_simps \<open>equations that evaluate reads and writes of the heap\<close>

lemma deref_Some [heap_simps]: "h a = Some nd \<Longrightarrow> deref h (Some a) = Inr nd"
  by (simp add: deref_def)

lemma set_next_Some [heap_simps]:
  "h a = Some nd \<Longrightarrow> set_next h (Some a) q = Inr (h(a \<mapsto> nd\<lparr>node_next := q\<rparr>))"
  by (simp add: set_next_def deref_def)

lemma set_prev_Some [heap_simps]:
  "h a = Some nd \<Longrightarrow> set_prev h (Some a) q = Inr (h(a \<mapsto> nd\<lparr>node_prev := q\<rparr>))"
  by (simp add: set_prev_def deref_def)

section \<open>Removing a node and putting it back\<close>

definition unlink :: "('i, 'o) heap \<Rightarrow> ptr \<Rightarrow> ('i, 'o) heap go" where
  "unlink h v =
     go_bind (deref h v) (\<lambda>e.
     go_bind (set_next h (node_prev e) (node_next e)) (\<lambda>h1.
     go_bind (deref h1 v) (\<lambda>e1.
       if node_next e1 \<noteq> None then set_prev h1 (node_next e1) (node_prev e1) else Inr h1)))"

definition relink :: "('i, 'o) heap \<Rightarrow> ptr \<Rightarrow> ('i, 'o) heap go" where
  "relink h v =
     go_bind (deref h v) (\<lambda>e.
     go_bind (set_next h (node_prev e) v) (\<lambda>h1.
     go_bind (deref h1 v) (\<lambda>e1.
       if node_next e1 \<noteq> None then set_prev h1 (node_next e1) v else Inr h1)))"

lemma map_upd_same: "m a = Some x \<Longrightarrow> x = y \<Longrightarrow> m(a \<mapsto> y) = m"
  by auto

lemma unlink_seg:
  assumes s: "seg h None (A @ p # v # C) None" and d: "distinct (A @ p # v # C)"
  shows "\<exists>h'. unlink h (Some v) = Inr h' \<and> seg h' None (A @ p # C) None \<and> h' v = h v \<and>
    relink h' (Some v) = Inr h \<and> info h' = info h"
proof (cases C)
  case Nil
  from seg_node_at [of h None A p "v # C" None] s obtain np where
    np: "h p = Some np" "node_prev np = last_ptr None A" "node_next np = Some v" by auto
  from seg_node_at [of h None "A @ [p]" v C None] s obtain nv where
    nv: "h v = Some nv" "node_prev nv = Some p" "node_next nv = None" by (auto simp: Nil)
  have ne: "p \<noteq> v" "v \<noteq> p" using d by auto
  let ?h = "h(p \<mapsto> np\<lparr>node_next := None\<rparr>)"
  have "unlink h (Some v) = Inr ?h"
    by (simp add: unlink_def heap_simps np nv ne)
  moreover have "relink ?h (Some v) = Inr h"
    by (simp add: relink_def heap_simps np nv ne map_upd_same)
  moreover have "seg ?h None (A @ p # C) None"
    using s d np by (auto simp: seg_append Nil intro: seg_frame)
  moreover have "info ?h = info h" by (rule ext) (simp add: info_def np)
  ultimately show ?thesis using ne by (intro exI [of _ ?h]) simp
next
  case (Cons y C')
  from seg_node_at [of h None A p "v # C" None] s obtain np where
    np: "h p = Some np" "node_prev np = last_ptr None A" "node_next np = Some v" by auto
  from seg_node_at [of h None "A @ [p]" v C None] s obtain nv where
    nv: "h v = Some nv" "node_prev nv = Some p" "node_next nv = Some y" by (auto simp: Cons)
  from seg_node_at [of h None "A @ [p, v]" y C' None] s obtain ny where
    ny: "h y = Some ny" "node_prev ny = Some v" "node_next ny = first_ptr C' None" by (auto simp: Cons)
  have ne: "p \<noteq> v" "v \<noteq> p" "p \<noteq> y" "y \<noteq> p" "v \<noteq> y" "y \<noteq> v" using d Cons by auto
  let ?h = "h(p \<mapsto> np\<lparr>node_next := Some y\<rparr>, y \<mapsto> ny\<lparr>node_prev := Some p\<rparr>)"
  have "unlink h (Some v) = Inr ?h"
    by (simp add: unlink_def heap_simps np nv ny ne)
  moreover have "relink ?h (Some v) = Inr h"
    by (simp add: relink_def heap_simps np nv ny ne map_upd_same fun_upd_twist)
  moreover have "seg ?h None (A @ p # C) None"
    using s d np ny by (auto simp: seg_append Cons intro: seg_frame)
  moreover have "info ?h = info h" by (rule ext) (simp add: info_def np ny)
  ultimately show ?thesis using ne by (intro exI [of _ ?h]) simp
qed

lemma lift_unlinks:
  assumes "h a = Some e" and "node_next e \<noteq> None"
  shows "lift h (Some a) =
    go_bind (unlink h (Some a)) (\<lambda>h1. unlink h1 (node_match e))"
proof -
  have "node_next e1 \<noteq> None" if "set_next h (node_prev e) (node_next e) = Inr h1"
      and "deref h1 (Some a) = Inr e1" for h1 e1
    using that assms by (auto simp: set_next_def deref_def split: option.splits if_splits)
  with assms show ?thesis
    by (cases "set_next h (node_prev e) (node_next e)")
      (auto simp: lift_def unlink_def heap_simps go_bind_Inl_iff deref_def split: option.splits)
qed

lemma unlift_relinks:
  assumes "h a = Some e" and "relink h (node_match e) = Inr h2" and "h2 a = Some e2"
    and "node_next e2 \<noteq> None"
  shows "unlift h (Some a) = relink h2 (Some a)"
proof -
  have "node_next e3 \<noteq> None" if "set_next h2 (node_prev e2) (Some a) = Inr h3"
      and "deref h3 (Some a) = Inr e3" for h3 e3
    using that assms by (auto simp: set_next_def deref_def split: option.splits if_splits)
  then show ?thesis using assms
    by (cases "set_next h2 (node_prev e2) (Some a)")
      (auto simp: unlift_def relink_def heap_simps go_simps Let_def deref_def split: option.splits)
qed

lemma unlink_cons:
  assumes s: "seg h None (p # B @ m # C) None" and d: "distinct (p # B @ m # C)"
  shows "\<exists>h'. unlink h (Some m) = Inr h' \<and> seg h' None (p # B @ C) None \<and> h' m = h m \<and>
    relink h' (Some m) = Inr h \<and> info h' = info h"
proof -
  have e: "p # B = butlast (p # B) @ [last (p # B)]"
    using append_butlast_last_id [of "p # B"] by simp
  have l: "p # B @ X = butlast (p # B) @ last (p # B) # X" for X
    using arg_cong [OF e, of "\<lambda>l. l @ X"] by simp
  show ?thesis using unlink_seg [of h "butlast (p # B)" "last (p # B)" m C] s d by (simp only: l)
qed

lemma filter_neq: "distinct (B @ m # C) \<Longrightarrow> filter (\<lambda>x. x \<noteq> m) (B @ m # C) = B @ C"
  by (simp, intro arg_cong2 [of _ _ _ _ append]) (auto simp: filter_id_conv)

text \<open>Lifting an operation removes its call and its return; unlifting undoes it exactly.\<close>

lemma lift_spec:
  assumes s: "seg h None (p # pre @ a # suf) None" and d: "distinct (p # pre @ a # suf)"
    and i: "info h a = Some (v, Some m, k)" and m: "m \<in> set suf"
  shows "\<exists>h'. lift h (Some a) = Inr h' \<and> seg h' None (p # pre @ filter (\<lambda>x. x \<noteq> m) suf) None \<and>
    unlift h' (Some a) = Inr h \<and> info h' = info h"
proof -
  from m obtain B C where suf: "suf = B @ m # C" by (auto simp: in_set_conv_decomp)
  from i obtain e where e: "h a = Some e" "node_match e = Some m" by (auto simp: info_Some)
  have nx: "node_next e \<noteq> None" using seg_node_at [of h None "p # pre" a suf None] s e
    by (cases B) (auto simp: suf)
  obtain h1 where h1: "unlink h (Some a) = Inr h1" "seg h1 None (p # pre @ suf) None" "h1 a = h a"
    "relink h1 (Some a) = Inr h" "info h1 = info h"
    using unlink_cons [OF s d] by blast
  have s1: "seg h1 None (p # (pre @ B) @ m # C) None" and d1: "distinct (p # (pre @ B) @ m # C)"
    using h1(2) d by (simp_all add: suf)
  obtain h2 where h2: "unlink h1 (Some m) = Inr h2" "seg h2 None (p # (pre @ B) @ C) None" "h2 m = h1 m"
    "relink h2 (Some m) = Inr h1" "info h2 = info h1"
    using unlink_cons [OF s1 d1] by blast
  have "lift h (Some a) = Inr h2"
    using lift_unlinks [of h a e] e(1) nx h1(1) h2(1) e(2) by simp
  moreover have "info h2 a = Some (v, Some m, k)" using h2(5) h1(5) i by simp
  then obtain e2 where e2: "h2 a = Some e2" "node_match e2 = Some m" by (auto simp: info_Some)
  have "unlift h2 (Some a) = Inr h"
    using unlift_relinks [of h2 a e2 h1 e] e2(1,2) h2(4) h1(3,4) e(1) nx by simp
  moreover have "pre @ filter (\<lambda>x. x \<noteq> m) suf = (pre @ B) @ C"
    using filter_neq [of B m C] d by (simp add: suf)
  ultimately show ?thesis using h2(2,5) h1(5) by (intro exI [of _ h2]) simp
qed

section \<open>Building the list\<close>

text \<open>The address of the first return entry of an operation, addresses counting from the end.\<close>

fun return_addr :: "('i, 'o) entry list \<Rightarrow> int \<Rightarrow> ptr" where
  "return_addr [] i = None"
| "return_addr (e # es) i =
     (if entry_kind e = returnEntry \<and> entry_id e = i then Some (length es) else return_addr es i)"

text \<open>What the node of the entry at the head of a list of entries holds.\<close>

definition entry_info :: "('i, 'o) entry \<Rightarrow> ('i, 'o) entry list \<Rightarrow> ('i + 'o) option \<times> ptr \<times> int" where
  "entry_info e es = (Some (entry_value e),
     (if entry_kind e = returnEntry then None else return_addr es (entry_id e)), entry_id e)"

fun list_info :: "('i, 'o) entry list \<Rightarrow> nat \<Rightarrow> (('i + 'o) option \<times> ptr \<times> int) option" where
  "list_info [] = Map.empty"
| "list_info (e # es) = (list_info es)(length es \<mapsto> entry_info e es)"

definition addrs :: "nat \<Rightarrow> nat list" where
  "addrs n = rev [0..<n]"

lemma addrs_Suc [simp]: "addrs (Suc n) = n # addrs n"
  by (simp add: addrs_def)

lemma addrs_0 [simp]: "addrs 0 = []"
  by (simp add: addrs_def)

lemma set_addrs [simp]: "set (addrs n) = {..<n}"
  by (auto simp: addrs_def)

lemma distinct_addrs [simp]: "distinct (addrs n)"
  by (simp add: addrs_def)

lemma list_info_dom: "list_info es a = None \<longleftrightarrow> length es \<le> a"
  by (induction es) (simp_all, linarith)

lemma return_addr_less: "return_addr es i = Some a \<Longrightarrow> a < length es"
  by (induction es) (auto split: if_splits simp: less_Suc_eq)

text \<open>Adding a node in front of the list.\<close>

lemma insertBefore_spec:
  assumes "seg h None (addrs n) None" and "h n = None" and "node_next nd = None" and "node_prev nd = None"
  shows "\<exists>h'. insertBefore (h(n \<mapsto> nd)) (Some n) (first_ptr (addrs n) None) = Inr h' \<and>
    seg h' None (addrs (Suc n)) None \<and>
    info h' = (info h)(n \<mapsto> (node_value nd, node_match nd, node_id nd))"
proof (cases n)
  case 0
  with assms show ?thesis
    by (intro exI [of _ "h(n \<mapsto> nd)"]) (auto simp: insertBefore_def info_def fun_eq_iff)
next
  case (Suc k)
  from assms(1) Suc obtain nk where nk: "h k = Some nk" "node_prev nk = None" "node_next nk = first_ptr (addrs k) None"
    and t: "seg h (Some k) (addrs k) None" by (auto split: option.splits)
  let ?h = "h(n \<mapsto> nd\<lparr>node_next := Some k\<rparr>, k \<mapsto> nk\<lparr>node_prev := Some n\<rparr>)"
  have ne: "k \<noteq> n" "n \<noteq> k" using Suc by auto
  have "insertBefore (h(n \<mapsto> nd)) (Some n) (first_ptr (addrs n) None) = Inr ?h"
    using nk by (simp add: insertBefore_def Suc heap_simps Let_def fun_upd_twist)
  moreover have "seg ?h (Some k) (addrs k) None"
    using t by (rule seg_frame) (auto simp: Suc)
  then have "seg ?h None (addrs (Suc n)) None"
    using nk assms(4) by (simp add: Suc)
  moreover have "info ?h = (info h)(n \<mapsto> (node_value nd, node_match nd, node_id nd))"
    using nk ne by (auto simp: info_def fun_eq_iff)
  ultimately show ?thesis by (intro exI [of _ ?h]) simp
qed

lemma makeLinkedEntries_spec:
  "\<exists>h. makeLinkedEntries es =
       Inr (h, return_addr es, first_ptr (addrs (length es)) None, length es) \<and>
     seg h None (addrs (length es)) None \<and> info h = list_info es"
proof (induction es)
  case Nil
  show ?case by (auto simp: info_def fun_eq_iff)
next
  case (Cons e es)
  then obtain h where h: "makeLinkedEntries es =
      Inr (h, return_addr es, first_ptr (addrs (length es)) None, length es)"
    "seg h None (addrs (length es)) None" "info h = list_info es" by blast
  have "h (length es) = None"
    using list_info_dom [of es "length es"] fun_cong [OF h(3), of "length es"] by (simp add: info_def)
  note ins = insertBefore_spec [OF h(2) this]
  show ?case
  proof (cases "entry_kind e = returnEntry")
    case True
    let ?nd = "\<lparr>node_value = Some (entry_value e), node_match = None, node_id = entry_id e,
      node_next = None, node_prev = None\<rparr>"
    from ins [of ?nd] obtain h' where
      "insertBefore (h(length es \<mapsto> ?nd)) (Some (length es)) (first_ptr (addrs (length es)) None) = Inr h'"
      "seg h' None (addrs (Suc (length es))) None"
      "info h' = (info h)(length es \<mapsto> (node_value ?nd, node_match ?nd, node_id ?nd))" by auto
    with h(1,3) True show ?thesis
      by (intro exI [of _ h']) (simp add: link_entry_def entry_info_def fun_eq_iff)
  next
    case False
    let ?nd = "\<lparr>node_value = Some (entry_value e), node_match = return_addr es (entry_id e),
      node_id = entry_id e, node_next = None, node_prev = None\<rparr>"
    from ins [of ?nd] obtain h' where
      "insertBefore (h(length es \<mapsto> ?nd)) (Some (length es)) (first_ptr (addrs (length es)) None) = Inr h'"
      "seg h' None (addrs (Suc (length es))) None"
      "info h' = (info h)(length es \<mapsto> (node_value ?nd, node_match ?nd, node_id ?nd))" by auto
    with h(1,3) False show ?thesis
      by (intro exI [of _ h']) (simp add: link_entry_def entry_info_def fun_eq_iff)
  qed
qed

text \<open>The counting loop returns the length of the list.\<close>

lemma node_length_spec:
  "seg h p xs None \<Longrightarrow> node_length h (first_ptr xs None) l = Some (Inr (l + length xs))"
proof (induction xs arbitrary: p l)
  case Nil
  show ?case by (simp add: node_length.simps)
next
  case (Cons x xs)
  from Cons.prems obtain nd where nd: "h x = Some nd" "node_next nd = first_ptr xs None"
    and t: "seg h (Some x) xs None" by (auto split: option.splits)
  from Cons.IH [OF t, of "l + 1"] nd show ?case
    by (subst node_length.simps) (simp add: heap_simps)
qed

end
