(* ===== verification/Porc_Spec.thy ===== *)
theory Porc_Spec
  imports Porc_Links
begin

text \<open>
  What it means for a history to be linearizable, on the entries in time order: the specification the
  search is measured against. Below it, the layout of the entries in the heap.
\<close>

section \<open>Linearizations\<close>

definition call_of :: "('i, 'o) entry \<Rightarrow> nat \<Rightarrow> bool" where
  "call_of e k \<longleftrightarrow> entry_kind e = callEntry \<and> entry_id e = int k"

definition return_of :: "('i, 'o) entry \<Rightarrow> nat \<Rightarrow> bool" where
  "return_of e k \<longleftrightarrow> entry_kind e = returnEntry \<and> entry_id e = int k"

definition call_pos :: "('i, 'o) entry list \<Rightarrow> nat \<Rightarrow> nat" where
  "call_pos es k = length (takeWhile (\<lambda>e. \<not> call_of e k) es)"

definition return_pos :: "('i, 'o) entry list \<Rightarrow> nat \<Rightarrow> nat" where
  "return_pos es k = length (takeWhile (\<lambda>e. \<not> return_of e k) es)"

definition op_count :: "('i, 'o) entry list \<Rightarrow> nat" where
  "op_count es = length es div 2"

definition op_input :: "('i, 'o) entry list \<Rightarrow> nat \<Rightarrow> 'i" where
  "op_input es k = projl (entry_value (es ! call_pos es k))"

definition op_output :: "('i, 'o) entry list \<Rightarrow> nat \<Rightarrow> 'o" where
  "op_output es k = projr (entry_value (es ! return_pos es k))"

text \<open>Every operation has one call and, after it, one return.\<close>

definition wf_entries :: "('i, 'o) entry list \<Rightarrow> bool" where
  "wf_entries es \<longleftrightarrow>
     even (length es) \<and> distinct (map (\<lambda>e. (entry_kind e, entry_id e)) es) \<and>
     (\<forall>k < op_count es. call_pos es k < return_pos es k \<and> return_pos es k < length es \<and>
        isl (entry_value (es ! call_pos es k)) \<and> \<not> isl (entry_value (es ! return_pos es k)))"

text \<open>Operation \<open>j\<close> has returned before operation \<open>i\<close> is called.\<close>

definition precedes :: "('i, 'o) entry list \<Rightarrow> nat \<Rightarrow> nat \<Rightarrow> bool" where
  "precedes es j i \<longleftrightarrow> return_pos es j < call_pos es i"

definition step_op :: "('i, 'o, 'st) Model \<Rightarrow> ('i, 'o) entry list \<Rightarrow> 'st \<Rightarrow> nat \<Rightarrow> bool \<times> 'st" where
  "step_op model es st k = Step model st (op_input es k) (op_output es k)"

fun legal :: "('i, 'o, 'st) Model \<Rightarrow> ('i, 'o) entry list \<Rightarrow> 'st \<Rightarrow> nat list \<Rightarrow> bool" where
  "legal model es st [] = True"
| "legal model es st (k # ks) =
     (fst (step_op model es st k) \<and> legal model es (snd (step_op model es st k)) ks)"

text \<open>A linearization: a legal order of all the operations that respects real time.\<close>

definition is_linearization ::
  "('i, 'o, 'st) Model \<Rightarrow> ('i, 'o) entry list \<Rightarrow> nat list \<Rightarrow> bool" where
  "is_linearization model es ks \<longleftrightarrow>
     distinct ks \<and> set ks = {..<op_count es} \<and>
     sorted_wrt (\<lambda>i j. \<not> precedes es j i) ks \<and> legal model es (Init model) ks"

definition linearizable :: "('i, 'o, 'st) Model \<Rightarrow> ('i, 'o) entry list \<Rightarrow> bool" where
  "linearizable model es \<longleftrightarrow> (\<exists>ks. is_linearization model es ks)"

text \<open>The same, one operation at a time, from a set of operations that are left.\<close>

fun linearizes ::
  "('i, 'o, 'st) Model \<Rightarrow> ('i, 'o) entry list \<Rightarrow> nat set \<Rightarrow> 'st \<Rightarrow> nat list \<Rightarrow> bool" where
  "linearizes model es S st [] = (S = {})"
| "linearizes model es S st (k # ks) =
     (k \<in> S \<and> (\<forall>j \<in> S - {k}. \<not> precedes es j k) \<and> fst (step_op model es st k) \<and>
      linearizes model es (S - {k}) (snd (step_op model es st k)) ks)"

lemma linearizes_iff:
  "linearizes model es S st ks \<longleftrightarrow>
     distinct ks \<and> set ks = S \<and> sorted_wrt (\<lambda>i j. \<not> precedes es j i) ks \<and> legal model es st ks"
proof (induction ks arbitrary: S st)
  case (Cons k ks)
  have "k \<in> S \<and> set ks = S - {k} \<longleftrightarrow> k \<notin> set ks \<and> insert k (set ks) = S" by auto
  then show ?case by (auto simp: Cons.IH)
qed auto

lemma is_linearization_linearizes:
  "is_linearization model es ks \<longleftrightarrow> linearizes model es {..<op_count es} (Init model) ks"
  by (auto simp: is_linearization_def linearizes_iff)

definition win :: "('i, 'o, 'st) Model \<Rightarrow> ('i, 'o) entry list \<Rightarrow> nat set \<Rightarrow> 'st \<Rightarrow> bool" where
  "win model es D st \<longleftrightarrow> (\<exists>ks. linearizes model es ({..<op_count es} - D) st ks)"

lemma win_linearizable: "win model es {} (Init model) \<longleftrightarrow> linearizable model es"
  by (simp add: win_def linearizable_def is_linearization_linearizes)

section \<open>Addresses\<close>

definition call_at :: "('i, 'o) entry list \<Rightarrow> nat \<Rightarrow> nat" where
  "call_at es k = length es - 1 - call_pos es k"

definition return_at :: "('i, 'o) entry list \<Rightarrow> nat \<Rightarrow> nat" where
  "return_at es k = length es - 1 - return_pos es k"

lemma list_info_nth:
  "p < length es \<Longrightarrow>
     list_info es (length es - 1 - p) = Some (entry_info (es ! p) (drop (Suc p) es))"
proof (induction es arbitrary: p)
  case (Cons e es)
  show ?case
  proof (cases p)
    case (Suc p')
    from Suc Cons.prems have "p' < length es" by simp
    moreover have "length es - Suc p' \<noteq> length es" using \<open>p' < length es\<close> by linarith
    ultimately show ?thesis using Cons.IH [of p'] Suc by simp
  qed simp
qed simp

lemma takeWhile_pos:
  assumes "length (takeWhile (\<lambda>e. \<not> P e) es) < length es"
  shows "P (es ! length (takeWhile (\<lambda>e. \<not> P e) es))"
  using nth_length_takeWhile [OF assms] by simp

lemma return_addr_nth:
  assumes "distinct (map (\<lambda>e. (entry_kind e, entry_id e)) es)" and "p < length es"
    and "entry_kind (es ! p) = returnEntry" and "entry_id (es ! p) = i"
  shows "return_addr es i = Some (length es - 1 - p)"
  using assms
proof (induction es arbitrary: p)
  case (Cons e es)
  show ?case
  proof (cases p)
    case 0
    with Cons.prems show ?thesis by simp
  next
    case (Suc p')
    with Cons.prems have p: "p' < length es" "entry_kind (es ! p') = returnEntry" "entry_id (es ! p') = i"
      by auto
    moreover have "\<not> (entry_kind e = returnEntry \<and> entry_id e = i)"
    proof -
      have "\<forall>x \<in> set es. \<not> (entry_kind x = entry_kind e \<and> entry_id x = entry_id e)"
        using Cons.prems(1) by (auto simp: image_iff)
      with nth_mem [OF p(1)] p(2,3) show ?thesis by metis
    qed
    ultimately show ?thesis using Cons.IH [of p'] Cons.prems(1) Suc by auto
  qed
qed simp

lemma drop_pos: "p < q \<Longrightarrow> q < length es \<Longrightarrow> drop (Suc p) es ! (q - Suc p) = es ! q"
  by simp

text \<open>What is known about the nodes of a well-formed history.\<close>

lemma wf_call:
  assumes w: "wf_entries es" and k: "k < op_count es"
  shows "return_at es k < call_at es k" "call_at es k < length es"
    "list_info es (call_at es k) = Some (Some (Inl (op_input es k)), Some (return_at es k), int k)"
    "list_info es (return_at es k) = Some (Some (Inr (op_output es k)), None, int k)"
proof -
  let ?p = "call_pos es k" and ?q = "return_pos es k"
  from w k have pq: "?p < ?q" "?q < length es" "isl (entry_value (es ! ?p))" "\<not> isl (entry_value (es ! ?q))"
    and d: "distinct (map (\<lambda>e. (entry_kind e, entry_id e)) es)"
    by (auto simp: wf_entries_def)
  have c: "call_of (es ! ?p) k" using pq takeWhile_pos [of "\<lambda>e. call_of e k" es] by (simp add: call_pos_def)
  have r: "return_of (es ! ?q) k" using pq takeWhile_pos [of "\<lambda>e. return_of e k" es] by (simp add: return_pos_def)
  show "return_at es k < call_at es k" "call_at es k < length es"
    using pq by (auto simp: return_at_def call_at_def)
  let ?d = "drop (Suc ?p) es"
  have "return_addr ?d (int k) = Some (length ?d - 1 - (?q - Suc ?p))"
  proof (rule return_addr_nth)
    show "distinct (map (\<lambda>e. (entry_kind e, entry_id e)) ?d)"
      using d by (simp add: drop_map [symmetric])
  qed (use pq r in \<open>auto simp: return_of_def\<close>)
  then have "return_addr ?d (int k) = Some (return_at es k)" using pq by (simp add: return_at_def)
  then show "list_info es (call_at es k) = Some (Some (Inl (op_input es k)), Some (return_at es k), int k)"
    using list_info_nth [of ?p es] pq c by (simp add: call_at_def entry_info_def call_of_def op_input_def)
  show "list_info es (return_at es k) = Some (Some (Inr (op_output es k)), None, int k)"
    using list_info_nth [of ?q es] pq r by (simp add: return_at_def entry_info_def return_of_def op_output_def)
qed

lemma precedes_at:
  assumes "wf_entries es" and "j < op_count es" and "i < op_count es"
  shows "precedes es j i \<longleftrightarrow> call_at es i < return_at es j"
proof -
  from assms have "call_pos es i < length es" "return_pos es j < length es"
    by (fastforce simp: wf_entries_def)+
  then show ?thesis by (auto simp: precedes_def call_at_def return_at_def)
qed

text \<open>Every address is the call or the return of an operation.\<close>

lemma wf_cover:
  assumes w: "wf_entries es" and a: "a < length es"
  shows "\<exists>k < op_count es. a = call_at es k \<or> a = return_at es k"
proof -
  let ?n = "op_count es"
  let ?A = "call_at es ` {..<?n}" and ?B = "return_at es ` {..<?n}"
  have inj: "inj_on (call_at es) {..<?n}" "inj_on (return_at es) {..<?n}"
    by (rule inj_onI, use wf_call(3,4) [OF w] in \<open>metis lessThan_iff option.inject of_nat_eq_iff prod.inject\<close>)+
  have disj: "?A \<inter> ?B = {}"
  proof (rule ccontr)
    assume "?A \<inter> ?B \<noteq> {}"
    then obtain i j where "i < ?n" "j < ?n" "call_at es i = return_at es j" by auto
    with wf_call(3) [OF w, of i] wf_call(4) [OF w, of j] show False by simp
  qed
  have "card (?A \<union> ?B) = card ?A + card ?B" by (rule card_Un_disjoint) (use disj in auto)
  also have "\<dots> = 2 * ?n" by (simp add: card_image inj)
  also have "\<dots> = length es" using w by (simp add: wf_entries_def op_count_def)
  finally have "card (?A \<union> ?B) = card {..<length es}" by simp
  moreover have "?A \<union> ?B \<subseteq> {..<length es}"
    using wf_call(1,2) [OF w] by (auto intro: less_trans)
  ultimately have "?A \<union> ?B = {..<length es}" by (intro card_subset_eq) simp_all
  with a show ?thesis by blast
qed

lemma wf_inj:
  assumes w: "wf_entries es" and "i < op_count es" and "j < op_count es"
  shows "call_at es i = call_at es j \<longleftrightarrow> i = j" "return_at es i = return_at es j \<longleftrightarrow> i = j"
    "call_at es i \<noteq> return_at es j"
proof -
  note i = wf_call(3,4) [OF w assms(2)] and j = wf_call(3,4) [OF w assms(3)]
  show "call_at es i = call_at es j \<longleftrightarrow> i = j"
  proof
    assume "call_at es i = call_at es j"
    with i(1) j(1) have "int i = int j" by (metis option.inject prod.inject)
    then show "i = j" by simp
  qed simp
  show "return_at es i = return_at es j \<longleftrightarrow> i = j"
  proof
    assume "return_at es i = return_at es j"
    with i(2) j(2) have "int i = int j" by (metis option.inject prod.inject)
    then show "i = j" by simp
  qed simp
  show "call_at es i \<noteq> return_at es j"
  proof
    assume "call_at es i = return_at es j"
    with i(1) j(2) show False by (metis option.distinct(1) option.inject prod.inject)
  qed
qed

section \<open>The nodes that are left\<close>

definition left_over :: "('i, 'o) entry list \<Rightarrow> nat set \<Rightarrow> nat list" where
  "left_over es D = filter (\<lambda>a. a \<notin> call_at es ` D \<and> a \<notin> return_at es ` D) (addrs (length es))"

lemma sorted_addrs: "sorted_wrt (\<lambda>a b. b < a) (addrs n)"
  by (induction n) auto

lemma sorted_left_over: "sorted_wrt (\<lambda>a b. b < a) (left_over es D)"
  by (simp add: left_over_def sorted_wrt_filter sorted_addrs)

lemma distinct_left_over: "distinct (left_over es D)"
  by (simp add: left_over_def)

lemma length_left_over: "length (left_over es D) \<le> length es"
  using length_filter_le [of _ "addrs (length es)"] by (simp add: left_over_def addrs_def)

lemma left_over_empty: "left_over es {} = addrs (length es)"
  by (simp add: left_over_def)

lemma left_over_members:
  assumes "wf_entries es" and "k < op_count es" and "D \<subseteq> {..<op_count es}"
  shows "call_at es k \<in> set (left_over es D) \<longleftrightarrow> k \<notin> D"
    "return_at es k \<in> set (left_over es D) \<longleftrightarrow> k \<notin> D"
proof -
  have le: "call_at es k < length es" "return_at es k < length es"
    using wf_call(1,2) [OF assms(1,2)] by simp_all
  have ne: "call_at es k \<noteq> call_at es j \<and> return_at es k \<noteq> return_at es j \<and>
      call_at es k \<noteq> return_at es j \<and> return_at es k \<noteq> call_at es j" if "j \<in> D" "k \<notin> D" for j
  proof -
    have j: "j < op_count es" and "k \<noteq> j" using that assms(3) by auto
    with wf_inj [OF assms(1,2) j] wf_inj(3) [OF assms(1) j assms(2)] show ?thesis by auto
  qed
  show "call_at es k \<in> set (left_over es D) \<longleftrightarrow> k \<notin> D"
    using le ne by (auto simp: left_over_def)
  show "return_at es k \<in> set (left_over es D) \<longleftrightarrow> k \<notin> D"
    using le ne by (auto simp: left_over_def)
qed

text \<open>Lifting operation \<open>k\<close> leaves what is left without \<open>k\<close>.\<close>

lemma left_over_insert:
  assumes "wf_entries es" and "k < op_count es" and "left_over es D = pre @ call_at es k # suf"
  shows "left_over es (insert k D) = pre @ filter (\<lambda>x. x \<noteq> return_at es k) suf"
    and "k \<notin> D \<Longrightarrow> D \<subseteq> {..<op_count es} \<Longrightarrow> return_at es k \<in> set suf"
proof -
  have d: "distinct (pre @ call_at es k # suf)" using distinct_left_over [of es D] assms(3) by simp
  have lt: "return_at es k < call_at es k" using wf_call(1) [OF assms(1,2)] .
  have "\<forall>a \<in> set pre. call_at es k < a"
    using sorted_left_over [of es D] assms(3) by (auto simp: sorted_wrt_append)
  with lt have np: "return_at es k \<notin> set pre" by fastforce
  have "left_over es (insert k D) =
      filter (\<lambda>a. a \<noteq> call_at es k \<and> a \<noteq> return_at es k) (left_over es D)"
    by (auto simp: left_over_def intro: filter_cong)
  also have "\<dots> = pre @ filter (\<lambda>x. x \<noteq> return_at es k) suf"
  proof -
    have "filter (\<lambda>a. a \<noteq> call_at es k \<and> a \<noteq> return_at es k) pre = pre"
      using d np by (auto simp: filter_id_conv)
    moreover have "filter (\<lambda>a. a \<noteq> call_at es k \<and> a \<noteq> return_at es k) suf =
        filter (\<lambda>x. x \<noteq> return_at es k) suf"
      using d by (auto intro: filter_cong)
    ultimately show ?thesis by (simp add: assms(3))
  qed
  finally show "left_over es (insert k D) = pre @ filter (\<lambda>x. x \<noteq> return_at es k) suf" .
  assume "k \<notin> D" and "D \<subseteq> {..<op_count es}"
  with left_over_members(2) [OF assms(1,2)] have "return_at es k \<in> set (left_over es D)" by blast
  with np lt show "return_at es k \<in> set suf" by (auto simp: assms(3))
qed

end
