(* ===== verification/Porc_Search.thy ===== *)
theory Porc_Search
  imports Porc_Spec
begin

text \<open>
  The search of \<open>checkSingle\<close> is a depth-first search of the linearizations: the stack is a legal partial
  linearization, everything tried before the cursor is a dead end, and a cached configuration is a
  dead end or on the stack. Each turn lowers a weight, so the search ends.
\<close>

section \<open>The invariant\<close>

text \<open>A stack of operations with the states before them, the top first.\<close>

type_synonym 'st stack = "(nat \<times> 'st) list"

definition done_ops :: "'st stack \<Rightarrow> nat set" where
  "done_ops stk = fst ` set stk"

lemma done_ops_simps [simp]: "done_ops [] = {}" "done_ops (e # stk) = insert (fst e) (done_ops stk)"
  by (simp_all add: done_ops_def)

lemma finite_done_ops [simp]: "finite (done_ops stk)"
  by (simp add: done_ops_def)

definition stack_calls :: "('i, 'o) entry list \<Rightarrow> 'st stack \<Rightarrow> (nat \<times> 'st) list" where
  "stack_calls es stk = map (\<lambda>(k, st). (call_at es k, st)) (rev stk)"

text \<open>Trying operation \<open>k\<close> next leads nowhere.\<close>

definition hopeless :: "('i, 'o, 'st) Model \<Rightarrow> ('i, 'o) entry list \<Rightarrow> nat set \<Rightarrow> 'st \<Rightarrow> nat \<Rightarrow> bool" where
  "hopeless model es D st k \<longleftrightarrow>
     (fst (step_op model es st k) \<longrightarrow> \<not> win model es (insert k D) (snd (step_op model es st k)))"

definition tried :: "('i, 'o, 'st) Model \<Rightarrow> ('i, 'o) entry list \<Rightarrow> nat set \<Rightarrow> 'st \<Rightarrow> nat list \<Rightarrow> bool" where
  "tried model es D st pre \<longleftrightarrow>
     (\<forall>a \<in> set pre. \<exists>k < op_count es. a = call_at es k \<and> hopeless model es D st k)"

text \<open>The address of the head node is the number of entries.\<close>

definition heap_ok :: "('i, 'o) entry list \<Rightarrow> nat set \<Rightarrow> ('i, 'o) heap \<Rightarrow> bool" where
  "heap_ok es D h \<longleftrightarrow> seg h None (length es # left_over es D) None \<and>
     (\<forall>a < length es. info h a = list_info es a)"

definition enabled :: "('i, 'o) entry list \<Rightarrow> nat set \<Rightarrow> nat \<Rightarrow> bool" where
  "enabled es D k \<longleftrightarrow> k < op_count es \<and> k \<notin> D \<and>
     (\<forall>j < op_count es. j \<notin> D \<longrightarrow> j \<noteq> k \<longrightarrow> \<not> precedes es j k)"

fun good_stack ::
  "('i, 'o, 'st) Model \<Rightarrow> ('i, 'o) entry list \<Rightarrow> 'st stack \<Rightarrow> 'st \<Rightarrow> ('i, 'o) heap \<Rightarrow> bool" where
  "good_stack model es [] st h \<longleftrightarrow> st = Init model \<and> heap_ok es {} h"
| "good_stack model es ((k, st0) # below) st h \<longleftrightarrow>
     enabled es (done_ops below) k \<and> step_op model es st0 k = (True, st) \<and>
     heap_ok es (insert k (done_ops below)) h \<and>
     (\<exists>h0. good_stack model es below st0 h0 \<and> unlift h (Some (call_at es k)) = Inr h0) \<and>
     (\<exists>pre suf. left_over es (done_ops below) = pre @ call_at es k # suf \<and>
        tried model es (done_ops below) st0 pre)"

text \<open>The configurations on the stack.\<close>

fun on_path :: "'st stack \<Rightarrow> 'st \<Rightarrow> nat set \<times> 'st \<Rightarrow> bool" where
  "on_path [] st c = False"
| "on_path ((k, st0) # below) st c \<longleftrightarrow>
     c = (insert k (done_ops below), st) \<or> on_path below st0 c"

definition cache_ok ::
  "('i, 'o, 'st) Model \<Rightarrow> ('i, 'o) entry list \<Rightarrow> 'st stack \<Rightarrow> 'st \<Rightarrow>
     (64 word \<rightharpoonup> 'st cacheEntry list) \<Rightarrow> bool" where
  "cache_ok model es stk st c \<longleftrightarrow>
     (\<forall>hash. \<forall>(b, st') \<in> set (go_get [] c hash).
        \<not> win model es (members b) st' \<or> on_path stk st (members b, st'))"

definition search_inv ::
  "('i, 'o, 'st) Model \<Rightarrow> ('i, 'o) entry list \<Rightarrow> ('i, 'o, 'st) search \<Rightarrow> 'st stack \<Rightarrow> nat list \<Rightarrow>
     nat list \<Rightarrow> bool" where
  "search_inv model es s stk pre suf \<longleftrightarrow>
     good_stack model es stk (s_state s) (s_heap s) \<and>
     calls s = stack_calls es stk \<and> s_head s = Some (length es) \<and>
     members (linearized s) = done_ops stk \<and> op_count es \<le> capacity (linearized s) \<and>
     left_over es (done_ops stk) = pre @ suf \<and> s_entry s = first_ptr suf None \<and>
     tried model es (done_ops stk) (s_state s) pre \<and>
     cache_ok model es stk (s_state s) (cache s) \<and> length (longest s) = op_count es"

section \<open>The stack\<close>

lemma good_stack_facts:
  assumes "good_stack model es stk st h"
  shows "heap_ok es (done_ops stk) h" "done_ops stk \<subseteq> {..<op_count es}"
    "length stk \<le> op_count es" "card (done_ops stk) = length stk"
proof -
  have a: "heap_ok es (done_ops stk) h \<and> done_ops stk \<subseteq> {..<op_count es} \<and>
      card (done_ops stk) = length stk"
    using assms
  proof (induction stk arbitrary: st h)
    case (Cons e below)
    obtain k st0 where e: "e = (k, st0)" by (cases e)
    from Cons.prems e obtain h0 where g: "good_stack model es below st0 h0"
      and k: "k < op_count es" "k \<notin> done_ops below" and h: "heap_ok es (insert k (done_ops below)) h"
      by (auto simp: enabled_def)
    from Cons.IH [OF g] k h show ?case by (simp add: e)
  qed simp
  then show "heap_ok es (done_ops stk) h" "done_ops stk \<subseteq> {..<op_count es}"
    "card (done_ops stk) = length stk" by simp_all
  with card_mono [of "{..<op_count es}" "done_ops stk"] show "length stk \<le> op_count es" by simp
qed

text \<open>The stack is a partial linearization.\<close>

lemma good_stack_linearizes:
  assumes "good_stack model es stk st h" and "linearizes model es ({..<op_count es} - done_ops stk) st ks"
  shows "linearizes model es {..<op_count es} (Init model) (map fst (rev stk) @ ks)"
  using assms
proof (induction stk arbitrary: st h ks)
  case (Cons e below)
  obtain k st0 where e: "e = (k, st0)" by (cases e)
  from Cons.prems(1) e obtain h0 where g: "good_stack model es below st0 h0"
    and en: "enabled es (done_ops below) k" and st: "step_op model es st0 k = (True, st)" by auto
  have "{..<op_count es} - done_ops below - {k} = {..<op_count es} - done_ops (e # below)"
    using e by auto
  with Cons.prems(2) en st
  have "linearizes model es ({..<op_count es} - done_ops below) st0 (k # ks)"
    by (auto simp: enabled_def)
  from Cons.IH [OF g this] show ?case by (simp add: e)
qed simp

lemma on_path_subset: "on_path stk st c \<Longrightarrow> fst c \<subseteq> done_ops stk"
  by (induction stk st c rule: on_path.induct) auto

section \<open>Where the cursor can go\<close>

lemma win_step:
  assumes "win model es D st" and "j < op_count es" and "j \<notin> D"
  obtains k where "enabled es D k" and "\<not> hopeless model es D st k"
proof -
  from assms(1) obtain ks where "linearizes model es ({..<op_count es} - D) st ks" by (auto simp: win_def)
  with assms(2,3) obtain k ks' where ks: "ks = k # ks'"
    and l: "linearizes model es ({..<op_count es} - D) st (k # ks')" by (cases ks) auto
  have "{..<op_count es} - D - {k} = {..<op_count es} - insert k D" by auto
  with l have "win model es (insert k D) (snd (step_op model es st k))"
    and "fst (step_op model es st k)" by (auto simp: win_def)
  then have "\<not> hopeless model es D st k" by (simp add: hopeless_def)
  moreover have "enabled es D k" using l by (auto simp: enabled_def)
  ultimately show ?thesis using that by blast
qed

text \<open>Every operation that can come next is called before the first return.\<close>

lemma enabled_before_return:
  assumes w: "wf_entries es" and D: "D \<subseteq> {..<op_count es}" and j: "j < op_count es"
    and lo: "left_over es D = pre @ return_at es j # suf" and en: "enabled es D k"
  shows "call_at es k \<in> set pre"
proof -
  have jD: "j \<notin> D" using left_over_members(2) [OF w j D] lo by simp
  from en have k: "k < op_count es" "k \<notin> D" by (auto simp: enabled_def)
  have "return_at es j \<le> call_at es k"
  proof (cases "j = k")
    case True
    with wf_call(1) [OF w k(1)] show ?thesis by simp
  next
    case False
    with en j jD have "\<not> precedes es j k" by (auto simp: enabled_def)
    with precedes_at [OF w j k(1)] show ?thesis by simp
  qed
  moreover have "call_at es k \<noteq> return_at es j" by (rule wf_inj(3) [OF w k(1) j])
  moreover have "\<forall>a \<in> set suf. a < return_at es j"
    using sorted_left_over [of es D] by (auto simp: lo sorted_wrt_append)
  ultimately have "call_at es k \<notin> set (return_at es j # suf)" by auto
  moreover have "call_at es k \<in> set (left_over es D)" using left_over_members(1) [OF w k(1) D] k(2) by simp
  ultimately show ?thesis using lo by simp
qed

text \<open>At a return node every candidate has been tried.\<close>

lemma tried_all:
  assumes w: "wf_entries es" and D: "D \<subseteq> {..<op_count es}" and j: "j < op_count es"
    and lo: "left_over es D = pre @ return_at es j # suf" and t: "tried model es D st pre"
  shows "\<not> win model es D st"
proof
  have jD: "j \<notin> D" using left_over_members(2) [OF w j D] lo by simp
  assume "win model es D st"
  then obtain k where en: "enabled es D k" and nh: "\<not> hopeless model es D st k"
    by (rule win_step [OF _ j jD])
  from enabled_before_return [OF w D j lo en] t obtain k' where
    "k' < op_count es" "call_at es k = call_at es k'" "hopeless model es D st k'"
    by (auto simp: tried_def)
  moreover have "k < op_count es" using en by (simp add: enabled_def)
  ultimately show False using wf_inj(1) [OF w] nh by metis
qed

text \<open>A call node with only calls before it is a candidate.\<close>

lemma cursor_enabled:
  assumes w: "wf_entries es" and D: "D \<subseteq> {..<op_count es}" and k: "k < op_count es"
    and lo: "left_over es D = pre @ call_at es k # suf" and t: "tried model es D st pre"
  shows "enabled es D k"
proof -
  have kD: "k \<notin> D" using left_over_members(1) [OF w k D] lo by simp
  have "\<not> precedes es j k" if j: "j < op_count es" "j \<notin> D" for j
  proof -
    have m: "return_at es j \<in> set (left_over es D)" using left_over_members(2) [OF w j(1) D] j(2) by simp
    have "return_at es j \<notin> set pre"
    proof
      assume "return_at es j \<in> set pre"
      with t obtain i where "i < op_count es" "return_at es j = call_at es i" by (auto simp: tried_def)
      with wf_inj(3) [OF w _ j(1)] show False by metis
    qed
    moreover have "return_at es j \<noteq> call_at es k" using wf_inj(3) [OF w k j(1)] by simp
    ultimately have "return_at es j \<in> set suf" using m lo by auto
    moreover have "\<forall>a \<in> set suf. a < call_at es k"
      using sorted_left_over [of es D] by (auto simp: lo sorted_wrt_append)
    ultimately show ?thesis using precedes_at [OF w j(1) k] by auto
  qed
  with k kD show ?thesis by (simp add: enabled_def)
qed

text \<open>The list is never exhausted behind the cursor.\<close>

lemma cursor_not_at_end:
  assumes w: "wf_entries es" and D: "D \<subseteq> {..<op_count es}"
    and ne: "left_over es D \<noteq> []" and lo: "left_over es D = pre @ suf" and t: "tried model es D st pre"
  shows "suf \<noteq> []"
proof
  assume "suf = []"
  with ne lo obtain a where a: "a \<in> set pre" and p: "left_over es D = pre" by (cases pre) auto
  with t obtain k where k: "k < op_count es" "a = call_at es k" by (auto simp: tried_def)
  with left_over_members [OF w k(1) D] a p have "return_at es k \<in> set pre" by auto
  with t obtain i where "i < op_count es" "return_at es k = call_at es i" by (auto simp: tried_def)
  with wf_inj(3) [OF w _ k(1)] show False by metis
qed

lemma left_over_all:
  assumes w: "wf_entries es" and D: "D \<subseteq> {..<op_count es}"
  shows "left_over es D = [] \<longleftrightarrow> D = {..<op_count es}"
proof
  assume e: "left_over es D = []"
  have "k \<in> D" if "k < op_count es" for k using left_over_members(1) [OF w that D] e by simp
  with D show "D = {..<op_count es}" by auto
next
  assume e: "D = {..<op_count es}"
  have "a \<notin> set (left_over es D)" for a
  proof
    assume "a \<in> set (left_over es D)"
    with wf_cover [OF w, of a] e show False by (auto simp: left_over_def)
  qed
  then show "left_over es D = []" by (metis list.set_intros(1) neq_Nil_conv)
qed

end
