(* ===== verification/Porc_Turns.thy ===== *)
theory Porc_Turns
  imports Porc_Search
begin

text \<open>
  Every turn of the search keeps its invariant and lowers its weight, until the stack is a linearization
  or nothing is left to try.
\<close>

section \<open>One turn\<close>

text \<open>The equality of the model identifies no different states, and ids fit a \<open>uint\<close>.\<close>

definition Equal_sound :: "('i, 'o, 'st) Model \<Rightarrow> bool" where
  "Equal_sound model \<longleftrightarrow> (\<forall>x y. the_Equal model x y \<longrightarrow> x = y)"

lemma uint_of_small: "int k < 2 ^ 64 \<Longrightarrow> uint_of (int k) = k"
  by (simp add: uint_of_def)

lemma heap_node:
  assumes "heap_ok es D h" and "left_over es D = pre @ a # suf" and "a < length es"
    and "list_info es a = Some (v, m, i)"
  obtains e where "h a = Some e" and "node_value e = v" and "node_match e = m" and "node_id e = i"
    and "node_next e = first_ptr suf None"
proof -
  from assms(1,2) have "seg h None ((length es # pre) @ a # suf) None" by (simp add: heap_ok_def)
  from seg_node_at [OF this] obtain e where e: "h a = Some e" "node_next e = first_ptr suf None" by blast
  moreover have "info h a = Some (v, m, i)" using assms(1,3,4) by (simp add: heap_ok_def)
  ultimately show ?thesis using that by (auto simp: info_Some)
qed

lemma heap_info:
  assumes "heap_ok es D h" and "a < length es" and "list_info es a = Some (v, m, i)"
  obtains e where "h a = Some e" and "node_value e = v" and "node_match e = m" and "node_id e = i"
proof -
  have "info h a = Some (v, m, i)" using assms by (simp add: heap_ok_def)
  with that show ?thesis by (auto simp: info_Some)
qed

lemma cache_hit:
  assumes "Equal_sound model" and "cache_ok model es stk st c" and "cacheContains model c (b, st')"
    and "\<not> members b \<subseteq> done_ops stk"
  shows "\<not> win model es (members b) st'"
proof -
  from assms(3) obtain b2 st2 where m: "(b2, st2) \<in> set (go_get [] c (bs_hash b))"
    and b: "bs_equals b b2" and e: "the_Equal model st' st2"
    by (auto simp: cacheContains_def list_ex_iff)
  from b e assms(1) have "b2 = b" "st2 = st'" by (auto simp: bs_equals_eq Equal_sound_def)
  with m assms(2) have "\<not> win model es (members b) st' \<or> on_path stk st (members b, st')"
    by (fastforce simp: cache_ok_def)
  with on_path_subset [of stk st "(members b, st')"] assms(4) show ?thesis by auto
qed

lemma cache_ok_insert:
  assumes "cache_ok model es stk st c" and "members b = insert k (done_ops stk)"
  shows "cache_ok model es ((k, st) # stk) st'
    (c(hash \<mapsto> go_get [] c hash @ [(b, st')]))"
  using assms by (fastforce simp: cache_ok_def)

lemma tried_snoc:
  assumes "tried model es D st pre" and "k < op_count es" and "hopeless model es D st k"
  shows "tried model es D st (pre @ [call_at es k])"
  using assms by (auto simp: tried_def)

lemma left_over_heap:
  assumes w: "wf_entries es" and h: "heap_ok es D h" and D: "D \<subseteq> {..<op_count es}"
    and k: "k < op_count es" "k \<notin> D" and lo: "left_over es D = pre @ call_at es k # suf"
  obtains h' where "lift h (Some (call_at es k)) = Inr h'" and "heap_ok es (insert k D) h'"
    and "unlift h' (Some (call_at es k)) = Inr h"
proof -
  have s: "seg h None (length es # pre @ call_at es k # suf) None"
    using h by (simp add: heap_ok_def lo)
  have "length es \<notin> set (left_over es D)" by (simp add: left_over_def)
  with distinct_left_over [of es D] have d: "distinct (length es # pre @ call_at es k # suf)"
    by (simp add: lo)
  have "info h (call_at es k) = Some (Some (Inl (op_input es k)), Some (return_at es k), int k)"
    using h wf_call(2,3) [OF w k(1)] by (simp add: heap_ok_def)
  from lift_spec [OF s d this left_over_insert(2) [OF w k(1) lo k(2) D]] obtain h' where
    "lift h (Some (call_at es k)) = Inr h'"
    "seg h' None (length es # pre @ filter (\<lambda>x. x \<noteq> return_at es k) suf) None"
    "unlift h' (Some (call_at es k)) = Inr h" "info h' = info h" by blast
  moreover from this(2,4) h left_over_insert(1) [OF w k(1) lo] have "heap_ok es (insert k D) h'"
    by (simp add: heap_ok_def)
  ultimately show ?thesis using that by blast
qed

lemma head_next:
  assumes "heap_ok es D h"
  obtains hnd where "deref h (Some (length es)) = Inr hnd"
    and "node_next hnd = first_ptr (left_over es D) None"
proof -
  from assms have "seg h None ([] @ length es # left_over es D) None" by (simp add: heap_ok_def)
  from seg_node_at [OF this] that show ?thesis by (auto simp: heap_simps)
qed

text \<open>What a turn finds at a call node: the two nodes, the step, and the bitset with the operation.\<close>

lemma search_inv_facts:
  assumes "search_inv model es s stk pre suf"
  shows "good_stack model es stk (s_state s) (s_heap s)"
    "left_over es (done_ops stk) = pre @ suf" "tried model es (done_ops stk) (s_state s) pre"
    "members (linearized s) = done_ops stk" "op_count es \<le> capacity (linearized s)"
    "cache_ok model es stk (s_state s) (cache s)" "calls s = stack_calls es stk"
    "s_head s = Some (length es)" "s_entry s = first_ptr suf None" "length (longest s) = op_count es"
  using assms by (simp_all add: search_inv_def)

lemma id_fits:
  assumes "length es < 2 ^ 63" and "k < op_count es"
  shows "uint_of (int k) = k"
  using assms by (intro uint_of_small) (simp add: op_count_def)

lemma at_call:
  assumes w: "wf_entries es" and len: "length es < 2 ^ 63"
    and inv: "search_inv model es s stk pre (call_at es k # suf)" and k: "k < op_count es"
  obtains e m b where "node_next e = first_ptr suf None" and "uint_of (node_id e) = k"
    and "bs_set (linearized s) k = Inr b" and "members b = insert k (done_ops stk)"
    and "op_count es \<le> capacity b"
    and "step_values model (s_state s) (node_value e) (node_value m) = Inr (step_op model es (s_state s) k)"
    and "search_turn model cp False s = go_bind (search_call model s e m) (\<lambda>s'. Inr (Inl s'))"
proof -
  note f = search_inv_facts [OF inv]
  note h = good_stack_facts(1) [OF f(1)]
  obtain e where e: "s_heap s (call_at es k) = Some e" "node_value e = Some (Inl (op_input es k))"
    "node_match e = Some (return_at es k)" "node_id e = int k" "node_next e = first_ptr suf None"
    using heap_node [OF h f(2) wf_call(2,3) [OF w k]] by metis
  have "return_at es k < length es" using wf_call(1,2) [OF w k] by simp
  from heap_info [OF h this wf_call(4) [OF w k]] obtain m where
    m: "s_heap s (return_at es k) = Some m" "node_value m = Some (Inr (op_output es k))" by metis
  have "k < capacity (linearized s)" using k f(5) by simp
  from bs_set_spec [OF this] obtain b where b: "bs_set (linearized s) k = Inr b"
    "members b = insert k (done_ops stk)" "op_count es \<le> capacity b" using f(4,5) by auto
  have "search_turn model cp False s = go_bind (search_call model s e m) (\<lambda>s'. Inr (Inl s'))"
    using f(9) by (simp add: search_turn_def e m heap_simps)
  moreover have "uint_of (node_id e) = k" using id_fits [OF len k] e(4) by simp
  moreover have "step_values model (s_state s) (node_value e) (node_value m) =
      Inr (step_op model es (s_state s) k)" by (simp add: e(2) m(2) step_op_def)
  ultimately show ?thesis using that e(5) b by blast
qed

text \<open>An operation that cannot come next, or whose configuration is cached, is hopeless.\<close>

lemma not_pushed_hopeless:
  assumes "Equal_sound model" and c: "cache_ok model es stk st c" and "k \<notin> done_ops stk"
    and b: "members b = insert k (done_ops stk)" and step: "step_op model es st k = (good, st')"
    and n: "\<not> (good \<and> \<not> cacheContains model c (b, st'))"
  shows "hopeless model es (done_ops stk) st k"
proof (cases good)
  case True
  with n have "cacheContains model c (b, st')" by simp
  moreover have "\<not> members b \<subseteq> done_ops stk" using b assms(3) by auto
  ultimately have "\<not> win model es (members b) st'" using cache_hit [OF assms(1) c] by blast
  with b step show ?thesis by (simp add: hopeless_def)
qed (simp add: hopeless_def step)

lemma call_pushed:
  assumes w: "wf_entries es" and inv: "search_inv model es s stk pre (call_at es k # suf)"
    and k: "k < op_count es" and e: "uint_of (node_id e) = k"
    and b: "bs_set (linearized s) k = Inr b" "members b = insert k (done_ops stk)" "op_count es \<le> capacity b"
    and sv: "step_values model (s_state s) (node_value e) (node_value m) = Inr (True, st')"
    and step: "step_op model es (s_state s) k = (True, st')"
    and n: "\<not> cacheContains model (cache s) (b, st')"
  shows "\<exists>s'. search_call model s e m = Inr s' \<and>
    search_inv model es s' ((k, s_state s) # stk) [] (left_over es (insert k (done_ops stk)))"
proof -
  let ?a = "call_at es k" and ?D = "done_ops stk" and ?st = "s_state s" and ?hash = "bs_hash b"
  note f = search_inv_facts [OF inv]
  note D = good_stack_facts(2) [OF f(1)] and h = good_stack_facts(1) [OF f(1)]
  have en: "enabled es ?D k" by (rule cursor_enabled [OF w D k f(2,3)])
  then have kD: "k \<notin> ?D" by (simp add: enabled_def)
  obtain h' where h': "lift (s_heap s) (Some ?a) = Inr h'" "heap_ok es (insert k ?D) h'"
    "unlift h' (Some ?a) = Inr (s_heap s)"
    by (rule left_over_heap [OF w h D k kD f(2)])
  obtain hnd where hn: "deref h' (Some (length es)) = Inr hnd"
    "node_next hnd = first_ptr (left_over es (insert k ?D)) None" by (rule head_next [OF h'(2)])
  let ?s = "s\<lparr>cache := (cache s)(?hash \<mapsto> go_get [] (cache s) ?hash @ [(b, st')]),
    calls := calls s @ [(?a, ?st)], s_state := st', linearized := b, s_heap := h',
    s_entry := node_next hnd\<rparr>"
  have "search_call model s e m = Inr ?s"
    using n f(9) by (simp add: search_call_def sv e b(1) f(8) h' hn Let_def)
  moreover have "good_stack model es ((k, ?st) # stk) st' h'"
    using f(1,2,3) en step h' by auto
  moreover have "cache_ok model es ((k, ?st) # stk) st' (cache ?s)"
    using cache_ok_insert [OF f(6) b(2)] by simp
  ultimately show ?thesis
    using f b hn by (intro exI [of _ ?s]) (simp add: search_inv_def stack_calls_def tried_def)
qed

text \<open>The cursor on a call: it moves on, or the operation is pushed.\<close>

lemma turn_call:
  assumes w: "wf_entries es" and len: "length es < 2 ^ 63" and eq: "Equal_sound model"
    and inv: "search_inv model es s stk pre (call_at es k # suf)" and k: "k < op_count es"
  obtains s' where "search_turn model cp False s = Inr (Inl s')"
    and "search_inv model es s' stk (pre @ [call_at es k]) suf \<or>
      search_inv model es s' ((k, s_state s) # stk) [] (left_over es (insert k (done_ops stk)))"
proof -
  let ?D = "done_ops stk" and ?st = "s_state s"
  note f = search_inv_facts [OF inv]
  have "enabled es ?D k"
    by (rule cursor_enabled [OF w good_stack_facts(2) [OF f(1)] k f(2,3)])
  then have kD: "k \<notin> ?D" by (simp add: enabled_def)
  obtain good st' where step: "step_op model es ?st k = (good, st')" by (cases "step_op model es ?st k")
  obtain e m b where e: "node_next e = first_ptr suf None" "uint_of (node_id e) = k"
    and b: "bs_set (linearized s) k = Inr b" "members b = insert k ?D" "op_count es \<le> capacity b"
    and sv: "step_values model ?st (node_value e) (node_value m) = Inr (step_op model es ?st k)"
    and turn: "search_turn model cp False s = go_bind (search_call model s e m) (\<lambda>s'. Inr (Inl s'))"
    by (rule at_call [OF w len inv k])
  show ?thesis
  proof (cases "good \<and> \<not> cacheContains model (cache s) (b, st')")
    case False
    have "search_call model s e m = Inr (s\<lparr>s_entry := node_next e\<rparr>)"
      using False by (auto simp: search_call_def sv step e(2) b)
    moreover have "hopeless model es ?D ?st k"
      by (rule not_pushed_hopeless [OF eq f(6) kD b(2) step False])
    then have "search_inv model es (s\<lparr>s_entry := node_next e\<rparr>) stk (pre @ [call_at es k]) suf"
      using inv tried_snoc [OF f(3) k] by (simp add: search_inv_def e(1))
    ultimately show ?thesis using that turn by simp
  next
    case True
    with call_pushed [OF w inv k e(2) b] sv step obtain s' where "search_call model s e m = Inr s'"
      and "search_inv model es s' ((k, ?st) # stk) [] (left_over es (insert k ?D))" by auto
    with that turn show ?thesis by simp
  qed
qed

text \<open>The record of the longest linearizations never fails.\<close>

lemma record_longest_total:
  assumes "\<forall>i \<in> set is. 0 \<le> i \<and> i < int (length lg)"
  shows "\<exists>lg'. record_longest seq is lg = Inr lg' \<and> length lg' = length lg"
  using assms
proof (induction "is" arbitrary: lg)
  case (Cons i "is")
  let ?lg = "if lg ! nat i = None \<or> length seq > length (the (lg ! nat i))
      then lg[nat i := Some seq] else lg"
  have l: "length ?lg = length lg" by simp
  with Cons.prems have "\<exists>lg'. record_longest seq is ?lg = Inr lg' \<and> length lg' = length ?lg"
    by (intro Cons.IH) simp
  moreover have "go_index lg i = Inr (lg ! nat i)" using Cons.prems by (simp add: go_index_def)
  ultimately show ?case by (simp only: record_longest.simps go_bind.simps l)
qed simp

lemma call_ids_append:
  "call_ids h (xs @ ys) =
     go_bind (call_ids h xs) (\<lambda>is. go_bind (call_ids h ys) (\<lambda>js. Inr (is @ js)))"
proof (induction xs)
  case Nil
  show ?case by (cases "call_ids h ys") simp_all
next
  case (Cons x xs)
  obtain a st where x: "x = (a, st)" by (cases x)
  show ?case
    by (cases "deref h (Some a)"; cases "call_ids h xs"; cases "call_ids h ys") (simp_all add: x Cons.IH)
qed

lemma stack_call_ids:
  assumes w: "wf_entries es" and "heap_ok es D h" and "done_ops stk \<subseteq> {..<op_count es}"
  shows "call_ids h (stack_calls es stk) = Inr (map (\<lambda>e. int (fst e)) (rev stk))"
  using assms(3)
proof (induction stk)
  case (Cons e stk)
  obtain k st where e: "e = (k, st)" by (cases e)
  with Cons.prems have k: "k < op_count es" by simp
  obtain nd where "h (call_at es k) = Some nd" "node_id nd = int k"
    using heap_info [OF assms(2) wf_call(2,3) [OF w k]] by metis
  with Cons e show ?case by (simp add: stack_calls_def call_ids_append heap_simps)
qed (simp add: stack_calls_def)

lemma longest_total:
  assumes "wf_entries es" and "heap_ok es D h" and "done_ops stk \<subseteq> {..<op_count es}"
    and "length lg = op_count es"
  shows "\<exists>lg'. (if cp then go_bind (call_ids h (stack_calls es stk)) (\<lambda>seq. record_longest seq seq lg)
      else Inr lg) = Inr lg' \<and> length lg' = op_count es"
proof -
  have "\<forall>i \<in> set (map (\<lambda>e. int (fst e)) (rev stk)). 0 \<le> i \<and> i < int (length lg)"
    using assms(3,4) by (auto simp: done_ops_def)
  from record_longest_total [OF this] show ?thesis
    using stack_call_ids [OF assms(1-3)] assms(4) by (cases cp) auto
qed

text \<open>Backtracking pops the top of the stack and puts the cursor behind it.\<close>

lemma backtrack:
  assumes w: "wf_entries es" and len: "length es < 2 ^ 63"
    and inv: "search_inv model es s ((k, st0) # below) pre suf"
    and dead: "\<not> win model es (insert k (done_ops below)) (s_state s)"
  shows "\<exists>s' pre' suf'. search_backtrack cp s = Inr s' \<and>
    left_over es (done_ops below) = pre' @ call_at es k # suf' \<and>
    search_inv model es s' below (pre' @ [call_at es k]) suf'"
proof -
  let ?stk = "(k, st0) # below" and ?st = "s_state s" and ?B = "done_ops below"
  note f = search_inv_facts [OF inv]
  note D = good_stack_facts(2) [OF f(1)] and h = good_stack_facts(1) [OF f(1)]
  from f(1) obtain h0 pre' suf' where g0: "good_stack model es below st0 h0"
    and en: "enabled es ?B k" and step: "step_op model es st0 k = (True, ?st)"
    and ul: "unlift (s_heap s) (Some (call_at es k)) = Inr h0"
    and lo': "left_over es ?B = pre' @ call_at es k # suf'" and t': "tried model es ?B st0 pre'"
    by auto
  from en have k: "k < op_count es" "k \<notin> ?B" by (auto simp: enabled_def)
  obtain lg' where lg': "(if cp then go_bind (call_ids (s_heap s) (calls s))
      (\<lambda>seq. record_longest seq seq (longest s)) else Inr (longest s)) = Inr lg'" "length lg' = op_count es"
    using longest_total [OF w h D f(10), of cp] unfolding f(7) by blast
  obtain nd where nd: "s_heap s (call_at es k) = Some nd" "node_id nd = int k"
    using heap_info [OF h wf_call(2,3) [OF w k(1)]] by metis
  have "k < capacity (linearized s)" using k f(5) by simp
  from bs_clear_spec [OF this] obtain b where b: "bs_clear (linearized s) k = Inr b"
    "members b = ?B" "op_count es \<le> capacity b" using f(4,5) k(2) by auto
  obtain e' where e': "h0 (call_at es k) = Some e'" "node_next e' = first_ptr suf' None"
    using heap_node [OF good_stack_facts(1) [OF g0] lo' wf_call(2,3) [OF w k(1)]] by metis
  let ?s = "s\<lparr>longest := lg', s_state := st0, linearized := b, calls := stack_calls es below,
    s_heap := h0, s_entry := node_next e'\<rparr>"
  have "search_backtrack cp s = Inr ?s"
    using f(7) by (simp add: search_backtrack_def lg'(1) stack_calls_def heap_simps nd
        id_fits [OF len k(1)] b(1) ul e'(1))
  moreover have "hopeless model es ?B st0 k" using dead step by (simp add: hopeless_def)
  from tried_snoc [OF t' k(1) this] have t: "tried model es ?B st0 (pre' @ [call_at es k])" .
  have "cache_ok model es below st0 (cache s)"
    unfolding cache_ok_def
  proof (intro allI ballI)
    fix hash c assume "c \<in> set (go_get [] (cache s) hash)"
    with f(6) have "case c of (b, st') \<Rightarrow> \<not> win model es (members b) st' \<or> on_path ?stk ?st (members b, st')"
      by (simp add: cache_ok_def)
    with dead show "case c of (b, st') \<Rightarrow> \<not> win model es (members b) st' \<or> on_path below st0 (members b, st')"
      by auto
  qed
  with t have "search_inv model es ?s below (pre' @ [call_at es k]) suf'"
    using g0 f(8) b lo' e'(2) lg'(2) by (simp add: search_inv_def)
  ultimately show ?thesis using lo' by blast
qed

text \<open>What a turn does at a return node.\<close>

lemma at_return:
  assumes w: "wf_entries es" and inv: "search_inv model es s stk pre (return_at es j # suf)"
    and j: "j < op_count es"
  shows "search_turn model cp False s =
    (if stk = [] then Inr (Inr (False, longest s))
     else go_bind (search_backtrack cp s) (\<lambda>s'. Inr (Inl s')))"
proof -
  note f = search_inv_facts [OF inv]
  have "return_at es j < length es" using wf_call(1,2) [OF w j] by simp
  from heap_info [OF good_stack_facts(1) [OF f(1)] this wf_call(4) [OF w j]] obtain e where
    "s_heap s (return_at es j) = Some e" "node_match e = None" by metis
  then show ?thesis using f(7,9) by (simp add: search_turn_def heap_simps stack_calls_def)
qed

text \<open>The cursor on a return: the stack is popped, or nothing is left to try.\<close>

lemma turn_return:
  assumes w: "wf_entries es" and len: "length es < 2 ^ 63"
    and inv: "search_inv model es s stk pre (return_at es j # suf)" and j: "j < op_count es"
  shows "(stk = [] \<longrightarrow> \<not> linearizable model es \<and>
      search_turn model cp False s = Inr (Inr (False, longest s))) \<and>
    (\<forall>k st0 below. stk = (k, st0) # below \<longrightarrow>
      (\<exists>s' pre' suf'. search_turn model cp False s = Inr (Inl s') \<and>
        left_over es (done_ops below) = pre' @ call_at es k # suf' \<and>
        search_inv model es s' below (pre' @ [call_at es k]) suf'))"
proof -
  note f = search_inv_facts [OF inv]
  have dead: "\<not> win model es (done_ops stk) (s_state s)"
    by (rule tried_all [OF w good_stack_facts(2) [OF f(1)] j f(2,3)])
  note turn = at_return [OF w inv j, of cp]
  show ?thesis
  proof (cases stk)
    case Nil
    with dead f(1) turn show ?thesis by (simp add: win_linearizable [symmetric])
  next
    case (Cons x below)
    obtain k st0 where x: "x = (k, st0)" by (cases x)
    have "\<not> win model es (insert k (done_ops below)) (s_state s)" using dead by (simp add: Cons x)
    from backtrack [OF w len inv [unfolded Cons x] this, of cp] obtain s' pre' suf' where
      b: "search_backtrack cp s = Inr s'" "left_over es (done_ops below) = pre' @ call_at es k # suf'"
        "search_inv model es s' below (pre' @ [call_at es k]) suf'" by blast
    with turn Cons have "search_turn model cp False s = Inr (Inl s')" by simp
    with b show ?thesis unfolding Cons x by blast
  qed
qed

section \<open>The search ends, with the right answer\<close>

text \<open>
  The weight of a state: what is left behind the cursor on each level of the stack, a level outweighing
  all that can follow on the levels above it.
\<close>

definition level_weight :: "('i, 'o) entry list \<Rightarrow> nat \<Rightarrow> nat" where
  "level_weight es d = (length es + 1) ^ (op_count es - d)"

fun stack_weight :: "('i, 'o) entry list \<Rightarrow> 'st stack \<Rightarrow> nat" where
  "stack_weight es [] = 0"
| "stack_weight es ((k, _) # below) =
     length (tl (dropWhile (\<lambda>a. a \<noteq> call_at es k) (left_over es (done_ops below)))) *
       level_weight es (length below) + stack_weight es below"

definition weight :: "('i, 'o) entry list \<Rightarrow> 'st stack \<Rightarrow> nat list \<Rightarrow> nat" where
  "weight es stk suf = length suf * level_weight es (length stk) + stack_weight es stk"

lemma level_weight_pos: "0 < level_weight es d"
  by (simp add: level_weight_def)

lemma stack_weight_push:
  assumes "left_over es (done_ops below) = pre @ call_at es k # suf"
  shows "stack_weight es ((k, st) # below) = weight es below suf"
proof -
  have "call_at es k \<notin> set pre" using distinct_left_over [of es "done_ops below"] assms by auto
  then have "dropWhile (\<lambda>a. a \<noteq> call_at es k) (left_over es (done_ops below)) = call_at es k # suf"
    by (subst assms, subst dropWhile_append2) auto
  then show ?thesis by (simp add: weight_def)
qed

lemma weight_next: "weight es stk suf < weight es stk (a # suf)"
  by (simp add: weight_def level_weight_pos)

lemma weight_push:
  assumes "left_over es (done_ops stk) = pre @ call_at es k # suf" and "length stk < op_count es"
  shows "weight es ((k, st) # stk) (left_over es D) < weight es stk (call_at es k # suf)"
proof -
  have "Suc (op_count es - Suc (length stk)) = op_count es - length stk" using assms(2) by simp
  then have l: "level_weight es (length stk) = (length es + 1) * level_weight es (Suc (length stk))"
    by (simp only: level_weight_def power_Suc [symmetric])
  have "length (left_over es D) * level_weight es (Suc (length stk)) \<le>
      length es * level_weight es (Suc (length stk))"
    using length_left_over [of es D] by simp
  also have "\<dots> < level_weight es (length stk)"
    using level_weight_pos [of es "Suc (length stk)"] by (simp add: l)
  finally show ?thesis
    using stack_weight_push [OF assms(1), of st] by (simp add: weight_def)
qed

lemma weight_pop:
  assumes "left_over es (done_ops below) = pre @ call_at es k # suf'"
  shows "weight es below suf' < weight es ((k, st) # below) (a # suf)"
  using stack_weight_push [OF assms, of st] level_weight_pos [of es "length ((k, st) # below)"]
  by (simp add: weight_def del: stack_weight.simps)

text \<open>
  How a turn moves the stack and the cursor, \<open>st\<close> being the state at the top: past a call, down to a
  pushed operation, or back behind the call of a popped one.
\<close>

inductive moves ::
  "('i, 'o) entry list \<Rightarrow> 'st \<Rightarrow> 'st stack \<times> nat list \<times> nat list \<Rightarrow> 'st stack \<times> nat list \<times> nat list \<Rightarrow> bool"
  for es st where
  skip: "k < op_count es \<Longrightarrow>
     moves es st (stk, pre, call_at es k # suf) (stk, pre @ [call_at es k], suf)"
| push: "k < op_count es \<Longrightarrow>
     moves es st (stk, pre, call_at es k # suf)
       ((k, st) # stk, [], left_over es (insert k (done_ops stk)))"
| pop: "j < op_count es \<Longrightarrow> left_over es (done_ops below) = pre' @ call_at es k # suf' \<Longrightarrow>
     moves es st ((k, st0) # below, pre, return_at es j # suf) (below, pre' @ [call_at es k], suf')"

inductive_cases movesE: "moves es st (stk, pre, suf) (stk', pre', suf')"

lemma moves_weight:
  assumes w: "wf_entries es" and inv: "search_inv model es s stk pre suf"
    and m: "moves es (s_state s) (stk, pre, suf) (stk', pre', suf')"
  shows "weight es stk' suf' < weight es stk suf"
  using m
proof cases
  case (skip k)
  then show ?thesis by (simp add: weight_next)
next
  case (push k suf1)
  note f = search_inv_facts [OF inv [unfolded push]]
  note D = good_stack_facts(2) [OF f(1)]
  have kD: "k \<notin> done_ops stk" using left_over_members(1) [OF w push(5) D] f(2) by simp
  have "insert k (done_ops stk) \<subseteq> {..<op_count es}" using D push(5) by simp
  from card_mono [OF _ this] kD good_stack_facts(4) [OF f(1)] have "length stk < op_count es" by simp
  from weight_push [OF f(2) this] show ?thesis by (simp only: push)
next
  case (pop j k pre1 st0 suf1)
  from weight_pop [OF pop(5)] show ?thesis by (simp only: pop)
qed

text \<open>One round of the loop from a state whose list is not empty.\<close>

definition progresses ::
  "('i, 'o, 'st) Model \<Rightarrow> ('i, 'o) entry list \<Rightarrow> bool \<Rightarrow> ('i, 'o, 'st) search \<Rightarrow> 'st stack \<Rightarrow> nat list \<Rightarrow> nat list \<Rightarrow> bool" where
  "progresses model es cp s stk pre suf \<longleftrightarrow>
     (\<exists>s' stk' pre' suf'. search_turn model cp False s = Inr (Inl s') \<and>
       search_inv model es s' stk' pre' suf' \<and> moves es (s_state s) (stk, pre, suf) (stk', pre', suf'))"

text \<open>The search gives up at a return with nothing on the stack.\<close>

definition gives_up ::
  "('i, 'o, 'st) Model \<Rightarrow> ('i, 'o) entry list \<Rightarrow> bool \<Rightarrow> ('i, 'o, 'st) search \<Rightarrow> 'st stack \<Rightarrow> nat list \<Rightarrow> bool" where
  "gives_up model es cp s stk suf \<longleftrightarrow>
     search_turn model cp False s = Inr (Inr (False, longest s)) \<and> \<not> linearizable model es \<and> stk = [] \<and>
     (\<exists>j < op_count es. \<exists>suf'. suf = return_at es j # suf')"

lemma progress_call:
  assumes w: "wf_entries es" and len: "length es < 2 ^ 63" and eq: "Equal_sound model"
    and inv: "search_inv model es s stk pre (call_at es k # suf)" and k: "k < op_count es"
  shows "progresses model es cp s stk pre (call_at es k # suf)"
proof -
  obtain s' where "search_turn model cp False s = Inr (Inl s')"
    and "search_inv model es s' stk (pre @ [call_at es k]) suf \<or>
      search_inv model es s' ((k, s_state s) # stk) [] (left_over es (insert k (done_ops stk)))"
    by (rule turn_call [OF w len eq inv k])
  then show ?thesis
    unfolding progresses_def using moves.skip [OF k] moves.push [OF k] by metis
qed

lemma progress_return:
  assumes w: "wf_entries es" and len: "length es < 2 ^ 63"
    and inv: "search_inv model es s stk pre (return_at es j # suf)" and j: "j < op_count es"
  shows "progresses model es cp s stk pre (return_at es j # suf) \<or> gives_up model es cp s stk (return_at es j # suf)"
proof (cases stk)
  case Nil
  with turn_return [OF w len inv j, of cp] j show ?thesis unfolding gives_up_def by blast
next
  case (Cons x below)
  obtain i st0 where x: "x = (i, st0)" by (cases x)
  from turn_return [OF w len inv j, of cp] Cons x obtain s' pre' suf' where
    "search_turn model cp False s = Inr (Inl s')"
    and lo: "left_over es (done_ops below) = pre' @ call_at es i # suf'"
    and "search_inv model es s' below (pre' @ [call_at es i]) suf'" by blast
  with moves.pop [OF j lo, of "s_state s" st0 pre suf] show ?thesis
    unfolding progresses_def Cons x by blast
qed

lemma search_progress:
  assumes w: "wf_entries es" and len: "length es < 2 ^ 63" and eq: "Equal_sound model"
    and inv: "search_inv model es s stk pre suf" and ne: "done_ops stk \<noteq> {..<op_count es}"
  shows "progresses model es cp s stk pre suf \<or> gives_up model es cp s stk suf"
proof -
  note f = search_inv_facts [OF inv]
  note D = good_stack_facts(2) [OF f(1)]
  have "left_over es (done_ops stk) \<noteq> []" using left_over_all [OF w D] ne by simp
  from cursor_not_at_end [OF w D this f(2,3)] obtain a suf1 where suf: "suf = a # suf1"
    by (cases suf) auto
  have "a \<in> set (left_over es (done_ops stk))" by (simp add: f(2) suf)
  then have "a < length es" by (simp add: left_over_def)
  from wf_cover [OF w this] obtain k where k: "k < op_count es" "a = call_at es k \<or> a = return_at es k"
    by blast
  from k(2) show ?thesis
  proof
    assume a: "a = call_at es k"
    from progress_call [OF w len eq inv [unfolded suf a] k(1)] show ?thesis unfolding suf a by blast
  next
    assume a: "a = return_at es k"
    from progress_return [OF w len inv [unfolded suf a] k(1)] show ?thesis unfolding suf a by blast
  qed
qed

text \<open>When the list is empty, the stack is a linearization.\<close>

lemma search_finished:
  assumes w: "wf_entries es" and inv: "search_inv model es s stk pre suf"
    and all: "done_ops stk = {..<op_count es}"
  shows "\<exists>ks. is_linearization model es ks \<and> call_ids (s_heap s) (calls s) = Inr (map int ks)"
proof -
  note f = search_inv_facts [OF inv]
  let ?ks = "map fst (rev stk)"
  have "linearizes model es {..<op_count es} (Init model) (?ks @ [])"
    by (rule good_stack_linearizes [OF f(1)]) (simp add: all)
  then have "is_linearization model es ?ks" by (simp add: is_linearization_linearizes)
  moreover have "call_ids (s_heap s) (calls s) = Inr (map int ?ks)"
    using stack_call_ids [OF w good_stack_facts(1,2) [OF f(1)]] by (simp add: f(7) comp_def)
  ultimately show ?thesis by blast
qed

text \<open>Fuel that is enough.\<close>

definition check_fuel :: "('i, 'o) entry list \<Rightarrow> nat" where
  "check_fuel es = length es * (length es + 1) ^ op_count es + 1"

lemma first_ptr_addrs: "first_ptr (addrs n) None = None \<longleftrightarrow> n = 0"
  by (cases n) simp_all

lemma search_init_correct:
  assumes w: "wf_entries es"
  shows "\<exists>s. search_init model es = Some (Inr s) \<and> search_inv model es s [] [] (addrs (length es)) \<and>
    longest s = replicate (op_count es) None \<and> cache s = Map.empty"
proof -
  obtain h where h: "makeLinkedEntries es =
      Inr (h, return_addr es, first_ptr (addrs (length es)) None, length es)"
    "seg h None (addrs (length es)) None" "info h = list_info es"
    using makeLinkedEntries_spec by blast
  have "node_length h (first_ptr (addrs (length es)) None) 0 = Some (Inr (length es))"
    using node_length_spec [OF h(2), of 0] by (simp add: addrs_def)
  moreover have "h (length es) = None"
    using fun_cong [OF h(3), of "length es"] list_info_dom [of es "length es"] by (simp add: info_def)
  let ?nd = "\<lparr>node_value = None, node_match = None, node_id = -1, node_next = None, node_prev = None\<rparr>"
  from insertBefore_spec [OF h(2) \<open>h (length es) = None\<close>, of ?nd] obtain h' where
    h': "insertBefore (h(length es \<mapsto> ?nd)) (Some (length es)) (first_ptr (addrs (length es)) None) = Inr h'"
      "seg h' None (addrs (Suc (length es))) None"
      "info h' = (info h)(length es \<mapsto> (None, None, -1))" by auto
  have "heap_ok es {} h'" using h' h(3) by (simp add: heap_ok_def left_over_empty)
  ultimately show ?thesis
    using h(1) h'(1) newBitset_spec [of "op_count es"]
    by (simp add: search_init_def search_inv_def stack_calls_def tried_def cache_ok_def op_count_def
        left_over_empty Let_def)
qed

end
