(* ===== verification/Porc_Partial.thy ===== *)
theory Porc_Partial
  imports Porc_Turns
begin

text \<open>
  The partial linearizations that \<open>checkSingle\<close> records when it is asked to: whenever it is stopped,
  what it has recorded for an operation is a linearizable prefix of the history with that operation,
  and when the search fails by itself no longer one exists.
\<close>

section \<open>Partial linearizations\<close>

text \<open>A legal order of some of the operations, with every operation that had returned before one of them
  was called.\<close>

definition partial_linearization ::
  "('i, 'o, 'st) Model \<Rightarrow> ('i, 'o) entry list \<Rightarrow> nat list \<Rightarrow> bool" where
  "partial_linearization model es ks \<longleftrightarrow>
     distinct ks \<and> set ks \<subseteq> {..<op_count es} \<and>
     (\<forall>k \<in> set ks. \<forall>j < op_count es. precedes es j k \<longrightarrow> j \<in> set ks) \<and>
     sorted_wrt (\<lambda>i j. \<not> precedes es j i) ks \<and> legal model es (Init model) ks"

fun extends ::
  "('i, 'o, 'st) Model \<Rightarrow> ('i, 'o) entry list \<Rightarrow> nat set \<Rightarrow> 'st \<Rightarrow> nat list \<Rightarrow> bool" where
  "extends model es D st [] = True"
| "extends model es D st (k # ks) =
     (enabled es D k \<and> fst (step_op model es st k) \<and>
      extends model es (insert k D) (snd (step_op model es st k)) ks)"

lemma extends_iff:
  "extends model es D st ks \<longleftrightarrow>
     distinct ks \<and> set ks \<subseteq> {..<op_count es} - D \<and>
     (\<forall>k \<in> set ks. \<forall>j < op_count es. precedes es j k \<longrightarrow> j \<in> D \<union> set ks) \<and>
     sorted_wrt (\<lambda>i j. \<not> precedes es j i) ks \<and> legal model es st ks"
proof (induction ks arbitrary: D st)
  case (Cons k ks)
  show ?case unfolding extends.simps Cons.IH by (auto simp: enabled_def)
qed simp

lemma partial_linearization_extends:
  "partial_linearization model es ks \<longleftrightarrow> extends model es {} (Init model) ks"
  by (simp add: partial_linearization_def extends_iff)

lemma extends_subset: "extends model es D st ks \<Longrightarrow> set ks \<subseteq> {..<op_count es}"
  by (auto simp: extends_iff)

lemma linearization_is_partial:
  "is_linearization model es ks \<Longrightarrow> partial_linearization model es ks"
  by (auto simp: is_linearization_def partial_linearization_def)

lemma good_stack_extends:
  assumes "good_stack model es stk st h" and "extends model es (done_ops stk) st ks"
  shows "extends model es {} (Init model) (map fst (rev stk) @ ks)"
  using assms
proof (induction stk arbitrary: st h ks)
  case (Cons e below)
  obtain k st0 where e: "e = (k, st0)" by (cases e)
  from Cons.prems(1) e obtain h0 where g: "good_stack model es below st0 h0"
    and "enabled es (done_ops below) k" "step_op model es st0 k = (True, st)" by auto
  with Cons.prems(2) have "extends model es (done_ops below) st0 (k # ks)" by (simp add: e)
  from Cons.IH [OF g this] show ?case by (simp add: e)
qed simp

section \<open>The record\<close>

text \<open>What is recorded is sound: a partial linearization with the operation.\<close>

definition sound_record ::
  "('i, 'o, 'st) Model \<Rightarrow> ('i, 'o) entry list \<Rightarrow> int list option list \<Rightarrow> bool" where
  "sound_record model es lg \<longleftrightarrow> length lg = op_count es \<and>
     (\<forall>i < op_count es. \<forall>seq. lg ! i = Some seq \<longrightarrow>
        (\<exists>ks. seq = map int ks \<and> partial_linearization model es ks \<and> i \<in> set ks))"

text \<open>Every operation of \<open>D\<close> has a record at least as long as \<open>D\<close> is large.\<close>

definition recorded :: "int list option list \<Rightarrow> nat set \<Rightarrow> bool" where
  "recorded lg D \<longleftrightarrow> (\<forall>i \<in> D. \<exists>seq. lg ! i = Some seq \<and> card D \<le> length seq)"

definition improves :: "int list option list \<Rightarrow> int list option list \<Rightarrow> bool" where
  "improves lg lg' \<longleftrightarrow>
     (\<forall>i < length lg. \<forall>seq. lg ! i = Some seq \<longrightarrow> (\<exists>seq'. lg' ! i = Some seq' \<and> length seq \<le> length seq'))"

lemma improves_refl: "improves lg lg"
  by (simp add: improves_def)

lemma recorded_improves:
  assumes "recorded lg D" and "improves lg lg'" and "D \<subseteq> {..<length lg}"
  shows "recorded lg' D"
  unfolding recorded_def
proof
  fix i assume "i \<in> D"
  with assms(1,3) obtain seq where "i < length lg" "lg ! i = Some seq" "card D \<le> length seq"
    by (auto simp: recorded_def)
  with assms(2) show "\<exists>seq. lg' ! i = Some seq \<and> card D \<le> length seq"
    unfolding improves_def by (meson le_trans)
qed

lemma record_longest_nth:
  assumes "record_longest seq is lg = Inr lg'" and "\<forall>i \<in> set is. 0 \<le> i \<and> i < int (length lg)"
    and "j < length lg"
  shows "lg' ! j = (if int j \<in> set is \<and> (lg ! j = None \<or> length (the (lg ! j)) < length seq)
    then Some seq else lg ! j)"
  using assms
proof (induction "is" arbitrary: lg)
  case (Cons i "is")
  let ?lg = "if lg ! nat i = None \<or> length seq > length (the (lg ! nat i))
      then lg[nat i := Some seq] else lg"
  have l: "length ?lg = length lg" by simp
  from Cons.prems(1,2) have "record_longest seq is ?lg = Inr lg'" by (auto simp: go_simps)
  from Cons.IH [OF this] Cons.prems(2,3) have
    "lg' ! j = (if int j \<in> set is \<and> (?lg ! j = None \<or> length (the (?lg ! j)) < length seq)
      then Some seq else ?lg ! j)" unfolding l by simp
  moreover have "nat i = j \<longleftrightarrow> i = int j" using Cons.prems(2) by auto
  ultimately show ?case using Cons.prems(3) by (auto simp: nth_list_update_if)
qed simp

text \<open>The record after the stack has been entered.\<close>

lemma record_stack:
  assumes rec: "record_longest (map int ks) (map int ks) lg = Inr lg'"
    and p: "partial_linearization model es ks" and s: "sound_record model es lg"
  shows "sound_record model es lg'" and "improves lg lg'" and "recorded lg' (set ks)"
proof -
  have l: "length lg = op_count es" using s by (simp add: sound_record_def)
  have ks: "distinct ks" "set ks \<subseteq> {..<op_count es}" using p by (simp_all add: partial_linearization_def)
  then have b: "\<forall>i \<in> set (map int ks). 0 \<le> i \<and> i < int (length lg)" using l by auto
  have l': "length lg' = length lg" using record_longest_total [OF b, of "map int ks"] rec by simp
  have nth: "lg' ! j = (if j \<in> set ks \<and> (lg ! j = None \<or> length (the (lg ! j)) < length ks)
      then Some (map int ks) else lg ! j)" if "j < length lg" for j
    using record_longest_nth [OF rec b that] by (auto simp: image_iff)
  show "sound_record model es lg'"
    using s p nth unfolding sound_record_def l l' by auto
  show "improves lg lg'"
    unfolding improves_def using nth by auto
  show "recorded lg' (set ks)"
    unfolding recorded_def distinct_card [OF ks(1)]
  proof
    fix i assume i: "i \<in> set ks"
    with ks(2) l have "i < length lg" by auto
    from nth [OF this] i show "\<exists>seq. lg' ! i = Some seq \<and> length ks \<le> length seq"
      by (cases "lg ! i") auto
  qed
qed

section \<open>Exploration\<close>

text \<open>Everything that can be reached from the configuration has been recorded.\<close>

definition explored ::
  "('i, 'o, 'st) Model \<Rightarrow> ('i, 'o) entry list \<Rightarrow> int list option list \<Rightarrow> nat set \<Rightarrow> 'st \<Rightarrow> bool" where
  "explored model es lg D st \<longleftrightarrow> (\<forall>ks. extends model es D st ks \<longrightarrow> recorded lg (D \<union> set ks))"

lemma explored_improves:
  assumes "explored model es lg D st" and "improves lg lg'" and "length lg = op_count es"
    and "D \<subseteq> {..<op_count es}"
  shows "explored model es lg' D st"
  using assms recorded_improves [OF _ assms(2)] extends_subset
  unfolding explored_def by (metis Un_subset_iff)

definition explored_calls ::
  "('i, 'o, 'st) Model \<Rightarrow> ('i, 'o) entry list \<Rightarrow> int list option list \<Rightarrow> nat set \<Rightarrow> 'st \<Rightarrow> nat list \<Rightarrow> bool" where
  "explored_calls model es lg D st pre \<longleftrightarrow>
     (\<forall>k < op_count es. call_at es k \<in> set pre \<longrightarrow> fst (step_op model es st k) \<longrightarrow>
        explored model es lg (insert k D) (snd (step_op model es st k)))"

fun explored_stack ::
  "('i, 'o, 'st) Model \<Rightarrow> ('i, 'o) entry list \<Rightarrow> int list option list \<Rightarrow> 'st stack \<Rightarrow> bool" where
  "explored_stack model es lg [] = True"
| "explored_stack model es lg ((k, st0) # below) \<longleftrightarrow>
     explored_calls model es lg (done_ops below) st0
       (takeWhile (\<lambda>a. a \<noteq> call_at es k) (left_over es (done_ops below))) \<and>
     explored_stack model es lg below"

definition explored_cache ::
  "('i, 'o, 'st) Model \<Rightarrow> ('i, 'o) entry list \<Rightarrow> int list option list \<Rightarrow> 'st stack \<Rightarrow> 'st \<Rightarrow>
     (64 word \<rightharpoonup> 'st cacheEntry list) \<Rightarrow> bool" where
  "explored_cache model es lg stk st c \<longleftrightarrow>
     (\<forall>hash. \<forall>(b, st') \<in> set (go_get [] c hash). members b \<subseteq> {..<op_count es} \<and>
        (explored model es lg (members b) st' \<or> on_path stk st (members b, st')))"

definition explored_inv ::
  "('i, 'o, 'st) Model \<Rightarrow> ('i, 'o) entry list \<Rightarrow> ('i, 'o, 'st) search \<Rightarrow> 'st stack \<Rightarrow> nat list \<Rightarrow> bool" where
  "explored_inv model es s stk pre \<longleftrightarrow>
     explored_stack model es (longest s) stk \<and>
     explored_calls model es (longest s) (done_ops stk) (s_state s) pre \<and>
     explored_cache model es (longest s) stk (s_state s) (cache s)"

text \<open>The invariant of the record: always sound, and complete when partial linearizations are computed.\<close>

definition record_inv ::
  "('i, 'o, 'st) Model \<Rightarrow> ('i, 'o) entry list \<Rightarrow> bool \<Rightarrow> ('i, 'o, 'st) search \<Rightarrow> 'st stack \<Rightarrow> nat list \<Rightarrow> bool" where
  "record_inv model es cp s stk pre \<longleftrightarrow>
     sound_record model es (longest s) \<and> (cp \<longrightarrow> explored_inv model es s stk pre)"

lemma explored_calls_improves:
  assumes "explored_calls model es lg D st pre" and "improves lg lg'" and "length lg = op_count es"
    and "D \<subseteq> {..<op_count es}"
  shows "explored_calls model es lg' D st pre"
  unfolding explored_calls_def
proof (intro allI impI)
  fix k assume k: "k < op_count es" "call_at es k \<in> set pre" "fst (step_op model es st k)"
  with assms(1) have "explored model es lg (insert k D) (snd (step_op model es st k))"
    by (simp add: explored_calls_def)
  then show "explored model es lg' (insert k D) (snd (step_op model es st k))"
    by (rule explored_improves [OF _ assms(2,3)]) (use k(1) assms(4) in simp)
qed

lemma explored_stack_improves:
  assumes "explored_stack model es lg stk" and "improves lg lg'" and "length lg = op_count es"
    and "done_ops stk \<subseteq> {..<op_count es}"
  shows "explored_stack model es lg' stk"
  using assms(1,4)
proof (induction stk)
  case (Cons e below)
  then show ?case
    using explored_calls_improves [OF _ assms(2,3)] by (cases e) auto
qed simp

lemma takeWhile_left_over:
  assumes "left_over es D = pre @ a # suf"
  shows "takeWhile (\<lambda>x. x \<noteq> a) (left_over es D) = pre"
proof -
  have "a \<notin> set pre" using distinct_left_over [of es D] assms by auto
  then show ?thesis by (subst assms, subst takeWhile_append2) auto
qed

section \<open>The turns\<close>

text \<open>What a turn does to the cache and the record.\<close>

lemma call_effect:
  assumes "search_call model s e m = Inr s'" and "bs_set (linearized s) (uint_of (node_id e)) = Inr b"
    and "step_values model (s_state s) (node_value e) (node_value m) = Inr (good, st')"
  shows "longest s' = longest s"
    and "(cache s' = cache s \<and> s_state s' = s_state s \<and> calls s' = calls s \<and>
        (good \<longrightarrow> cacheContains model (cache s) (b, st'))) \<or>
      (good \<and> s_state s' = st' \<and> length (calls s') = Suc (length (calls s)) \<and>
        cache s' = (cache s)(bs_hash b \<mapsto> go_get [] (cache s) (bs_hash b) @ [(b, st')]))"
  using assms by (auto simp: search_call_def go_simps Let_def split: if_splits)

lemma backtrack_effect:
  assumes "search_backtrack cp s = Inr s'" and "calls s = cs @ [(a, st)]"
  shows "cache s' = cache s" and "s_state s' = st" and "\<not> cp \<Longrightarrow> longest s' = longest s"
    and "cp \<Longrightarrow> call_ids (s_heap s) (calls s) = Inr seq \<Longrightarrow>
      record_longest seq seq (longest s) = Inr (longest s')"
  using assms by (auto simp: search_backtrack_def go_simps split: if_splits)

text \<open>A cached configuration that is not on the stack has been explored.\<close>

lemma explored_hit:
  assumes "Equal_sound model" and "explored_cache model es lg stk st c" and "cacheContains model c (b, st')"
    and "\<not> members b \<subseteq> done_ops stk"
  shows "explored model es lg (members b) st'"
proof -
  from assms(3) obtain b2 st2 where m: "(b2, st2) \<in> set (go_get [] c (bs_hash b))"
    and b: "bs_equals b b2" and e: "the_Equal model st' st2"
    by (auto simp: cacheContains_def list_ex_iff)
  from b e assms(1) have "b2 = b" "st2 = st'" by (auto simp: bs_equals_eq Equal_sound_def)
  with m assms(2) have "explored model es lg (members b) st' \<or> on_path stk st (members b, st')"
    by (fastforce simp: explored_cache_def)
  with on_path_subset [of stk st "(members b, st')"] assms(4) show ?thesis by auto
qed

lemma explored_cache_insert:
  assumes "explored_cache model es lg stk st c" and "members b = insert k (done_ops stk)"
    and "members b \<subseteq> {..<op_count es}"
  shows "explored_cache model es lg ((k, st) # stk) st'
    (c(hash \<mapsto> go_get [] c hash @ [(b, st')]))"
  using assms by (fastforce simp: explored_cache_def)

lemma explored_calls_snoc:
  assumes w: "wf_entries es" and k: "k < op_count es" and "explored_calls model es lg D st pre"
    and "fst (step_op model es st k) \<Longrightarrow> explored model es lg (insert k D) (snd (step_op model es st k))"
  shows "explored_calls model es lg D st (pre @ [call_at es k])"
  unfolding explored_calls_def
proof (intro allI impI)
  fix j assume j: "j < op_count es" "call_at es j \<in> set (pre @ [call_at es k])" "fst (step_op model es st j)"
  then consider "call_at es j \<in> set pre" | "j = k" using wf_inj(1) [OF w j(1) k] by auto
  then show "explored model es lg (insert j D) (snd (step_op model es st j))"
    using assms(3,4) j by cases (auto simp: explored_calls_def)
qed

lemma call_turn_effect:
  assumes w: "wf_entries es" and len: "length es < 2 ^ 63"
    and inv: "search_inv model es s stk pre (call_at es k # suf)" and k: "k < op_count es"
    and turn: "search_turn model cp False s = Inr (Inl s')"
  obtains b where "members b = insert k (done_ops stk)" and "longest s' = longest s"
    and "(cache s' = cache s \<and> s_state s' = s_state s \<and> length (calls s') = length stk \<and>
        (fst (step_op model es (s_state s) k) \<longrightarrow>
          cacheContains model (cache s) (b, snd (step_op model es (s_state s) k)))) \<or>
      (s_state s' = snd (step_op model es (s_state s) k) \<and> length (calls s') = Suc (length stk) \<and>
        cache s' = (cache s)(bs_hash b \<mapsto> go_get [] (cache s) (bs_hash b) @
          [(b, snd (step_op model es (s_state s) k))]))"
proof -
  obtain good st' where step: "step_op model es (s_state s) k = (good, st')"
    by (cases "step_op model es (s_state s) k")
  obtain e m b where e: "uint_of (node_id e) = k" and b: "bs_set (linearized s) k = Inr b"
      "members b = insert k (done_ops stk)"
    and sv: "step_values model (s_state s) (node_value e) (node_value m) = Inr (step_op model es (s_state s) k)"
    and t: "search_turn model cp False s = go_bind (search_call model s e m) (\<lambda>s'. Inr (Inl s'))"
    by (rule at_call [OF w len inv k])
  have "search_call model s e m = Inr s'" using t turn by (cases "search_call model s e m") simp_all
  note eff = call_effect [OF this, unfolded e sv step, OF b(1) refl]
  have "length (calls s) = length stk" using search_inv_facts(7) [OF inv] by (simp add: stack_calls_def)
  with eff(2) show ?thesis by (intro that [OF b(2) eff(1)]) (auto simp: step)
qed

lemma stack_length:
  "search_inv model es s stk pre suf \<Longrightarrow> length (calls s) = length stk"
  by (simp add: search_inv_def stack_calls_def)

lemma record_skip:
  assumes w: "wf_entries es" and len: "length es < 2 ^ 63" and eq: "Equal_sound model"
    and inv: "search_inv model es s stk pre (call_at es k # suf)" and k: "k < op_count es"
    and r: "record_inv model es cp s stk pre" and turn: "search_turn model cp False s = Inr (Inl s')"
    and inv': "search_inv model es s' stk (pre @ [call_at es k]) suf"
  shows "record_inv model es cp s' stk (pre @ [call_at es k])"
proof -
  let ?D = "done_ops stk" and ?next = "step_op model es (s_state s) k"
  note f = search_inv_facts [OF inv]
  have kD: "k \<notin> ?D" using left_over_members(1) [OF w k good_stack_facts(2) [OF f(1)]] f(2) by simp
  obtain b where b: "members b = insert k ?D" and lg: "longest s' = longest s"
    and same: "cache s' = cache s" "s_state s' = s_state s"
    and hit: "fst ?next \<longrightarrow> cacheContains model (cache s) (b, snd ?next)"
    by (rule call_turn_effect [OF w len inv k turn]) (use stack_length [OF inv'] in auto)
  have "explored_inv model es s' stk (pre @ [call_at es k])" if cp
  proof -
    from r that have x: "explored_inv model es s stk pre" by (simp add: record_inv_def)
    then have c: "explored_cache model es (longest s) stk (s_state s) (cache s)"
      by (simp add: explored_inv_def)
    have "explored model es (longest s) (insert k ?D) (snd ?next)" if "fst ?next"
      using explored_hit [OF eq c, of b "snd ?next"] hit that b kD by auto
    then have "explored_calls model es (longest s) ?D (s_state s) (pre @ [call_at es k])"
      using x by (intro explored_calls_snoc [OF w k]) (simp_all add: explored_inv_def)
    with x same lg show ?thesis by (simp add: explored_inv_def)
  qed
  with r lg show ?thesis by (simp add: record_inv_def)
qed

lemma record_push:
  assumes w: "wf_entries es" and len: "length es < 2 ^ 63"
    and inv: "search_inv model es s stk pre (call_at es k # suf)" and k: "k < op_count es"
    and r: "record_inv model es cp s stk pre" and turn: "search_turn model cp False s = Inr (Inl s')"
    and inv': "search_inv model es s' ((k, s_state s) # stk) [] suf'"
  shows "record_inv model es cp s' ((k, s_state s) # stk) []"
proof -
  let ?D = "done_ops stk" and ?st' = "snd (step_op model es (s_state s) k)"
  note f = search_inv_facts [OF inv]
  obtain b where b: "members b = insert k ?D" and lg: "longest s' = longest s"
    and new: "s_state s' = ?st'"
      "cache s' = (cache s)(bs_hash b \<mapsto> go_get [] (cache s) (bs_hash b) @ [(b, ?st')])"
    by (rule call_turn_effect [OF w len inv k turn]) (use stack_length [OF inv'] in auto)
  have "explored_inv model es s' ((k, s_state s) # stk) []" if cp
  proof -
    from r that have x: "explored_inv model es s stk pre" by (simp add: record_inv_def)
    then have c: "explored_cache model es (longest s) stk (s_state s) (cache s)"
      by (simp add: explored_inv_def)
    have "members b \<subseteq> {..<op_count es}" using b good_stack_facts(2) [OF f(1)] k by simp
    with explored_cache_insert [OF c b] x new lg takeWhile_left_over [OF f(2)] show ?thesis
      by (simp add: explored_inv_def explored_calls_def)
  qed
  with r lg show ?thesis by (simp add: record_inv_def)
qed

text \<open>At a return everything that follows the configuration is in the record.\<close>

lemma explored_at_return:
  assumes w: "wf_entries es" and inv: "search_inv model es s stk pre (return_at es j # suf)"
    and j: "j < op_count es" and x: "explored_inv model es s stk pre"
    and lg: "recorded lg (done_ops stk)" "improves (longest s) lg"
  shows "explored model es lg (done_ops stk) (s_state s)"
  unfolding explored_def
proof (intro allI impI)
  let ?D = "done_ops stk"
  note f = search_inv_facts [OF inv]
  note D = good_stack_facts(2) [OF f(1)]
  fix ks assume ks: "extends model es ?D (s_state s) ks"
  show "recorded lg (?D \<union> set ks)"
  proof (cases ks)
    case Nil
    with lg(1) show ?thesis by simp
  next
    case (Cons k ks')
    with ks have k: "enabled es ?D k" "fst (step_op model es (s_state s) k)"
      "extends model es (insert k ?D) (snd (step_op model es (s_state s) k)) ks'" by simp_all
    have "call_at es k \<in> set pre" by (rule enabled_before_return [OF w D j f(2) k(1)])
    moreover from k(1) have "k < op_count es" by (simp add: enabled_def)
    ultimately have "recorded (longest s) (insert k ?D \<union> set ks')"
      using x k(2,3) by (auto simp: explored_inv_def explored_calls_def explored_def)
    moreover have "insert k ?D \<union> set ks' \<subseteq> {..<length (longest s)}"
      using D extends_subset [OF ks] Cons f(10) by simp
    ultimately have "recorded lg (insert k ?D \<union> set ks')" by (rule recorded_improves [OF _ lg(2)])
    with Cons show ?thesis by simp
  qed
qed

text \<open>Backtracking enters the stack into the record and finishes its configuration.\<close>

lemma backtrack_record:
  assumes w: "wf_entries es" and inv: "search_inv model es s ((k, st0) # below) pre suf"
    and r: "sound_record model es (longest s)" and bt: "search_backtrack cp s = Inr s'"
  shows "cache s' = cache s" and "s_state s' = st0" and "sound_record model es (longest s')"
    and "cp \<Longrightarrow> improves (longest s) (longest s')"
    and "cp \<Longrightarrow> recorded (longest s') (done_ops ((k, st0) # below))"
proof -
  let ?stk = "(k, st0) # below" and ?ks = "map fst (rev ((k, st0) # below))"
  note f = search_inv_facts [OF inv]
  have calls: "calls s = stack_calls es below @ [(call_at es k, st0)]"
    by (simp add: f(7) stack_calls_def)
  note eff = backtrack_effect [OF bt calls]
  show "cache s' = cache s" "s_state s' = st0" by (rule eff(1,2))+
  have "partial_linearization model es (?ks @ [])"
    unfolding partial_linearization_extends by (rule good_stack_extends [OF f(1)]) simp
  then have p: "partial_linearization model es ?ks" by simp
  have "call_ids (s_heap s) (calls s) = Inr (map int ?ks)"
    using stack_call_ids [OF w good_stack_facts(1,2) [OF f(1)]] by (simp add: f(7) comp_def)
  then have rec: "record_longest (map int ?ks) (map int ?ks) (longest s) = Inr (longest s')" if cp
    by (rule eff(4) [OF that])
  have set: "set ?ks = done_ops ?stk" by (auto simp: done_ops_def)
  show "sound_record model es (longest s')"
    using record_stack(1) [OF rec p r] eff(3) r by (cases cp) auto
  show "improves (longest s) (longest s')" "recorded (longest s') (done_ops ?stk)" if cp
    using record_stack(2,3) [OF rec [OF that] p r] by (simp_all only: set)
qed

lemma record_return:
  assumes w: "wf_entries es" and inv: "search_inv model es s ((k, st0) # below) pre (return_at es j # suf)"
    and j: "j < op_count es" and k: "k < op_count es" and r: "record_inv model es cp s ((k, st0) # below) pre"
    and bt: "search_backtrack cp s = Inr s'"
    and lo: "left_over es (done_ops below) = pre' @ call_at es k # suf'"
  shows "record_inv model es cp s' below (pre' @ [call_at es k])"
proof -
  let ?stk = "(k, st0) # below" and ?lg = "longest s'"
  note f = search_inv_facts [OF inv]
  note D = good_stack_facts(2) [OF f(1)]
  have "sound_record model es (longest s)" using r by (simp add: record_inv_def)
  note eff = backtrack_record [OF w inv this bt]
  have "explored_inv model es s' below (pre' @ [call_at es k])" if cp
  proof -
    from r that have x: "explored_inv model es s ?stk pre" by (simp add: record_inv_def)
    note imp = eff(4) [OF that]
    have fin: "explored model es ?lg (done_ops ?stk) (s_state s)"
      by (rule explored_at_return [OF w inv j x eff(5) [OF that] imp])
    have "step_op model es st0 k = (True, s_state s)" using f(1) by simp
    with fin have "explored model es ?lg (insert k (done_ops below)) (snd (step_op model es st0 k))" by simp
    moreover have "explored_calls model es (longest s) (done_ops below) st0 pre'"
      using x takeWhile_left_over [OF lo] by (simp add: explored_inv_def)
    then have "explored_calls model es ?lg (done_ops below) st0 pre'"
      by (rule explored_calls_improves [OF _ imp f(10)]) (use D in simp)
    ultimately have "explored_calls model es ?lg (done_ops below) st0 (pre' @ [call_at es k])"
      by (intro explored_calls_snoc [OF w k])
    moreover have "explored_stack model es (longest s) below" using x by (simp add: explored_inv_def)
    then have "explored_stack model es ?lg below"
      by (rule explored_stack_improves [OF _ imp f(10)]) (use D in simp)
    moreover have "explored_cache model es ?lg below st0 (cache s)"
      unfolding explored_cache_def
    proof (intro allI ballI)
      fix hash c assume "c \<in> set (go_get [] (cache s) hash)"
      with x have c: "case c of (b, st') \<Rightarrow> members b \<subseteq> {..<op_count es} \<and>
          (explored model es (longest s) (members b) st' \<or> on_path ?stk (s_state s) (members b, st'))"
        unfolding explored_inv_def explored_cache_def by blast
      then show "case c of (b, st') \<Rightarrow> members b \<subseteq> {..<op_count es} \<and>
          (explored model es ?lg (members b) st' \<or> on_path below st0 (members b, st'))"
        using fin explored_improves [OF _ imp f(10)] by auto
    qed
    ultimately show ?thesis using eff(1,2) by (simp add: explored_inv_def)
  qed
  with eff(3) show ?thesis by (simp add: record_inv_def)
qed

text \<open>Every move keeps the invariant of the record.\<close>

lemma moves_record:
  assumes w: "wf_entries es" and len: "length es < 2 ^ 63" and eq: "Equal_sound model"
    and inv: "search_inv model es s stk pre suf" and r: "record_inv model es cp s stk pre"
    and turn: "search_turn model cp False s = Inr (Inl s')"
    and inv': "search_inv model es s' stk' pre' suf'"
    and m: "moves es (s_state s) (stk, pre, suf) (stk', pre', suf')"
  shows "record_inv model es cp s' stk' pre'"
  using m
proof cases
  case (skip k)
  from record_skip [OF w len eq inv [unfolded skip] skip(4) r turn] inv' show ?thesis by (simp only: skip)
next
  case (push k suf1)
  from record_push [OF w len inv [unfolded push] push(5) r turn] inv' show ?thesis by (simp only: push)
next
  case (pop j pre1 k st0 suf1)
  note f = search_inv_facts(1) [OF inv [unfolded pop]]
  have "k < op_count es" using good_stack_facts(2) [OF f] by simp
  moreover have "search_backtrack cp s = Inr s'"
    using turn at_return [OF w inv [unfolded pop] pop(4), of cp]
    by (cases "search_backtrack cp s") simp_all
  ultimately show ?thesis
    using record_return [OF w inv [unfolded pop] pop(4) _ _ _ pop(5)] r by (simp add: pop)
qed

section \<open>The search ends, with the right answer\<close>

text \<open>Nothing longer than what is recorded can be linearized.\<close>

definition complete_record ::
  "('i, 'o, 'st) Model \<Rightarrow> ('i, 'o) entry list \<Rightarrow> int list option list \<Rightarrow> bool" where
  "complete_record model es lg \<longleftrightarrow>
     (\<forall>ks. partial_linearization model es ks \<longrightarrow> recorded lg (set ks))"

lemma gives_up_complete:
  assumes w: "wf_entries es" and inv: "search_inv model es s stk pre suf"
    and x: "explored_inv model es s stk pre" and g: "gives_up model es cp s stk suf"
  shows "complete_record model es (longest s)"
proof -
  from g obtain j suf' where stk: "stk = []" and j: "j < op_count es" and suf: "suf = return_at es j # suf'"
    by (auto simp: gives_up_def)
  have "explored model es (longest s) (done_ops stk) (s_state s)"
    by (rule explored_at_return [OF w inv [unfolded suf] j x _ improves_refl]) (simp add: stk recorded_def)
  moreover have "s_state s = Init model" using search_inv_facts(1) [OF inv] stk by simp
  ultimately show ?thesis
    by (simp add: complete_record_def explored_def partial_linearization_extends stk)
qed

text \<open>What the search promises about its result, if it is not killed and if it is.\<close>

definition right_result ::
  "('i, 'o, 'st) Model \<Rightarrow> ('i, 'o) entry list \<Rightarrow> bool \<Rightarrow> (nat \<Rightarrow> bool) \<Rightarrow> bool \<Rightarrow> int list option list \<Rightarrow> bool" where
  "right_result model es cp kill r lg \<longleftrightarrow>
     sound_record model es lg \<and>
     (r \<longrightarrow> (\<exists>ks. is_linearization model es ks \<and> lg = replicate (op_count es) (Some (map int ks)))) \<and>
     (\<not> r \<longrightarrow> (\<exists>t. kill t) \<or> \<not> linearizable model es \<and> (cp \<longrightarrow> complete_record model es lg))"

lemma right_resultI_True:
  assumes "is_linearization model es ks"
  shows "right_result model es cp kill True (replicate (op_count es) (Some (map int ks)))"
proof -
  have "set ks = {..<op_count es}" using assms by (simp add: is_linearization_def)
  with assms linearization_is_partial [OF assms] show ?thesis
    by (auto simp: right_result_def sound_record_def)
qed

lemma search_loop_correct:
  assumes w: "wf_entries es" and len: "length es < 2 ^ 63" and eq: "Equal_sound model"
    and inv: "search_inv model es s stk pre suf" and rec: "record_inv model es cp s stk pre"
    and fuel: "weight es stk suf < fuel"
  shows "\<exists>r lg. search_loop fuel model cp kill t s = Some (Inr (r, lg)) \<and> right_result model es cp kill r lg"
  using inv rec fuel
proof (induction fuel arbitrary: t s stk pre suf)
  case (Suc fuel)
  note f = search_inv_facts [OF Suc.prems(1)]
  have sound: "sound_record model es (longest s)" using Suc.prems(2) by (simp add: record_inv_def)
  obtain hnd where hn: "deref (s_heap s) (Some (length es)) = Inr hnd"
    "node_next hnd = first_ptr (left_over es (done_ops stk)) None"
    by (rule head_next [OF good_stack_facts(1) [OF f(1)]])
  have e: "node_next hnd = None \<longleftrightarrow> done_ops stk = {..<op_count es}"
    using hn(2) left_over_all [OF w good_stack_facts(2) [OF f(1)]]
    by (cases "left_over es (done_ops stk)") simp_all
  show ?case
  proof (cases "done_ops stk = {..<op_count es}")
    case True
    from search_finished [OF w Suc.prems(1) True] obtain ks where ks: "is_linearization model es ks"
      "call_ids (s_heap s) (calls s) = Inr (map int ks)" by blast
    have "node_next hnd = None" using e True by simp
    then have "search_loop (Suc fuel) model cp kill t s =
        Some (Inr (True, replicate (op_count es) (Some (map int ks))))"
      by (simp add: f(8,10) hn(1) ks(2))
    with right_resultI_True [OF ks(1)] show ?thesis by blast
  next
    case False
    with e obtain y where "node_next hnd = Some y" by auto
    with hn(1) f(8) have loop: "search_loop (Suc fuel) model cp kill t s =
      (case search_turn model cp (kill t) s of Inl e \<Rightarrow> Some (Inl e) | Inr (Inr r) \<Rightarrow> Some (Inr r)
       | Inr (Inl s') \<Rightarrow> search_loop fuel model cp kill (t + 1) s')" by simp
    show ?thesis
    proof (cases "kill t")
      case True
      then have "search_loop (Suc fuel) model cp kill t s = Some (Inr (False, longest s))"
        unfolding loop by (simp add: search_turn_def)
      with sound True show ?thesis by (auto simp: right_result_def)
    next
      case alive: False
      from search_progress [OF w len eq Suc.prems(1) False, of cp] show ?thesis
      proof
        assume "progresses model es cp s stk pre suf"
        then obtain s' stk' pre' suf' where st: "search_turn model cp False s = Inr (Inl s')"
          and i: "search_inv model es s' stk' pre' suf'"
          and m: "moves es (s_state s) (stk, pre, suf) (stk', pre', suf')"
          unfolding progresses_def by blast
        note r = moves_record [OF w len eq Suc.prems(1,2) st i m]
        have "weight es stk' suf' < fuel" using moves_weight [OF w Suc.prems(1) m] Suc.prems(3) by simp
        from Suc.IH [OF i r this, of "t + 1"] show ?thesis unfolding loop by (simp add: alive st)
      next
        assume g: "gives_up model es cp s stk suf"
        have "cp \<longrightarrow> complete_record model es (longest s)"
          using gives_up_complete [OF w Suc.prems(1) _ g] Suc.prems(2) by (simp add: record_inv_def)
        with sound g have "right_result model es cp kill False (longest s)"
          by (simp add: right_result_def gives_up_def)
        moreover have "search_loop (Suc fuel) model cp kill t s = Some (Inr (False, longest s))"
          unfolding loop using g by (simp add: alive gives_up_def)
        ultimately show ?thesis by blast
      qed
    qed
  qed
qed simp

lemma record_inv_init:
  assumes "longest s = replicate (op_count es) None" and "cache s = Map.empty"
  shows "record_inv model es cp s [] []"
  using assms
  by (simp add: record_inv_def sound_record_def explored_inv_def explored_calls_def explored_cache_def)

lemma checkSingle_right:
  assumes w: "wf_entries es" and len: "length es < 2 ^ 63" and eq: "Equal_sound model"
    and f: "check_fuel es \<le> fuel"
  shows "\<exists>r lg. checkSingle fuel model es cp kill = Some (Inr (r, lg)) \<and> right_result model es cp kill r lg"
proof -
  obtain s where s: "search_init model es = Some (Inr s)"
    and i: "search_inv model es s [] [] (addrs (length es))"
    and l: "longest s = replicate (op_count es) None" "cache s = Map.empty"
    using search_init_correct [OF w] by blast
  have "weight es [] (addrs (length es)) < fuel"
    using f by (simp add: weight_def level_weight_def check_fuel_def addrs_def)
  from search_loop_correct [OF w len eq i record_inv_init [OF l] this, of cp kill 0] s
  show ?thesis by (simp add: checkSingle_def)
qed

lemma checkSingle_decides:
  assumes "wf_entries es" and "length es < 2 ^ 63" and "Equal_sound model" and "check_fuel es \<le> fuel"
  shows "\<exists>r lg. checkSingle fuel model es cp (\<lambda>_. False) = Some (Inr (r, lg)) \<and>
    (r \<longleftrightarrow> linearizable model es) \<and>
    (r \<longrightarrow> (\<exists>ks. is_linearization model es ks \<and> lg = replicate (op_count es) (Some (map int ks))))"
  using checkSingle_right [OF assms, of cp "\<lambda>_. False"]
  by (fastforce simp: right_result_def linearizable_def)

end
