(* ===== verification/Porc_History.thy ===== *)
theory Porc_History
  imports Porc_Partial
begin

text \<open>
  Linearizability of a history of operations, stated on the operations themselves, and its link to the
  sorted entries the search works on. For the key-value model the history is linearizable as a history
  of one map exactly when every key's part is.
\<close>

section \<open>Linearizable histories\<close>

fun legal_ops ::
  "('st \<Rightarrow> 'i \<Rightarrow> 'o \<Rightarrow> bool \<times> 'st) \<Rightarrow> 'st \<Rightarrow> ('i, 'o) Operation list \<Rightarrow> bool" where
  "legal_ops step st [] = True"
| "legal_ops step st (x # xs) =
     (case step st (Operation_Input x) (Operation_Output x) of (ok, st') \<Rightarrow> ok \<and> legal_ops step st' xs)"

text \<open>An order of the operations in which no operation comes after one that was called later than it
  returned.\<close>

definition respects_time :: "('i, 'o) Operation list \<Rightarrow> bool" where
  "respects_time xs \<longleftrightarrow> sorted_wrt (\<lambda>x y. \<not> Operation_Return y < Operation_Call x) xs"

definition linearization_of ::
  "('st \<Rightarrow> 'i \<Rightarrow> 'o \<Rightarrow> bool \<times> 'st) \<Rightarrow> 'st \<Rightarrow> ('i, 'o) Operation list \<Rightarrow> ('i, 'o) Operation list \<Rightarrow> bool" where
  "linearization_of step st history xs \<longleftrightarrow>
     mset xs = mset history \<and> respects_time xs \<and> legal_ops step st xs"

definition linearizable_history ::
  "('st \<Rightarrow> 'i \<Rightarrow> 'o \<Rightarrow> bool \<times> 'st) \<Rightarrow> 'st \<Rightarrow> ('i, 'o) Operation list \<Rightarrow> bool" where
  "linearizable_history step st history \<longleftrightarrow> (\<exists>xs. linearization_of step st history xs)"

text \<open>Operations take time, and no call falls on the moment of a return.\<close>

definition proper_times :: "('i, 'o) Operation list \<Rightarrow> bool" where
  "proper_times history \<longleftrightarrow>
     list_all (\<lambda>x. Operation_Call x < Operation_Return x \<and>
       list_all (\<lambda>y. Operation_Return x \<noteq> Operation_Call y) history) history"

lemma proper_times_iff:
  "proper_times history \<longleftrightarrow> (\<forall>x \<in> set history. Operation_Call x < Operation_Return x \<and>
     (\<forall>y \<in> set history. Operation_Return x \<noteq> Operation_Call y))"
  by (simp add: proper_times_def list_all_iff)

lemma proper_timesD:
  assumes "proper_times history" and "i < length history" and "j < length history"
  shows "Operation_Call (history ! i) < Operation_Return (history ! i)"
    "Operation_Return (history ! i) \<noteq> Operation_Call (history ! j)"
  using assms nth_mem by (auto simp: proper_times_iff)

section \<open>Permutations by index\<close>

lemma mset_nth_perm:
  "mset xs = mset ys \<Longrightarrow> \<exists>ks. distinct ks \<and> set ks = {..<length ys} \<and> xs = map ((!) ys) ks"
proof (induction ys arbitrary: xs)
  case (Cons y ys)
  then have "y \<in> set xs" using mset_eq_setD by fastforce
  then obtain a b where x: "xs = a @ y # b" by (auto simp: in_set_conv_decomp)
  with Cons.prems have "mset (a @ b) = mset ys" by simp
  from Cons.IH [OF this] obtain ks where ks: "distinct ks" "set ks = {..<length ys}"
    "a @ b = map ((!) ys) ks" by blast
  let ?t = "map Suc (take (length a) ks)" and ?d = "map Suc (drop (length a) ks)"
  have "take (length a) (a @ b) = map ((!) ys) (take (length a) ks)"
    and "drop (length a) (a @ b) = map ((!) ys) (drop (length a) ks)"
    by (simp_all add: ks(3) take_map drop_map)
  then have "xs = map ((!) (y # ys)) (?t @ 0 # ?d)" by (simp add: x comp_def)
  moreover have "distinct (?t @ 0 # ?d)"
    using ks(1) set_take_disj_set_drop_if_distinct [OF ks(1), of "length a" "length a"]
    by (auto simp: distinct_map inj_on_def)
  moreover have "set (?t @ 0 # ?d) = insert 0 (Suc ` set ks)"
    by (simp, metis (no_types) append_take_drop_id image_Un set_append Un_insert_right)
  then have "set (?t @ 0 # ?d) = {..<length (y # ys)}"
    by (simp only: ks(2) lessThan_Suc_eq_insert_0 length_Cons)
  ultimately show ?case by blast
qed simp

lemma perm_mset_nth:
  assumes "distinct ks" and "set ks = {..<length ys}"
  shows "mset (map ((!) ys) ks) = mset ys"
proof -
  have "mset ks = mset [0..<length ys]"
    by (rule set_eq_iff_mset_eq_distinct [THEN iffD1]) (use assms in \<open>auto simp: lessThan_atLeast0\<close>)
  then have "mset (map ((!) ys) ks) = mset (map ((!) ys) [0..<length ys])" by (simp only: mset_map)
  then show ?thesis by (simp add: map_nth)
qed

section \<open>The entries of a history\<close>

definition call_entry :: "('i, 'o) Operation \<Rightarrow> int \<Rightarrow> ('i, 'o) entry" where
  "call_entry x i = \<lparr>entry_kind = callEntry, entry_value = Inl (Operation_Input x), entry_id = i,
     entry_time = Operation_Call x, entry_clientId = Operation_ClientId x\<rparr>"

definition return_entry :: "('i, 'o) Operation \<Rightarrow> int \<Rightarrow> ('i, 'o) entry" where
  "return_entry x i = \<lparr>entry_kind = returnEntry, entry_value = Inr (Operation_Output x), entry_id = i,
     entry_time = Operation_Return x, entry_clientId = Operation_ClientId x\<rparr>"

lemma operation_entries_Cons:
  "operation_entries i (x # xs) = call_entry x i # return_entry x i # operation_entries (i + 1) xs"
  by (simp add: call_entry_def return_entry_def)

lemma in_operation_entries:
  "e \<in> set (operation_entries i xs) \<longleftrightarrow>
     (\<exists>k < length xs. e = call_entry (xs ! k) (i + int k) \<or> e = return_entry (xs ! k) (i + int k))"
proof (induction xs arbitrary: i)
  case (Cons x xs)
  have "(\<exists>k < length (x # xs). P k) \<longleftrightarrow> P 0 \<or> (\<exists>k < length xs. P (Suc k))" for P
    by (auto simp: less_Suc_eq_0_disj)
  with Cons show ?case
    by (simp add: operation_entries_Cons add.assoc del: operation_entries.simps)
qed simp

lemma length_operation_entries [simp]: "length (operation_entries i xs) = 2 * length xs"
  by (induction xs arbitrary: i) simp_all

lemma distinct_operation_entries:
  "distinct (map (\<lambda>e. (entry_kind e, entry_id e)) (operation_entries i xs))"
proof (induction xs arbitrary: i)
  case (Cons x xs)
  have "i < entry_id e" if "e \<in> set (operation_entries (i + 1) xs)" for e
    using that by (auto simp: in_operation_entries call_entry_def return_entry_def)
  with Cons show ?case by fastforce
qed simp

lemma pos_exists:
  assumes "\<exists>e \<in> set es. P e"
  shows "length (takeWhile (\<lambda>e. \<not> P e) es) < length es"
  using assms by (induction es) auto

lemma makeEntries_nth:
  assumes s: "sorts_by_time srt" and k: "k < length history"
  defines "es \<equiv> makeEntries srt history"
  shows "call_pos es k < length es" "es ! call_pos es k = call_entry (history ! k) (int k)"
    "return_pos es k < length es" "es ! return_pos es k = return_entry (history ! k) (int k)"
proof -
  have m: "mset es = mset (operation_entries 0 history)"
    using s by (simp add: es_def makeEntries_def sorts_by_time_def)
  then have set: "set es = set (operation_entries 0 history)" by (rule mset_eq_setD)
  have "call_entry (history ! k) (int k) \<in> set es" "return_entry (history ! k) (int k) \<in> set es"
    using k by (auto simp: set in_operation_entries)
  then have "\<exists>e \<in> set es. call_of e k" "\<exists>e \<in> set es. return_of e k"
    by (force simp: call_of_def return_of_def call_entry_def return_entry_def)+
  then show c: "call_pos es k < length es" and r: "return_pos es k < length es"
    by (simp_all only: call_pos_def return_pos_def pos_exists)
  have cm: "es ! call_pos es k \<in> set (operation_entries 0 history)"
    and rm: "es ! return_pos es k \<in> set (operation_entries 0 history)"
    using c r set nth_mem by blast+
  have "call_of (es ! call_pos es k) k" "return_of (es ! return_pos es k) k"
    using c r takeWhile_pos [of "\<lambda>e. call_of e k" es] takeWhile_pos [of "\<lambda>e. return_of e k" es]
    by (simp_all add: call_pos_def return_pos_def)
  with cm rm show "es ! call_pos es k = call_entry (history ! k) (int k)"
    "es ! return_pos es k = return_entry (history ! k) (int k)"
    by (auto simp: in_operation_entries call_of_def return_of_def call_entry_def return_entry_def)
qed

lemma makeEntries_length:
  "sorts_by_time srt \<Longrightarrow> length (makeEntries srt history) = 2 * length history"
  by (metis length_operation_entries makeEntries_def size_mset sorts_by_time_def)

lemma makeEntries_time:
  assumes "sorts_by_time srt" and "p \<le> q" and "q < length (makeEntries srt history)"
  shows "entry_time (makeEntries srt history ! p) \<le> entry_time (makeEntries srt history ! q)"
  using assms sorted_nth_mono [of "map entry_time (makeEntries srt history)" p q]
  by (simp add: sorts_by_time_def makeEntries_def)

text \<open>Position in the entries is order in time.\<close>

lemma makeEntries_wf:
  assumes s: "sorts_by_time srt" and t: "proper_times history"
  shows "wf_entries (makeEntries srt history)"
proof -
  let ?es = "makeEntries srt history"
  have m: "mset ?es = mset (operation_entries 0 history)"
    using s by (simp add: makeEntries_def sorts_by_time_def)
  then have "mset (map (\<lambda>e. (entry_kind e, entry_id e)) ?es) =
      mset (map (\<lambda>e. (entry_kind e, entry_id e)) (operation_entries 0 history))" by simp
  then have "distinct (map (\<lambda>e. (entry_kind e, entry_id e)) ?es)"
    using distinct_operation_entries mset_eq_imp_distinct_iff by blast
  moreover have "call_pos ?es k < return_pos ?es k" if k: "k < length history" for k
  proof (rule ccontr)
    assume "\<not> call_pos ?es k < return_pos ?es k"
    with makeEntries_time [OF s, of "return_pos ?es k" "call_pos ?es k" history] makeEntries_nth [OF s k]
    have "Operation_Return (history ! k) \<le> Operation_Call (history ! k)"
      by (simp add: call_entry_def return_entry_def)
    with proper_timesD(1) [OF t k k] show False by simp
  qed
  moreover have "op_count ?es = length history" by (simp add: op_count_def makeEntries_length [OF s])
  ultimately show ?thesis
    using makeEntries_nth [OF s] makeEntries_length [OF s]
    by (simp add: wf_entries_def call_entry_def return_entry_def)
qed

lemma makeEntries_precedes:
  assumes s: "sorts_by_time srt" and t: "proper_times history"
    and i: "i < length history" and j: "j < length history"
  shows "precedes (makeEntries srt history) j i \<longleftrightarrow>
    Operation_Return (history ! j) < Operation_Call (history ! i)"
proof -
  let ?es = "makeEntries srt history"
  note ni = makeEntries_nth [OF s i] and nj = makeEntries_nth [OF s j]
  have ne: "Operation_Return (history ! j) \<noteq> Operation_Call (history ! i)"
    by (rule proper_timesD(2) [OF t j i])
  show ?thesis
  proof (cases "return_pos ?es j < call_pos ?es i")
    case True
    with makeEntries_time [OF s, of "return_pos ?es j" "call_pos ?es i" history] ni nj
    have "Operation_Return (history ! j) \<le> Operation_Call (history ! i)"
      by (simp add: call_entry_def return_entry_def)
    with ne True show ?thesis by (simp add: precedes_def)
  next
    case False
    with makeEntries_time [OF s, of "call_pos ?es i" "return_pos ?es j" history] ni nj
    have "Operation_Call (history ! i) \<le> Operation_Return (history ! j)"
      by (simp add: call_entry_def return_entry_def)
    with False show ?thesis by (simp add: precedes_def)
  qed
qed

lemma makeEntries_legal:
  assumes s: "sorts_by_time srt" and "set ks \<subseteq> {..<length history}"
  shows "legal model (makeEntries srt history) st ks \<longleftrightarrow> legal_ops (Step model) st (map ((!) history) ks)"
  using assms(2)
proof (induction ks arbitrary: st)
  case (Cons k ks)
  then have "k < length history" by simp
  from makeEntries_nth [OF s this] have "step_op model (makeEntries srt history) st k =
      Step model st (Operation_Input (history ! k)) (Operation_Output (history ! k))"
    by (simp add: step_op_def op_input_def op_output_def call_entry_def return_entry_def)
  with Cons show ?case by (simp split: prod.split)
qed simp

lemma sorted_wrt_map_cong:
  assumes "\<And>i j. i \<in> set ks \<Longrightarrow> j \<in> set ks \<Longrightarrow> P i j \<longleftrightarrow> Q (f i) (f j)"
  shows "sorted_wrt P ks \<longleftrightarrow> sorted_wrt Q (map f ks)"
  using assms by (induction ks) auto

lemma makeEntries_linearizable:
  assumes s: "sorts_by_time srt" and t: "proper_times history"
  shows "linearizable model (makeEntries srt history) \<longleftrightarrow>
    linearizable_history (Step model) (Init model) history"
proof -
  let ?es = "makeEntries srt history"
  have n: "op_count ?es = length history" by (simp add: op_count_def makeEntries_length [OF s])
  have eq: "sorted_wrt (\<lambda>i j. \<not> precedes ?es j i) ks \<and> legal model ?es (Init model) ks \<longleftrightarrow>
      respects_time (map ((!) history) ks) \<and> legal_ops (Step model) (Init model) (map ((!) history) ks)"
    if "set ks = {..<length history}" for ks
  proof -
    have "sorted_wrt (\<lambda>i j. \<not> precedes ?es j i) ks \<longleftrightarrow> respects_time (map ((!) history) ks)"
      unfolding respects_time_def
      by (rule sorted_wrt_map_cong) (use that makeEntries_precedes [OF s t] in auto)
    with makeEntries_legal [OF s, of ks history model "Init model"] that show ?thesis by simp
  qed
  show ?thesis
  proof
    assume "linearizable model ?es"
    then obtain ks where "distinct ks" "set ks = {..<length history}"
      "sorted_wrt (\<lambda>i j. \<not> precedes ?es j i) ks \<and> legal model ?es (Init model) ks"
      by (auto simp: linearizable_def is_linearization_def n)
    with eq perm_mset_nth [of ks history] show "linearizable_history (Step model) (Init model) history"
      unfolding linearizable_history_def linearization_of_def by blast
  next
    assume "linearizable_history (Step model) (Init model) history"
    then obtain xs where "mset xs = mset history"
      and x: "respects_time xs \<and> legal_ops (Step model) (Init model) xs"
      by (auto simp: linearizable_history_def linearization_of_def)
    from mset_nth_perm [OF this(1)] obtain ks where "distinct ks" "set ks = {..<length history}"
      "xs = map ((!) history) ks" by blast
    with eq x show "linearizable model ?es"
      unfolding linearizable_def is_linearization_def n by blast
  qed
qed

end
