(* ===== verification/Porc_Locality.thy ===== *)
theory Porc_Locality
  imports Porc_History
begin

text \<open>
  Why the checker may search every key on its own: a history of a store of independent objects is
  linearizable exactly when each object's part of it is. The store is any family of objects with one
  step function, addressed by a key of the input.
\<close>

section \<open>A store of objects\<close>

text \<open>The step of the whole store acts on the object that the operation addresses.\<close>

definition store_step ::
  "('i \<Rightarrow> 'k) \<Rightarrow> ('st \<Rightarrow> 'i \<Rightarrow> 'o \<Rightarrow> bool \<times> 'st) \<Rightarrow> ('k \<Rightarrow> 'st) \<Rightarrow> 'i \<Rightarrow> 'o \<Rightarrow> bool \<times> ('k \<Rightarrow> 'st)" where
  "store_step key step st inp out =
     (case step (st (key inp)) inp out of (ok, s') \<Rightarrow> (ok, st(key inp := s')))"

definition part_of :: "('i \<Rightarrow> 'k) \<Rightarrow> 'k \<Rightarrow> ('i, 'o) Operation list \<Rightarrow> ('i, 'o) Operation list" where
  "part_of key k xs = filter (\<lambda>x. key (Operation_Input x) = k) xs"

lemma legal_store_part:
  "legal_ops (store_step key step) st xs \<longleftrightarrow> (\<forall>k. legal_ops step (st k) (part_of key k xs))"
proof (induction xs arbitrary: st)
  case (Cons x xs)
  let ?k = "key (Operation_Input x)"
  obtain ok s' where s: "step (st ?k) (Operation_Input x) (Operation_Output x) = (ok, s')"
    by (cases "step (st ?k) (Operation_Input x) (Operation_Output x)")
  have "(\<forall>k. legal_ops step ((st(?k := s')) k) (part_of key k xs)) \<and> ok \<longleftrightarrow>
      (\<forall>k. legal_ops step (st k) (part_of key k (x # xs)))" (is "?l \<longleftrightarrow> ?r")
  proof
    assume l: ?l
    show ?r
    proof
      fix k
      from l have "legal_ops step ((st(?k := s')) k) (part_of key k xs)" by blast
      with l s show "legal_ops step (st k) (part_of key k (x # xs))"
        by (cases "k = ?k") (simp_all add: part_of_def)
    qed
  next
    assume r: ?r
    show ?l
    proof (intro conjI allI)
      fix k
      from r have "legal_ops step (st k) (part_of key k (x # xs))" by blast
      with s show "legal_ops step ((st(?k := s')) k) (part_of key k xs)"
        by (cases "k = ?k") (simp_all add: part_of_def)
    next
      from r have "legal_ops step (st ?k) (part_of key ?k (x # xs))" by blast
      with s show ok by (simp add: part_of_def)
    qed
  qed
  moreover have "store_step key step st (Operation_Input x) (Operation_Output x) = (ok, st(?k := s'))"
    using s by (simp add: store_step_def)
  then have "legal_ops (store_step key step) st (x # xs) \<longleftrightarrow>
      ok \<and> legal_ops (store_step key step) (st(?k := s')) xs" by simp
  ultimately show ?case unfolding Cons.IH by blast
qed (simp add: part_of_def)

lemma respects_time_part: "respects_time xs \<Longrightarrow> respects_time (part_of key k xs)"
  by (simp add: respects_time_def part_of_def sorted_wrt_filter)

section \<open>Merging the parts\<close>

text \<open>
  Of the operations left, take one that returns first: the next operation of its object's order was
  not called after any of the others returned, so it may come first.
\<close>

lemma earliest_return:
  assumes "M \<noteq> {#}"
  obtains m where "m \<in># M" and "\<forall>y \<in># M. Operation_Return m \<le> Operation_Return y"
proof -
  have "finite (Operation_Return ` set_mset M)" and "Operation_Return ` set_mset M \<noteq> {}"
    using assms by auto
  then have "Min (Operation_Return ` set_mset M) \<in> Operation_Return ` set_mset M" by (rule Min_in)
  then obtain m where m: "m \<in># M" "Operation_Return m = Min (Operation_Return ` set_mset M)" by auto
  then have "\<forall>y \<in># M. Operation_Return m \<le> Operation_Return y" by simp
  with m(1) that show ?thesis by blast
qed

text \<open>One step of the merge: the first operation of a part that no other operation precedes.\<close>

definition parts_of_history ::
  "('i \<Rightarrow> 'k) \<Rightarrow> ('i, 'o) Operation multiset \<Rightarrow> ('k \<Rightarrow> ('i, 'o) Operation list) \<Rightarrow> bool" where
  "parts_of_history key M L \<longleftrightarrow> (\<forall>x \<in># M. Operation_Call x < Operation_Return x) \<and>
     (\<forall>k. mset (L k) = filter_mset (\<lambda>x. key (Operation_Input x) = k) M) \<and> (\<forall>k. respects_time (L k))"

lemma first_of_parts:
  assumes parts: "parts_of_history key M L" and "M \<noteq> {#}"
  obtains x rest where "x \<in># M" and "L (key (Operation_Input x)) = x # rest"
    and "\<forall>y \<in># M. \<not> Operation_Return y < Operation_Call x"
proof -
  obtain m where m: "m \<in># M" "\<forall>y \<in># M. Operation_Return m \<le> Operation_Return y"
    using assms(2) by (rule earliest_return)
  let ?k = "key (Operation_Input m)"
  have L: "mset (L ?k) = filter_mset (\<lambda>x. key (Operation_Input x) = ?k) M" "respects_time (L ?k)"
    using parts by (simp_all add: parts_of_history_def)
  have mL: "m \<in># mset (L ?k)" using m(1) L(1) by simp
  then obtain x rest where x: "L ?k = x # rest" by (cases "L ?k") auto
  then have "x \<in># filter_mset (\<lambda>x. key (Operation_Input x) = ?k) M" using L(1) [symmetric] by simp
  then have kx: "key (Operation_Input x) = ?k" and xM: "x \<in># M" by simp_all
  have "\<not> Operation_Return m < Operation_Call x"
  proof (cases "m = x")
    case True
    with parts xM show ?thesis by (force simp: parts_of_history_def)
  next
    case False
    with mL x have "m \<in> set rest" by simp
    with L(2) x show ?thesis by (simp add: respects_time_def)
  qed
  with m(2) have "\<forall>y \<in># M. \<not> Operation_Return y < Operation_Call x" by fastforce
  with that xM kx x show ?thesis by simp
qed

lemma parts_rest:
  assumes parts: "parts_of_history key M L" and x: "x \<in># M" "L (key (Operation_Input x)) = x # rest"
  shows "parts_of_history key (M - {#x#}) (L(key (Operation_Input x) := rest))"
proof -
  have "mset rest = mset (x # rest) - {#x#}" by simp
  then have "mset rest = filter_mset (\<lambda>y. key (Operation_Input y) = key (Operation_Input x)) (M - {#x#})"
    using parts unfolding x(2) [symmetric] by (simp add: parts_of_history_def)
  moreover have "respects_time (x # rest)" using parts unfolding x(2) [symmetric] parts_of_history_def by blast
  ultimately show ?thesis
    using parts by (auto simp: parts_of_history_def respects_time_def filter_diff_mset dest: in_diffD)
qed

lemma merge_step:
  assumes "parts_of_history key M L" and "M \<noteq> {#}"
  obtains x rest where "x \<in># M" and "L (key (Operation_Input x)) = x # rest"
    and "\<forall>y \<in># M. \<not> Operation_Return y < Operation_Call x"
    and "parts_of_history key (M - {#x#}) (L(key (Operation_Input x) := rest))"
  using first_of_parts [OF assms] parts_rest [OF assms(1)] by metis

lemma merge_parts:
  assumes "parts_of_history key M L"
  shows "\<exists>xs. mset xs = M \<and> respects_time xs \<and> (\<forall>k. part_of key k xs = L k)"
  using assms
proof (induction "size M" arbitrary: M L)
  case 0
  then have "mset (L k) = {#}" for k by (simp add: parts_of_history_def)
  then have "L k = []" for k by simp
  with 0 show ?case by (intro exI [of _ "[]"]) (simp add: respects_time_def part_of_def)
next
  case (Suc n)
  from Suc.hyps(2) have ne: "M \<noteq> {#}" by auto
  obtain x rest where x: "x \<in># M" and L: "L (key (Operation_Input x)) = x # rest"
    and first: "\<forall>y \<in># M. \<not> Operation_Return y < Operation_Call x"
    and rest: "parts_of_history key (M - {#x#}) (L(key (Operation_Input x) := rest))"
    by (rule merge_step [OF Suc.prems ne])
  have "n = size (M - {#x#})" using Suc.hyps(2) x by (simp add: size_Diff_singleton)
  from Suc.hyps(1) [OF this rest] obtain xs where xs: "mset xs = M - {#x#}" "respects_time xs"
    "\<forall>k. part_of key k xs = (L(key (Operation_Input x) := rest)) k" by blast
  have "\<not> Operation_Return y < Operation_Call x" if "y \<in> set xs" for y
    using first that xs(1) by (metis in_diffD set_mset_mset)
  with xs(2) have "respects_time (x # xs)" by (simp add: respects_time_def)
  moreover have "mset (x # xs) = M" using xs(1) x by simp
  moreover have "part_of key k (x # xs) = L k" for k
    using xs(3) L by (cases "k = key (Operation_Input x)") (simp_all add: part_of_def)
  ultimately show ?case by blast
qed

lemma linearizable_by_parts:
  assumes "\<forall>x \<in> set history. Operation_Call x < Operation_Return x"
  shows "linearizable_history (store_step key step) st history \<longleftrightarrow>
    (\<forall>k. linearizable_history step (st k) (part_of key k history))"
proof
  assume "linearizable_history (store_step key step) st history"
  then obtain xs where x: "mset xs = mset history" "respects_time xs" "legal_ops (store_step key step) st xs"
    by (auto simp: linearizable_history_def linearization_of_def)
  show "\<forall>k. linearizable_history step (st k) (part_of key k history)"
  proof
    fix k
    have "mset (part_of key k xs) = mset (part_of key k history)" using x(1) by (simp add: part_of_def)
    with x(2,3) respects_time_part [of xs key k] legal_store_part [of key step st xs]
    show "linearizable_history step (st k) (part_of key k history)"
      unfolding linearizable_history_def linearization_of_def by blast
  qed
next
  assume "\<forall>k. linearizable_history step (st k) (part_of key k history)"
  then obtain L where L: "\<And>k. mset (L k) = mset (part_of key k history)" "\<And>k. respects_time (L k)"
    "\<And>k. legal_ops step (st k) (L k)"
    unfolding linearizable_history_def linearization_of_def by metis
  have "\<exists>xs. mset xs = mset history \<and> respects_time xs \<and> (\<forall>k. part_of key k xs = L k)"
    by (rule merge_parts) (use assms L in \<open>auto simp: part_of_def parts_of_history_def\<close>)
  with L(3) legal_store_part [of key step st] show "linearizable_history (store_step key step) st history"
    unfolding linearizable_history_def linearization_of_def by metis
qed

end
