(* ===== verification/Porc_Properties.thy ===== *)
theory Porc_Properties
  imports Porc_Locality "HOL-Library.Sublist"
begin

text \<open>
  The properties of the checker: the search decides linearizability, \<open>CheckOperations\<close> decides it for
  histories of the key-value store in whatever order the partitions finish, and what the data
  structures below it promise.
\<close>

section \<open>Collecting the results\<close>

lemma collect_all:
  assumes "\<forall>i \<in> set order. i < length rs \<and> (\<exists>lg. rs ! i = Some (Inr (ok i, lg)))"
    and "cnt + length order = length rs" and "order \<noteq> []"
  shows "collect rs False True cnt (map Result order) = Some (Inr (\<forall>i \<in> set order. ok i, False))"
  using assms
proof (induction order arbitrary: cnt)
  case (Cons i order)
  then obtain lg where i: "rs ! i = Some (Inr (ok i, lg))" by auto
  show ?case
  proof (cases "order = []")
    case True
    with Cons.prems i show ?thesis by (auto simp: Let_def)
  next
    case False
    with Cons.prems have "collect rs False True (cnt + 1) (map Result order) =
        Some (Inr (\<forall>i \<in> set order. ok i, False))" by (intro Cons.IH) auto
    moreover have "\<not> length rs \<le> cnt + 1" using False Cons.prems(2) by (cases order) simp_all
    ultimately show ?thesis using i by (auto simp: Let_def)
  qed
qed simp

lemma collect_sound:
  assumes "\<forall>i. Result i \<in> set arrivals \<longrightarrow> i < length rs \<and> (\<exists>lg. rs ! i = Some (Inr (ok i, lg)))"
    and "collect rs ci good cnt arrivals = Some (Inr (r, timedOut))"
  shows "(\<not> r \<longrightarrow> good \<longrightarrow> (\<exists>i < length rs. \<not> ok i)) \<and>
    (r \<longrightarrow> good \<and> (timedOut \<or>
      (\<exists>order. cnt + length order \<ge> length rs \<and> prefix (map Result order) arrivals \<and>
        (\<forall>i \<in> set order. ok i))))"
  using assms
proof (induction rs ci good cnt arrivals rule: collect.induct)
  case (3 results ci good cnt i es)
  from "3.prems"(1) obtain lg where i: "i < length results" "results ! i = Some (Inr (ok i, lg))" by auto
  have es: "\<forall>i. Result i \<in> set es \<longrightarrow> i < length results \<and> (\<exists>lg. results ! i = Some (Inr (ok i, lg)))"
    using "3.prems"(1) by simp
  show ?case
  proof (cases "(\<not> (good \<and> ok i) \<and> \<not> ci) \<or> length results \<le> cnt + 1")
    case True
    with i "3.prems"(2) have "r = (good \<and> ok i)" and t: "\<not> timedOut" by (auto simp: Let_def split: if_splits)
    moreover have "r \<Longrightarrow> cnt + length [i] \<ge> length results \<and>
        prefix (map Result [i]) (Result i # es) \<and> (\<forall>i \<in> set [i]. ok i)"
      using True \<open>r = (good \<and> ok i)\<close> by simp
    ultimately show ?thesis using i(1) by blast
  next
    case False
    with i "3.prems"(2) have "collect results ci (good \<and> ok i) (cnt + 1) es = Some (Inr (r, timedOut))"
      by (auto simp: Let_def)
    with "3.IH" [OF i(2) refl refl refl refl _ _ es] False
    have IH: "(\<not> r \<longrightarrow> (good \<and> ok i) \<longrightarrow> (\<exists>i < length results. \<not> ok i)) \<and>
      (r \<longrightarrow> (good \<and> ok i) \<and> (timedOut \<or>
        (\<exists>order. cnt + 1 + length order \<ge> length results \<and> prefix (map Result order) es \<and>
          (\<forall>i \<in> set order. ok i))))" by blast
    show ?thesis
    proof (intro conjI impI)
      assume "\<not> r" and good
      with IH i(1) show "\<exists>i < length results. \<not> ok i" by blast
    next
      assume r
      with IH show good by blast
      show "timedOut \<or> (\<exists>order. cnt + length order \<ge> length results \<and>
          prefix (map Result order) (Result i # es) \<and> (\<forall>i \<in> set order. ok i))"
      proof (cases timedOut)
        case False
        with IH \<open>r\<close> obtain order where "cnt + 1 + length order \<ge> length results"
          "prefix (map Result order) es" "\<forall>i \<in> set order. ok i" "ok i" by blast
        then have "cnt + length (i # order) \<ge> length results \<and>
            prefix (map Result (i # order)) (Result i # es) \<and> (\<forall>i \<in> set (i # order). ok i)" by simp
        then show ?thesis by blast
      qed simp
    qed
  qed
qed auto

section \<open>Verdicts from the best to the worst\<close>

fun severity :: "CheckResult \<Rightarrow> nat" where
  "severity Ok = 0"
| "severity Unknown = 1"
| "severity Illegal = 2"

lemma severity_eq_iff [simp]: "severity a = severity b \<longleftrightarrow> a = b"
  by (cases a; cases b) simp_all

instantiation CheckResult :: linorder
begin

definition less_eq_CheckResult :: "CheckResult \<Rightarrow> CheckResult \<Rightarrow> bool" where
  "a \<le> b \<longleftrightarrow> severity a \<le> severity b"

definition less_CheckResult :: "CheckResult \<Rightarrow> CheckResult \<Rightarrow> bool" where
  "a < b \<longleftrightarrow> severity a < severity b"

instance
  by standard (auto simp: less_eq_CheckResult_def less_CheckResult_def)

end

lemmas verdict_order = less_eq_CheckResult_def less_CheckResult_def max_def verdict_def

text \<open>What one arrival says of the history.\<close>

fun told :: "(nat \<Rightarrow> bool) \<Rightarrow> arrival \<Rightarrow> CheckResult" where
  "told good Timeout = Unknown"
| "told good (Result i) = (if good i then Ok else Illegal)"

lemma told_Unknown [simp]: "told good a = Unknown \<longleftrightarrow> a = Timeout"
  by (cases a) simp_all

text \<open>The verdict is the worst of what the select loop was told before it was left.\<close>

lemma collect_worst:
  assumes "\<forall>i. Result i \<in> set arrivals \<longrightarrow> (\<exists>lg. rs ! i = Some (Inr (good i, lg)))"
    and "collect rs ci g cnt arrivals = Some (Inr r)"
  shows "\<exists>seen. prefix seen arrivals \<and> verdict r = Max (insert (verdict (g, False)) (told good ` set seen))"
  using assms
proof (induction rs ci g cnt arrivals rule: collect.induct)
  case (2 results ci g cnt es)
  then have "verdict r = Max (insert (verdict (g, False)) (told good ` set [Timeout]))"
    by (auto simp: verdict_order)
  then show ?case by (intro exI [of _ "[Timeout]"]) simp
next
  case (3 results ci g cnt i es)
  then obtain lg where i: "results ! i = Some (Inr (good i, lg))" by auto
  have one: "verdict (g \<and> good i, False) = max (told good (Result i)) (verdict (g, False))"
    by (simp add: verdict_order)
  show ?case
  proof (cases "(\<not> (g \<and> good i) \<and> \<not> ci) \<or> length results \<le> cnt + 1")
    case True
    with i "3.prems"(2) have "r = (g \<and> good i, False)" by (auto simp: Let_def split: if_splits)
    with one have "verdict r = Max (insert (verdict (g, False)) (told good ` set [Result i]))"
      by (simp add: max.commute)
    then show ?thesis by (intro exI [of _ "[Result i]"]) simp
  next
    case False
    with i "3.prems"(2) have "collect results ci (g \<and> good i) (cnt + 1) es = Some (Inr r)"
      by (auto simp: Let_def)
    with "3.IH" [OF i refl refl refl refl] False "3.prems"(1) obtain seen where
      "prefix seen es" and "verdict r = Max (insert (verdict (g \<and> good i, False)) (told good ` set seen))"
      by auto
    with one have "verdict r = Max (insert (verdict (g, False)) (told good ` set (Result i # seen)))"
      by (cases "seen = []") (simp_all add: max.assoc max.commute max.left_commute)
    with \<open>prefix seen es\<close> show ?thesis by (intro exI [of _ "Result i # seen"]) simp
  qed
qed simp

lemma collect_timeout:
  assumes "\<forall>i. Result i \<in> set arrivals \<longrightarrow> (\<exists>lg. rs ! i = Some (Inr (good i, lg)))"
    and "collect rs ci g cnt arrivals = Some (Inr r)" and "verdict r = Unknown"
  shows "Timeout \<in> set arrivals"
proof -
  obtain seen where s: "prefix seen arrivals"
    and v: "verdict r = Max (insert (verdict (g, False)) (told good ` set seen))"
    using collect_worst [OF assms(1,2)] by blast
  have "Max (insert (verdict (g, False)) (told good ` set seen)) \<in>
      insert (verdict (g, False)) (told good ` set seen)"
    by (rule Max_in) simp_all
  with v assms(3) have "Unknown \<in> insert (verdict (g, False)) (told good ` set seen)" by simp
  then have "Timeout \<in> set seen"
    by (auto simp: verdict_def eq_commute [of Unknown] split: if_splits)
  with set_mono_prefix [OF s] show ?thesis by blast
qed

section \<open>The searches of all partitions\<close>

text \<open>Fuel that is enough for every partition of a history.\<close>

definition history_fuel :: "nat \<Rightarrow> nat" where
  "history_fuel n = 2 * n * (2 * n + 1) ^ n + 1"

lemma history_fuel_mono: "m \<le> n \<Longrightarrow> history_fuel m \<le> history_fuel n"
proof -
  assume "m \<le> n"
  then have "(2 * m + 1) ^ m \<le> (2 * n + 1) ^ m" by (intro power_mono) simp_all
  also have "\<dots> \<le> (2 * n + 1) ^ n" using \<open>m \<le> n\<close> by (intro power_increasing) simp_all
  finally have "(2 * m + 1) ^ m \<le> (2 * n + 1) ^ n" .
  with \<open>m \<le> n\<close> show ?thesis unfolding history_fuel_def by (intro add_mono mult_mono) simp_all
qed

definition small_part :: "nat \<Rightarrow> ('i, 'o) Operation list \<Rightarrow> bool" where
  "small_part n p \<longleftrightarrow> length p \<le> n \<and> proper_times p"

lemma search_part:
  assumes s: "sorts_by_time srt" and p: "small_part n p" and n: "int n < 2 ^ 62"
    and eq: "Equal_sound model" and f: "history_fuel n \<le> fuel"
  shows "\<exists>lg. checkSingle fuel model (makeEntries srt p) ci (\<lambda>_. False) =
    Some (Inr (linearizable_history (Step model) (Init model) p, lg))"
proof -
  have t: "proper_times p" and l: "length p \<le> n" using p by (simp_all add: small_part_def)
  have len: "length (makeEntries srt p) = 2 * length p" by (rule makeEntries_length [OF s])
  have "length (makeEntries srt p) < 2 ^ 63" using l n len by simp
  moreover have "check_fuel (makeEntries srt p) = history_fuel (length p)"
    by (simp add: check_fuel_def history_fuel_def len op_count_def)
  then have "check_fuel (makeEntries srt p) \<le> fuel" using history_fuel_mono [OF l] f by simp
  ultimately show ?thesis
    using checkSingle_decides [OF makeEntries_wf [OF s t] _ eq, of fuel ci]
      makeEntries_linearizable [OF s t, of model] by auto
qed

lemma Equal_sound_fillDefault: "Equal_sound (fillDefault model) \<longleftrightarrow> Equal_sound model"
  by (simp add: Equal_sound_def the_Equal_def fillDefault_def split: option.split)

lemma fillDefault_fields [simp]:
  "Step (fillDefault model) = Step model" "Init (fillDefault model) = Init model"
  by (simp_all add: fillDefault_def)

lemma parts_results:
  assumes "sorts_by_time srt" and "Equal_sound model" and "int n < 2 ^ 62" and "history_fuel n \<le> fuel"
    and "\<forall>p \<in> set parts. small_part n p" and "i < length parts"
  shows "\<exists>lg. map (\<lambda>sub. checkSingle fuel (fillDefault model) sub ci (\<lambda>_. False))
      (map (makeEntries srt) parts) ! i =
    Some (Inr (linearizable_history (Step model) (Init model) (parts ! i), lg))"
  using search_part [OF assms(1) _ assms(3) _ assms(4), of "parts ! i" "fillDefault model" ci] assms
  by (simp add: Equal_sound_fillDefault)

lemma CheckOperations_parts:
  assumes "sorts_by_time srt" and "Equal_sound model" and "int n < 2 ^ 62" and "history_fuel n \<le> fuel"
    and parts: "the (Partition (fillDefault model)) history = parts" "parts \<noteq> []"
      "\<forall>p \<in> set parts. small_part n p"
    and order: "distinct order" "set order = {..<length parts}"
  shows "CheckOperations fuel srt model history order =
    Some (Inr (\<forall>p \<in> set parts. linearizable_history (Step model) (Init model) p))"
proof -
  let ?ok = "\<lambda>i. linearizable_history (Step model) (Init model) (parts ! i)"
  let ?rs = "map (\<lambda>sub. checkSingle fuel (fillDefault model) sub False (\<lambda>_. False))
    (map (makeEntries srt) parts)"
  have "\<forall>i \<in> set order. i < length ?rs \<and> (\<exists>lg. ?rs ! i = Some (Inr (?ok i, lg)))"
    using parts_results [OF assms(1-4) parts(3), of _ False] order(2) by simp
  moreover have "0 + length order = length ?rs"
    using distinct_card [OF order(1)] order(2) by simp
  moreover have "0 \<in> set order" unfolding order(2) using parts(2) by simp
  then have "order \<noteq> []" by (metis empty_iff list.set(1))
  ultimately have "collect ?rs False True 0 (map Result order) = Some (Inr (\<forall>i \<in> set order. ?ok i, False))"
    by (rule collect_all)
  moreover have "set parts = (!) parts ` set order"
    unfolding order(2) by (auto simp: set_conv_nth)
  then have "(\<forall>i \<in> set order. ?ok i) \<longleftrightarrow>
      (\<forall>p \<in> set parts. linearizable_history (Step model) (Init model) p)"
    by simp
  ultimately show ?thesis
    by (simp add: CheckOperations_def checkOperations_def checkParallel_def parts(1) verdict_def Let_def)
qed

section \<open>Properties of the search\<close>

text \<open>The history of the witnesses: a put of \<open>x\<close>, and a get called before the put returned.\<close>

definition put_x :: kv_operation where
  "put_x = \<lparr>Operation_ClientId = 0, Operation_Input = \<lparr>KvInput_Op = 1, KvInput_Key = ''k'', KvInput_Value = ''x''\<rparr>,
     Operation_Call = 1, Operation_Output = \<lparr>KvOutput_Value = []\<rparr>, Operation_Return = 4\<rparr>"

definition get_x :: kv_operation where
  "get_x = \<lparr>Operation_ClientId = 1, Operation_Input = \<lparr>KvInput_Op = 0, KvInput_Key = ''k'', KvInput_Value = []\<rparr>,
     Operation_Call = 2, Operation_Output = \<lparr>KvOutput_Value = ''x''\<rparr>, Operation_Return = 6\<rparr>"

definition overlap :: "(KvInput, KvOutput) entry list" where
  "overlap = [call_entry put_x 0, call_entry get_x 1, return_entry put_x 0, return_entry get_x 1]"

lemma overlap_count: "op_count overlap = 2"
  by (simp add: overlap_def op_count_def)

lemma overlap_wf: "wf_entries overlap"
  unfolding wf_entries_def overlap_count
  by (auto simp: overlap_def call_pos_def return_pos_def call_of_def return_of_def call_entry_def
      return_entry_def dest!: less_2_cases)

lemma KvModel_Equal_sound: "Equal_sound KvModel"
  by (simp add: Equal_sound_def the_Equal_def fillDefault_def KvModel_def ShallowEqual_def)

lemma kv_step_simps: "Step KvModel = kv_Step" "Init KvModel = []"
  by (simp_all add: KvModel_def)

text \<open>C11: The search decides linearizability: on a history in which every operation has one call and a
  later return, with an equality test that identifies no different states, \<open>checkSingle\<close> returns
  without a panic whatever the interleaving, and its answer is true exactly when some legal order of
  all operations respects real time. A true answer comes with such an order for every operation.\<close>

theorem checkSingle_decides_linearizability:
  assumes "wf_entries es" and "length es < 2 ^ 63" and "Equal_sound model" and "check_fuel es \<le> fuel"
  shows "\<exists>r lg. checkSingle fuel model es cp (\<lambda>_. False) = Some (Inr (r, lg)) \<and>
    (r \<longleftrightarrow> (\<exists>ks. is_linearization model es ks)) \<and>
    (r \<longrightarrow> (\<exists>ks. is_linearization model es ks \<and> lg = replicate (op_count es) (Some (map int ks))))"
  using checkSingle_decides [OF assms] by (simp add: linearizable_def)

theorem checkSingle_decides_linearizability_witness:
  "\<exists>lg. checkSingle (check_fuel overlap) KvModel overlap False (\<lambda>_. False) = Some (Inr (True, lg))"
proof -
  have "length overlap < 2 ^ 63" by (simp add: overlap_def)
  moreover have "is_linearization KvModel overlap [0, 1]"
    unfolding is_linearization_def overlap_count
    by (auto simp: overlap_def precedes_def call_pos_def return_pos_def
        call_of_def return_of_def call_entry_def return_entry_def step_op_def op_input_def op_output_def
        kv_step_simps kv_Step_def put_x_def get_x_def dest!: less_2_cases)
  ultimately show ?thesis
    using checkSingle_decides_linearizability [OF overlap_wf _ KvModel_Equal_sound order.refl, of False]
    by metis
qed

section \<open>Properties of the checker\<close>

text \<open>The store of the key-value model: one string per key, at first empty.\<close>

abbreviation kv_linearizable :: "kv_operation list \<Rightarrow> bool" where
  "kv_linearizable \<equiv> linearizable_history (store_step KvInput_Key kv_Step) (\<lambda>_. [])"

lemma kv_Partition_parts: "kv_Partition history = map (\<lambda>k. part_of KvInput_Key k history) (kv_keys history)"
  by (simp add: kv_Partition_filter part_of_def op_key_def)

lemma part_subset: "set (part_of key k history) \<subseteq> set history"
  by (auto simp: part_of_def)

lemma proper_times_subset: "proper_times xs \<Longrightarrow> set ys \<subseteq> set xs \<Longrightarrow> proper_times ys"
  unfolding proper_times_iff by blast

lemma linearizable_Nil: "linearizable_history step st []"
  unfolding linearizable_history_def linearization_of_def respects_time_def
  by (rule exI [of _ "[]"]) simp

lemma part_absent: "k \<notin> set (kv_keys history) \<Longrightarrow> part_of KvInput_Key k history = []"
  by (force simp: kv_keys_facts op_key_def part_of_def filter_empty_conv)

lemma CheckOperations_kv:
  assumes "sorts_by_time srt" and "history \<noteq> []" and "proper_times history"
    and "int (length history) < 2 ^ 62" and "history_fuel (length history) \<le> fuel"
    and "distinct order" and "set order = {..<length (kv_Partition history)}"
  shows "CheckOperations fuel srt KvModel history order = Some (Inr (kv_linearizable history))"
proof -
  let ?parts = "kv_Partition history"
  have p: "the (Partition (fillDefault KvModel)) history = ?parts"
    by (simp add: fillDefault_def KvModel_def)
  have "kv_keys history \<noteq> []" using kv_keys_facts(1) [of history] assms(2) by force
  then have ne: "?parts \<noteq> []" by (simp add: kv_Partition_parts)
  have small: "\<forall>p \<in> set ?parts. small_part (length history) p"
    using proper_times_subset [OF assms(3) part_subset]
    by (auto simp: kv_Partition_parts small_part_def part_of_def)
  have "CheckOperations fuel srt KvModel history order =
      Some (Inr (\<forall>p \<in> set ?parts. linearizable_history kv_Step [] p))"
    using CheckOperations_parts [OF assms(1) KvModel_Equal_sound assms(4,5) p ne small assms(6,7)]
    by (simp add: kv_step_simps)
  moreover have "(\<forall>p \<in> set ?parts. linearizable_history kv_Step [] p) \<longleftrightarrow>
      (\<forall>k. linearizable_history kv_Step [] (part_of KvInput_Key k history))"
    using part_absent linearizable_Nil by (fastforce simp: kv_Partition_parts)
  moreover have "\<forall>x \<in> set history. Operation_Call x < Operation_Return x"
    using assms(3) by (simp add: proper_times_iff)
  ultimately show ?thesis by (simp add: linearizable_by_parts)
qed

text \<open>C12: \<open>CheckOperations\<close> decides whether a key-value history is linearizable as a history of one store
  with all its keys, in whatever order the searches of the keys finish: the partition by key loses
  nothing. The history is not empty, operations take time and no call falls on the moment of a return.\<close>

theorem CheckOperations_decides_kv:
  assumes "sorts_by_time srt" and "history \<noteq> []" and "proper_times history"
    and "int (length history) < 2 ^ 62" and "history_fuel (length history) \<le> fuel"
    and "distinct order" and "set order = {..<length (kv_Partition history)}"
  shows "CheckOperations fuel srt KvModel history order = Some (Inr (kv_linearizable history))"
  using assms by (rule CheckOperations_kv)

definition stale_get :: kv_operation where
  "stale_get = get_x\<lparr>Operation_Call := 7, Operation_Output := \<lparr>KvOutput_Value = []\<rparr>, Operation_Return := 9\<rparr>"

lemma mset_two: "mset xs = {#a, b#} \<longleftrightarrow> xs = [a, b] \<or> xs = [b, a]"
proof
  assume m: "mset xs = {#a, b#}"
  then have "length xs = 2" by (metis mset_map size_mset size_add_mset size_empty numeral_2_eq_2)
  then obtain x y where "xs = [x, y]" by (auto simp: numeral_2_eq_2 length_Suc_conv)
  with m show "xs = [a, b] \<or> xs = [b, a]" by (auto simp: add_eq_conv_ex)
qed auto

lemma sort_by_time: "sorts_by_time (sort_key entry_time)"
  by (simp add: sorts_by_time_def)

theorem CheckOperations_decides_kv_witness:
  "CheckOperations (history_fuel 2) (sort_key entry_time) KvModel [put_x, stale_get] [0] = Some (Inr False)"
proof -
  have k: "kv_Partition [put_x, stale_get] = [[put_x, stale_get]]"
    by (simp add: kv_Partition_filter kv_keys_def op_key_def put_x_def stale_get_def get_x_def)
  have "\<not> linearization_of (store_step KvInput_Key kv_Step) (\<lambda>_. []) [put_x, stale_get] xs" for xs
  proof
    assume l: "linearization_of (store_step KvInput_Key kv_Step) (\<lambda>_. []) [put_x, stale_get] xs"
    then have "mset xs = {#put_x, stale_get#}" by (simp add: linearization_of_def)
    then have "xs = [put_x, stale_get] \<or> xs = [stale_get, put_x]"
      by (auto simp: mset_two)
    with l show False
      by (auto simp: linearization_of_def respects_time_def store_step_def kv_Step_def put_x_def
          stale_get_def get_x_def)
  qed
  then have "\<not> kv_linearizable [put_x, stale_get]" by (simp add: linearizable_history_def)
  moreover have "proper_times [put_x, stale_get]"
    by (simp add: proper_times_def put_x_def stale_get_def get_x_def)
  ultimately show ?thesis
    using CheckOperations_decides_kv [OF sort_by_time, of "[put_x, stale_get]" "history_fuel 2" "[0]"] k
    by (simp add: numeral_2_eq_2 lessThan_Suc)
qed

text \<open>What the select loop can receive: each partition's result at most once, and timeouts.\<close>

definition proper_arrivals :: "nat \<Rightarrow> arrival list \<Rightarrow> bool" where
  "proper_arrivals n arrivals \<longleftrightarrow> distinct (filter (\<lambda>a. a \<noteq> Timeout) arrivals) \<and>
     list_all (\<lambda>a. case a of Result i \<Rightarrow> i < n | Timeout \<Rightarrow> True) arrivals"

text \<open>
  Without operations there are no partitions, so no result can arrive, and the loop is left by a timeout
  only: \<open>CheckOperations\<close> of an empty key-value history, which sets no timeout, never returns.
\<close>

lemma empty_history_waits:
  assumes "proper_arrivals (length (kv_Partition [])) arrivals"
  shows "(\<exists>res. checkOperations fuel srt KvModel [] verbose arrivals = Some res) \<longleftrightarrow> Timeout \<in> set arrivals"
proof -
  have no: "kv_Partition [] = []" by (simp add: kv_Partition_filter kv_keys_def)
  have "arrivals = [] \<or> (\<exists>es. arrivals = Timeout # es)"
    using assms no by (cases arrivals) (auto simp: proper_arrivals_def split: arrival.splits)
  moreover have "the (Partition (fillDefault KvModel)) [] = []"
    by (simp add: fillDefault_def KvModel_def no)
  ultimately show ?thesis by (auto simp: checkOperations_def checkParallel_def Let_def)
qed

lemma proper_arrivals_prefix:
  assumes "proper_arrivals n arrivals" and "prefix (map Result order) arrivals"
  shows "distinct order" "set order \<subseteq> {..<n}"
proof -
  from assms(2) obtain rest where a: "arrivals = map Result order @ rest" by (auto simp: prefix_def)
  have "filter (\<lambda>a. a \<noteq> Timeout) (map Result order) = map Result order" by (simp add: filter_id_conv)
  with assms(1) a show "distinct order" by (simp add: proper_arrivals_def distinct_map)
  have "i < n" if "i \<in> set order" for i
  proof -
    have "Result i \<in> set arrivals" using that a by simp
    with assms(1) show ?thesis by (force simp: proper_arrivals_def list_all_iff)
  qed
  then show "set order \<subseteq> {..<n}" by auto
qed

lemma all_results:
  assumes "distinct order" and "set order \<subseteq> {..<n}" and "n \<le> length order" and "i < n"
  shows "i \<in> set order"
proof -
  have "card (set order) = length order" by (rule distinct_card [OF assms(1)])
  with assms(2,3) card_mono [OF _ assms(2)] have "set order = {..<n}"
    by (intro card_subset_eq) auto
  with assms(4) show ?thesis by simp
qed

text \<open>C33: For a history whose partitions have proper times (each call before its return, and no return at the
  time of a call) and fewer than \<open>2^62\<close> operations each, the verdict is sound whenever it is given: after
  any results (each partition's at most once) and timeouts in any order, \<open>Ok\<close> means that every partition
  is linearizable, \<open>Illegal\<close> that one is not, and only a timeout makes it \<open>Unknown\<close>. (Without proper times
  it is not sound: the section on ties has a history.)\<close>

theorem checkOperations_verdict_sound:
  assumes "sorts_by_time srt" and "Equal_sound model" and "int n < 2 ^ 62" and "history_fuel n \<le> fuel"
    and "the (Partition (fillDefault model)) history = parts" and "list_all (small_part n) parts"
    and "proper_arrivals (length parts) arrivals"
    and "checkOperations fuel srt model history verbose arrivals = Some (Inr res)"
  shows "(res = Ok \<longrightarrow> list_all (linearizable_history (Step model) (Init model)) parts) \<and>
    (res = Illegal \<longrightarrow> \<not> list_all (linearizable_history (Step model) (Init model)) parts) \<and>
    (res = Unknown \<longrightarrow> Timeout \<in> set arrivals)"
proof -
  let ?ok = "\<lambda>i. linearizable_history (Step model) (Init model) (parts ! i)"
  let ?rs = "map (\<lambda>sub. checkSingle fuel (fillDefault model) sub verbose (\<lambda>_. False))
    (map (makeEntries srt) parts)"
  have "\<forall>p \<in> set parts. small_part n p" using assms(6) by (simp add: list_all_iff)
  note res = parts_results [OF assms(1-4) this, of _ verbose]
  have "i < length ?rs \<and> (\<exists>lg. ?rs ! i = Some (Inr (?ok i, lg)))" if "Result i \<in> set arrivals" for i
    using that assms(7) res [of i] by (force simp: proper_arrivals_def list_all_iff)
  then have rs: "\<forall>i. Result i \<in> set arrivals \<longrightarrow>
      i < length ?rs \<and> (\<exists>lg. ?rs ! i = Some (Inr (?ok i, lg)))" by blast
  from assms(8) obtain r timedOut where c: "collect ?rs verbose True 0 arrivals = Some (Inr (r, timedOut))"
    and v: "res = verdict (r, timedOut)"
    by (auto simp: checkOperations_def checkParallel_def assms(5) Let_def go_simps)
  note s = collect_sound [OF rs c]
  have "list_all (linearizable_history (Step model) (Init model)) parts" if "res = Ok"
  proof -
    from that v have "r" "\<not> timedOut" by (auto simp: verdict_def split: if_splits)
    with s obtain order where o: "length parts \<le> length order" "prefix (map Result order) arrivals"
      "\<forall>i \<in> set order. ?ok i" by auto
    note p = proper_arrivals_prefix [OF assms(7) o(2)]
    have "?ok i" if "i < length parts" for i
      using all_results [OF p o(1) that] o(3) by blast
    then show ?thesis by (simp add: list_all_length)
  qed
  moreover have "\<not> list_all (linearizable_history (Step model) (Init model)) parts" if "res = Illegal"
  proof -
    from that v have "\<not> r" by (auto simp: verdict_def split: if_splits)
    with s show ?thesis by (auto simp: list_all_length)
  qed
  moreover have "Timeout \<in> set arrivals" if "res = Unknown"
    using rs v that by (intro collect_timeout [OF _ c]) auto
  ultimately show ?thesis by blast
qed

theorem checkOperations_verdict_sound_witness:
  "checkOperations (history_fuel 2) (sort_key entry_time) KvModel [put_x, get_x] False [Timeout, Result 0] =
     Some (Inr Unknown) \<and> Timeout \<in> set [Timeout, Result 0]"
proof -
  have k: "the (Partition (fillDefault KvModel)) [put_x, get_x] = [[put_x, get_x]]"
    by (simp add: fillDefault_def KvModel_def kv_Partition_filter kv_keys_def op_key_def put_x_def get_x_def)
  have r: "checkOperations (history_fuel 2) (sort_key entry_time) KvModel [put_x, get_x] False
      [Timeout, Result 0] = Some (Inr Unknown)"
    by (simp add: checkOperations_def checkParallel_def k verdict_def Let_def)
  have p: "list_all (small_part 2) [[put_x, get_x]]"
    by (simp add: small_part_def proper_times_def put_x_def get_x_def)
  have a: "proper_arrivals (length [[put_x, get_x]]) [Timeout, Result 0]" by (simp add: proper_arrivals_def)
  from checkOperations_verdict_sound [OF sort_by_time KvModel_Equal_sound _ order.refl k p a r] r
  show ?thesis by simp
qed

section \<open>Properties of the parts\<close>

text \<open>The partition of the key-value model: one part per key that occurs, in the order of the sorted keys,
  each part holding exactly the operations on its key in their order in the history.\<close>

theorem kv_Partition_correct:
  "kv_Partition history = map (\<lambda>k. filter (\<lambda>v. op_key v = k) history) (kv_keys history) \<and>
   set (kv_keys history) = op_key ` set history \<and> sorted (kv_keys history) \<and> distinct (kv_keys history) \<and>
   mset (concat (kv_Partition history)) = mset history"
proof -
  have "mset (concat (map (\<lambda>k. filter (\<lambda>v. op_key v = k) xs) ks)) = filter_mset (\<lambda>v. op_key v \<in> set ks) (mset xs)"
    if "distinct ks" for xs :: "kv_operation list" and ks
    using that
  proof (induction ks)
    case (Cons k ks)
    have "filter_mset (\<lambda>v. op_key v \<in> set (k # ks)) (mset xs) =
        filter_mset (\<lambda>v. op_key v = k) (mset xs) + filter_mset (\<lambda>v. op_key v \<in> set ks) (mset xs)"
      using Cons.prems by (induction xs) auto
    with Cons show ?case by simp
  qed simp
  moreover have "filter_mset (\<lambda>v. op_key v \<in> set (kv_keys history)) (mset history) = mset history"
    by (auto simp: filter_mset_eq_conv kv_keys_facts)
  ultimately show ?thesis by (simp add: kv_Partition_filter kv_keys_facts)
qed

text \<open>C34: A bitset of \<open>n\<close> bits starts empty, and below its capacity \<open>set\<close>, \<open>clear\<close> and \<open>get\<close> do not panic and
  insert, remove and look up the position; \<open>equals\<close> compares the sets, and equal sets of the same
  capacity have equal hashes.\<close>

theorem bitset_correct:
  assumes "p < capacity b" and "capacity b2 = capacity b"
  shows "members (newBitset n) = {} \<and> n \<le> capacity (newBitset n) \<and>
    (\<exists>b'. bs_set b p = Inr b' \<and> members b' = insert p (members b) \<and> capacity b' = capacity b) \<and>
    (\<exists>b'. bs_clear b p = Inr b' \<and> members b' = members b - {p} \<and> capacity b' = capacity b) \<and>
    bs_get b p = Inr (p \<in> members b) \<and> clone b = b \<and>
    (bs_equals b b2 \<longleftrightarrow> members b = members b2) \<and>
    (members b = members b2 \<longrightarrow> bs_hash b = bs_hash b2)"
proof -
  have e: "bs_equals b b2 \<longleftrightarrow> members b = members b2" using assms(2) by (intro words.same_law) simp
  then have "members b = members b2 \<longrightarrow> bs_hash b = bs_hash b2"
    unfolding bs_equals_eq by blast
  with e show ?thesis
    using newBitset_spec words.insert_law [OF assms(1)] words.remove_law [OF assms(1)] bs_get_spec [OF assms(1)]
    by simp
qed

theorem bitset_correct_witness: "\<exists>b'. bs_set (newBitset 70) 65 = Inr b' \<and> members b' = {65}"
proof -
  have "65 < capacity (newBitset 70)" by (simp add: newBitset_def capacity_def)
  from bitset_correct [OF this refl, of 70] show ?thesis by auto
qed

text \<open>C40: On a doubly linked list, \<open>lift\<close> of an operation whose return comes later removes its two nodes and
  leaves a doubly linked list, and \<open>unlift\<close> restores the heap exactly, in every arrangement of the
  two nodes.\<close>

theorem lift_unlift_roundtrip:
  assumes "seg h None (p # pre @ a # suf) None" and "distinct (p # pre @ a # suf)"
    and "info h a = Some (v, Some m, i)" and "m \<in> set suf"
  shows "\<exists>h'. lift h (Some a) = Inr h' \<and> seg h' None (p # pre @ filter (\<lambda>x. x \<noteq> m) suf) None \<and>
    unlift h' (Some a) = Inr h"
  using lift_spec [OF assms] by blast

theorem lift_unlift_roundtrip_witness:
  "\<exists>h h'. search_init KvModel overlap = Some (Inr h) \<and> lift (s_heap h) (Some 3) = Inr h' \<and>
     seg h' None [4, 2, 0] None \<and> unlift h' (Some 3) = Inr (s_heap h)"
proof -
  obtain s where s: "search_init KvModel overlap = Some (Inr s)"
    and i: "search_inv KvModel overlap s [] [] (addrs (length overlap))"
    using search_init_correct [OF overlap_wf, of KvModel] by blast
  then have h: "heap_ok overlap {} (s_heap s)" by (simp add: search_inv_def)
  have a: "addrs 4 = [3, 2, 1, 0]" by (simp add: numeral_eq_Suc)
  have "seg (s_heap s) None (4 # [] @ 3 # [2, 1, 0]) None"
  proof -
    have l: "length overlap = 4" by (simp add: overlap_def)
    from h have "seg (s_heap s) None (4 # addrs 4) None" by (simp only: heap_ok_def left_over_empty l)
    then show ?thesis by (simp only: a append_Nil)
  qed
  moreover have "info (s_heap s) 3 = Some (Some (entry_value (call_entry put_x 0)), Some 1, 0)"
    using h by (auto simp: heap_ok_def overlap_def entry_info_def call_entry_def return_entry_def)
  ultimately show ?thesis
    using lift_unlift_roundtrip [of "s_heap s" 4 "[]" 3 "[2, 1, 0]" _ 1] s by fastforce
qed

text \<open>The numbers \<open>renumber\<close> has given out.\<close>

definition numbering :: "(int \<rightharpoonup> int) \<Rightarrow> int \<Rightarrow> bool" where
  "numbering m ident \<longleftrightarrow> inj_on m (dom m) \<and> ran m = {0..<ident} \<and> 0 \<le> ident"

lemma numbering_next:
  assumes "numbering m ident" and "m i = None"
  shows "numbering (m(i \<mapsto> ident)) (ident + 1)"
proof -
  have "m x \<noteq> Some ident" for x using assms by (auto simp: numbering_def ran_def)
  then have "inj_on (m(i \<mapsto> ident)) (dom (m(i \<mapsto> ident)))"
    using assms by (auto simp: numbering_def inj_on_def)
  moreover have "ran (m(i \<mapsto> ident)) = {0..<ident + 1}"
    using assms by (auto simp: numbering_def ran_map_upd)
  ultimately show ?thesis using assms by (simp add: numbering_def)
qed

lemma renumber_loop_spec:
  assumes "numbering m ident"
  shows "\<exists>m' ident'. numbering m' ident' \<and> m \<subseteq>\<^sub>m m' \<and>
    dom m' = dom m \<union> Event_Id ` set events \<and>
    renumber_loop m ident events = map (\<lambda>v. v\<lparr>Event_Id := the (m' (Event_Id v))\<rparr>) events"
  using assms
proof (induction events arbitrary: m ident)
  case Nil
  then show ?case by (intro exI [of _ m] exI [of _ ident]) simp
next
  case (Cons v events)
  show ?case
  proof (cases "m (Event_Id v)")
    case (Some r)
    from Cons.IH [OF Cons.prems] obtain m' ident' where m': "numbering m' ident'" "m \<subseteq>\<^sub>m m'"
      "dom m' = dom m \<union> Event_Id ` set events"
      "renumber_loop m ident events = map (\<lambda>v. v\<lparr>Event_Id := the (m' (Event_Id v))\<rparr>) events" by blast
    have "m' (Event_Id v) = Some r" using m'(2) Some by (metis domI map_le_def)
    with m' Some show ?thesis by (intro exI [of _ m'] exI [of _ ident']) auto
  next
    case None
    let ?m = "m(Event_Id v \<mapsto> ident)"
    from Cons.IH [OF numbering_next [OF Cons.prems None]] obtain m' ident' where
      m': "numbering m' ident'" "?m \<subseteq>\<^sub>m m'" "dom m' = dom ?m \<union> Event_Id ` set events"
      "renumber_loop ?m (ident + 1) events = map (\<lambda>v. v\<lparr>Event_Id := the (m' (Event_Id v))\<rparr>) events"
      by blast
    have "m' (Event_Id v) = Some ident" using m'(2) by (metis domI fun_upd_same map_le_def)
    moreover have "m \<subseteq>\<^sub>m ?m" using None by (auto simp: map_le_def)
    then have "m \<subseteq>\<^sub>m m'" using m'(2) by (rule map_le_trans)
    ultimately show ?thesis using m' None by (intro exI [of _ m'] exI [of _ ident']) auto
  qed
qed

text \<open>\<open>renumber\<close> replaces the ids of the events, one for one, by the numbers from 0 to the number of
  different ids, and changes nothing else.\<close>

theorem renumber_one_to_one:
  "\<exists>f. renumber events = map (\<lambda>v. v\<lparr>Event_Id := f (Event_Id v)\<rparr>) events \<and>
     inj_on f (Event_Id ` set events) \<and>
     f ` Event_Id ` set events = {0..<int (card (Event_Id ` set events))}"
proof -
  have "numbering Map.empty 0" by (simp add: numbering_def)
  from renumber_loop_spec [OF this, of events] obtain m' ident' where
    m: "numbering m' ident'" "dom m' = Event_Id ` set events"
    "renumber events = map (\<lambda>v. v\<lparr>Event_Id := the (m' (Event_Id v))\<rparr>) events"
    by (auto simp: renumber_def)
  let ?f = "\<lambda>i. the (m' i)"
  have inj: "inj_on ?f (dom m')"
    using m(1) by (auto simp: numbering_def inj_on_def domIff)
  have im: "?f ` dom m' = {0..<ident'}"
  proof -
    have "?f ` dom m' = ran m'" by (force simp: ran_def dom_def image_iff)
    with m(1) show ?thesis by (simp add: numbering_def)
  qed
  have "card (dom m') = nat ident'" using card_image [OF inj] by (simp add: im)
  moreover have "0 \<le> ident'" using m(1) by (simp add: numbering_def)
  ultimately have "{0..<ident'} = {0..<int (card (dom m'))}" by simp
  with inj im m(2,3) show ?thesis by (intro exI [of _ ?f]) simp
qed

section \<open>Ties\<close>

text \<open>A get that is called and returns at the same moment, and a sort that puts its return first.\<close>

definition instant_get :: kv_operation where
  "instant_get = get_x\<lparr>Operation_Call := 5, Operation_Output := \<lparr>KvOutput_Value = []\<rparr>, Operation_Return := 5\<rparr>"

lemma sort_rev_by_time: "sorts_by_time (\<lambda>es. sort_key entry_time (rev es))"
  by (simp add: sorts_by_time_def)

text \<open>C35: The answer can depend on the sorting algorithm: \<open>sort.Sort\<close> may order entries of equal time in
  either way, and for an operation whose call and return carry the same time one order is accepted and
  the other refused, although the history of one get of the initial value is linearizable.\<close>

theorem equal_times_depend_on_sort:
  "sorts_by_time (sort_key entry_time) \<and> sorts_by_time (\<lambda>es. sort_key entry_time (rev es)) \<and>
   kv_linearizable [instant_get] \<and>
   (\<exists>lg. checkSingle 7 KvModel (makeEntries (sort_key entry_time) [instant_get]) False (\<lambda>_. False) =
      Some (Inr (True, lg))) \<and>
   (\<exists>lg. checkSingle 7 KvModel (makeEntries (\<lambda>es. sort_key entry_time (rev es)) [instant_get]) False
      (\<lambda>_. False) = Some (Inr (False, lg)))"
proof -
  let ?c = "call_entry instant_get 0" and ?r = "return_entry instant_get 0"
  have e: "operation_entries 0 [instant_get] = [?c, ?r]" by (simp add: call_entry_def return_entry_def)
  have t: "entry_time ?c = 5" "entry_time ?r = 5"
    by (simp_all add: call_entry_def return_entry_def instant_get_def)
  have e1: "makeEntries (sort_key entry_time) [instant_get] = [?c, ?r]"
    unfolding makeEntries_def e by (simp add: t)
  have e2: "makeEntries (\<lambda>es. sort_key entry_time (rev es)) [instant_get] = [?r, ?c]"
    unfolding makeEntries_def e by (simp add: t)
  have w: "wf_entries [?c, ?r]"
    by (simp add: wf_entries_def op_count_def call_pos_def return_pos_def call_of_def return_of_def
        call_entry_def return_entry_def)
  have "is_linearization KvModel [?c, ?r] [0]"
    by (simp add: is_linearization_def op_count_def step_op_def op_input_def op_output_def call_pos_def
        return_pos_def call_of_def return_of_def call_entry_def return_entry_def kv_step_simps kv_Step_def
        instant_get_def get_x_def lessThan_Suc)
  moreover have "check_fuel [?c, ?r] = 7" by (simp add: check_fuel_def op_count_def)
  ultimately have "\<exists>lg. checkSingle 7 KvModel [?c, ?r] False (\<lambda>_. False) = Some (Inr (True, lg))"
    using checkSingle_decides [OF w _ KvModel_Equal_sound, of 7 False] by (auto simp: linearizable_def)
  moreover have "kv_linearizable [instant_get]"
    unfolding linearizable_history_def
    by (rule exI [of _ "[instant_get]"]) (simp add: linearization_of_def respects_time_def store_step_def
        kv_Step_def instant_get_def get_x_def)
  moreover have "\<exists>lg. checkSingle 7 KvModel [?r, ?c] False (\<lambda>_. False) = Some (Inr (False, lg))"
    by (simp add: checkSingle_def search_init_def link_entry_def insertBefore_def node_length.simps
        set_next_def set_prev_def deref_def search_turn_def eval_nat_numeral Let_def call_entry_def
        return_entry_def)
  ultimately show ?thesis by (simp only: e1 e2 sort_by_time sort_rev_by_time simp_thms)
qed

end
