(* ===== verification/Porc_Events.thy ===== *)
theory Porc_Events
  imports Porc_Properties
begin

text \<open>
  \<open>CheckEvents\<close>: linearizability of a list of call and return events with ids of the caller's choice,
  and its link to the entries the search works on.
\<close>

section \<open>Histories of events\<close>

definition event_pos :: "EventKind \<Rightarrow> ('i, 'o) Event list \<Rightarrow> int \<Rightarrow> nat" where
  "event_pos kind events i = length (takeWhile (\<lambda>v. \<not> (Event_Kind v = kind \<and> Event_Id v = i)) events)"

definition event_value :: "EventKind \<Rightarrow> ('i, 'o) Event list \<Rightarrow> int \<Rightarrow> 'i + 'o" where
  "event_value kind events i = Event_Value (events ! event_pos kind events i)"

definition event_ids :: "('i, 'o) Event list \<Rightarrow> int set" where
  "event_ids events = Event_Id ` set events"

text \<open>Every id has one call, which carries an input, and after it one return, which carries an output.\<close>

definition wf_events :: "('i, 'o) Event list \<Rightarrow> bool" where
  "wf_events events \<longleftrightarrow>
     distinct (map (\<lambda>v. (Event_Kind v, Event_Id v)) events) \<and>
     list_all (\<lambda>v. event_pos CallEvent events (Event_Id v) < event_pos ReturnEvent events (Event_Id v) \<and>
       event_pos ReturnEvent events (Event_Id v) < length events \<and>
       isl (event_value CallEvent events (Event_Id v)) \<and>
       \<not> isl (event_value ReturnEvent events (Event_Id v))) events"

fun legal_events ::
  "('st \<Rightarrow> 'i \<Rightarrow> 'o \<Rightarrow> bool \<times> 'st) \<Rightarrow> ('i, 'o) Event list \<Rightarrow> 'st \<Rightarrow> int list \<Rightarrow> bool" where
  "legal_events step events st [] = True"
| "legal_events step events st (i # ids) =
     (case step st (projl (event_value CallEvent events i)) (projr (event_value ReturnEvent events i)) of
        (ok, st') \<Rightarrow> ok \<and> legal_events step events st' ids)"

text \<open>A legal order of all the ids in which none comes after one that was called later than it returned.\<close>

definition linearizable_events ::
  "('st \<Rightarrow> 'i \<Rightarrow> 'o \<Rightarrow> bool \<times> 'st) \<Rightarrow> 'st \<Rightarrow> ('i, 'o) Event list \<Rightarrow> bool" where
  "linearizable_events step st events \<longleftrightarrow>
     (\<exists>ids. distinct ids \<and> set ids = event_ids events \<and>
        sorted_wrt (\<lambda>i j. \<not> event_pos ReturnEvent events j < event_pos CallEvent events i) ids \<and>
        legal_events step events st ids)"

section \<open>The entries\<close>

definition event_entries :: "('i, 'o) Event list \<Rightarrow> ('i, 'o) entry list" where
  "event_entries events = convertEntries (renumber events)"

definition entry_kind_of :: "EventKind \<Rightarrow> entryKind" where
  "entry_kind_of kind = (if kind = ReturnEvent then returnEntry else callEntry)"

lemma entry_kind_of_simps [simp]:
  "entry_kind_of kind = callEntry \<longleftrightarrow> kind = CallEvent"
  "entry_kind_of kind = returnEntry \<longleftrightarrow> kind = ReturnEvent"
  by (cases kind; simp add: entry_kind_of_def)+

lemma length_convertEntries: "length (convertEntries events) = length events"
  by (simp add: convertEntries_def)

lemma convertEntries_nth:
  assumes "p < length events"
  shows "entry_kind (convertEntries events ! p) = entry_kind_of (Event_Kind (events ! p))"
    "entry_value (convertEntries events ! p) = Event_Value (events ! p)"
    "entry_id (convertEntries events ! p) = Event_Id (events ! p)"
  using assms by (simp_all add: convertEntries_def nth_enumerate_eq entry_kind_of_def split_beta)

text \<open>The numbering: \<open>f\<close> maps the ids to the numbers of the operations.\<close>

definition numbers :: "(int \<Rightarrow> int) \<Rightarrow> ('i, 'o) Event list \<Rightarrow> bool" where
  "numbers f events \<longleftrightarrow> renumber events = map (\<lambda>v. v\<lparr>Event_Id := f (Event_Id v)\<rparr>) events \<and>
     bij_betw f (event_ids events) {0..<int (card (event_ids events))}"

lemma numbers_exists: "\<exists>f. numbers f events"
  using renumber_one_to_one [of events] by (auto simp: numbers_def bij_betw_def event_ids_def)

lemma takeWhile_length_cong:
  assumes "length xs = length ys" and "\<And>p. p < length xs \<Longrightarrow> P (xs ! p) \<longleftrightarrow> Q (ys ! p)"
  shows "length (takeWhile P xs) = length (takeWhile Q ys)"
  using assms
proof (induction xs ys rule: list_induct2)
  case (Cons x xs y ys)
  from Cons.prems [of 0] have "P x \<longleftrightarrow> Q y" by simp
  moreover have "length (takeWhile P xs) = length (takeWhile Q ys)"
    using Cons.prems by (intro Cons.IH) fastforce
  ultimately show ?case by simp
qed simp

lemma event_entries_nth:
  assumes "numbers f events" and "p < length events"
  shows "entry_kind (event_entries events ! p) = entry_kind_of (Event_Kind (events ! p))"
    "entry_value (event_entries events ! p) = Event_Value (events ! p)"
    "entry_id (event_entries events ! p) = f (Event_Id (events ! p))"
  using assms by (simp_all add: event_entries_def numbers_def convertEntries_nth)

lemma length_event_entries: "length (event_entries events) = length events"
  using numbers_exists [of events] by (auto simp: event_entries_def length_convertEntries numbers_def)

lemma numbers_eq:
  assumes "numbers f events" and "i \<in> event_ids events" and "v \<in> set events"
  shows "f (Event_Id v) = f i \<longleftrightarrow> Event_Id v = i"
  using assms by (auto simp: numbers_def bij_betw_def inj_on_def event_ids_def)

lemma event_positions:
  assumes f: "numbers f events" and i: "i \<in> event_ids events" and k: "f i = int k"
  shows "call_pos (event_entries events) k = event_pos CallEvent events i"
    "return_pos (event_entries events) k = event_pos ReturnEvent events i"
  unfolding call_pos_def return_pos_def event_pos_def call_of_def return_of_def
  by (rule takeWhile_length_cong;
      use numbers_eq [OF f i] event_entries_nth [OF f] k in \<open>simp add: length_event_entries\<close>)+

lemma wf_eventsD:
  assumes "wf_events events" and "i \<in> event_ids events"
  shows "event_pos CallEvent events i < event_pos ReturnEvent events i"
    "event_pos ReturnEvent events i < length events"
    "isl (event_value CallEvent events i)" "\<not> isl (event_value ReturnEvent events i)"
  using assms by (auto simp: wf_events_def list_all_iff event_ids_def)

lemma event_at_pos:
  assumes "event_pos kind events i < length events"
  shows "Event_Kind (events ! event_pos kind events i) = kind" "Event_Id (events ! event_pos kind events i) = i"
  using takeWhile_pos [of "\<lambda>v. Event_Kind v = kind \<and> Event_Id v = i" events] assms
  by (simp_all add: event_pos_def)

lemma wf_events_length:
  assumes w: "wf_events events"
  shows "length events = 2 * card (event_ids events)"
proof -
  let ?pair = "\<lambda>v. (Event_Kind v, Event_Id v)"
  have "set (map ?pair events) = {CallEvent, ReturnEvent} \<times> event_ids events"
  proof
    show "set (map ?pair events) \<subseteq> {CallEvent, ReturnEvent} \<times> event_ids events"
      using EventKind.exhaust by (auto simp: event_ids_def)
    have "(kind, i) \<in> set (map ?pair events)" if i: "i \<in> event_ids events" and "kind \<in> {CallEvent, ReturnEvent}" for kind i
    proof -
      have p: "event_pos kind events i < length events" using wf_eventsD(1,2) [OF w i] that(2) by auto
      have "(kind, i) = (\<lambda>v. (Event_Kind v, Event_Id v)) (events ! event_pos kind events i)"
        by (simp add: event_at_pos [OF p])
      then show ?thesis using nth_mem [OF p] by simp
    qed
    then show "{CallEvent, ReturnEvent} \<times> event_ids events \<subseteq> set (map ?pair events)" by auto
  qed
  then have "card (set (map ?pair events)) = 2 * card (event_ids events)"
    by (simp add: card_cartesian_product)
  moreover have "card (set (map ?pair events)) = length events"
    using w distinct_card [of "map ?pair events"] by (simp only: wf_events_def length_map)
  ultimately show ?thesis by simp
qed

lemma event_count:
  "wf_events events \<Longrightarrow> op_count (event_entries events) = card (event_ids events)"
  by (simp add: op_count_def length_event_entries wf_events_length)

text \<open>The id of an operation.\<close>

lemma numbered_id:
  assumes w: "wf_events events" and f: "numbers f events" and k: "k < op_count (event_entries events)"
  obtains i where "i \<in> event_ids events" and "f i = int k"
proof -
  have "int k \<in> {0..<int (card (event_ids events))}" using k event_count [OF w] by simp
  moreover have "f ` event_ids events = {0..<int (card (event_ids events))}"
    using f by (simp add: numbers_def bij_betw_def)
  ultimately have "int k \<in> f ` event_ids events" by simp
  then show ?thesis by (rule imageE) (rule that, simp_all)
qed

lemma event_entries_wf:
  assumes w: "wf_events events"
  shows "wf_entries (event_entries events)"
proof -
  let ?es = "event_entries events"
  obtain f where f: "numbers f events" using numbers_exists by blast
  have "map (\<lambda>e. (entry_kind e, entry_id e)) ?es =
      map (\<lambda>(kind, i). (entry_kind_of kind, f i)) (map (\<lambda>v. (Event_Kind v, Event_Id v)) events)"
    by (rule nth_equalityI) (simp_all add: length_event_entries event_entries_nth [OF f])
  moreover have "inj_on (\<lambda>(kind, i). (entry_kind_of kind, f i)) (set (map (\<lambda>v. (Event_Kind v, Event_Id v)) events))"
  proof (rule inj_onI)
    fix x y assume x: "x \<in> set (map (\<lambda>v. (Event_Kind v, Event_Id v)) events)"
      and y: "y \<in> set (map (\<lambda>v. (Event_Kind v, Event_Id v)) events)"
      and e: "(case x of (kind, i) \<Rightarrow> (entry_kind_of kind, f i)) = (case y of (kind, i) \<Rightarrow> (entry_kind_of kind, f i))"
    have "entry_kind_of a = entry_kind_of b \<longleftrightarrow> a = b" for a b
      by (cases a; cases b) (simp_all add: entry_kind_of_def)
    with x y e numbers_eq [OF f] show "x = y" by (auto simp: event_ids_def)
  qed
  moreover have "distinct (map (\<lambda>v. (Event_Kind v, Event_Id v)) events)" using w by (simp add: wf_events_def)
  ultimately have "distinct (map (\<lambda>e. (entry_kind e, entry_id e)) ?es)"
    by (simp only: distinct_map [of _ "map (\<lambda>v. (Event_Kind v, Event_Id v)) events"] simp_thms)
  moreover have "call_pos ?es k < return_pos ?es k \<and> return_pos ?es k < length ?es \<and>
      isl (entry_value (?es ! call_pos ?es k)) \<and> \<not> isl (entry_value (?es ! return_pos ?es k))"
    if k: "k < op_count ?es" for k
  proof -
    obtain i where i: "i \<in> event_ids events" "f i = int k" by (rule numbered_id [OF w f k])
    note pos = event_positions [OF f i] and d = wf_eventsD [OF w i(1)]
    have "event_pos CallEvent events i < length events" using d(1,2) by simp
    with d pos show ?thesis
      by (simp add: length_event_entries event_entries_nth [OF f] event_value_def)
  qed
  ultimately show ?thesis
    using wf_events_length [OF w] by (simp add: wf_entries_def length_event_entries)
qed

lemma event_step:
  assumes w: "wf_events events" and f: "numbers f events" and i: "i \<in> event_ids events" and k: "f i = int k"
  shows "step_op model (event_entries events) st k =
    Step model st (projl (event_value CallEvent events i)) (projr (event_value ReturnEvent events i))"
proof -
  note d = wf_eventsD [OF w i]
  then have "event_pos CallEvent events i < length events" by simp
  with d show ?thesis
    by (simp add: step_op_def op_input_def op_output_def event_positions [OF f i k]
        event_entries_nth [OF f] event_value_def)
qed

lemma event_legal:
  assumes w: "wf_events events" and f: "numbers f events" and "set ids \<subseteq> event_ids events"
  shows "legal model (event_entries events) st (map (\<lambda>i. nat (f i)) ids) \<longleftrightarrow>
    legal_events (Step model) events st ids"
  using assms(3)
proof (induction ids arbitrary: st)
  case (Cons i ids)
  then have i: "i \<in> event_ids events" by simp
  with f have "0 \<le> f i" by (auto simp: numbers_def bij_betw_def)
  then have "f i = int (nat (f i))" by simp
  from event_step [OF w f i this, of model st] Cons show ?case by (simp add: split_beta)
qed simp

lemma event_linearization:
  assumes w: "wf_events events" and f: "numbers f events" and sub: "set ids \<subseteq> event_ids events"
  shows "is_linearization model (event_entries events) (map (\<lambda>i. nat (f i)) ids) \<longleftrightarrow>
    distinct ids \<and> set ids = event_ids events \<and>
    sorted_wrt (\<lambda>i j. \<not> event_pos ReturnEvent events j < event_pos CallEvent events i) ids \<and>
    legal_events (Step model) events (Init model) ids"
proof -
  let ?g = "\<lambda>i. nat (f i)"
  have pos: "0 \<le> f i" if "i \<in> event_ids events" for i using that f by (auto simp: numbers_def bij_betw_def)
  have img: "?g ` event_ids events = {..<card (event_ids events)}"
  proof -
    have "f ` event_ids events = {0..<int (card (event_ids events))}" using f by (simp add: numbers_def bij_betw_def)
    then have "nat ` f ` event_ids events = nat ` {0..<int (card (event_ids events))}" by simp
    moreover have "nat ` {0..<int n} = {..<n}" for n by (auto simp: image_iff intro!: bexI [of _ "int _"])
    ultimately show ?thesis by (simp add: image_comp comp_def)
  qed
  have inj: "inj_on ?g (event_ids events)"
  proof (rule inj_onI)
    fix x y assume xy: "x \<in> event_ids events" "y \<in> event_ids events" and "?g x = ?g y"
    with pos have "f x = f y" by (metis int_nat_eq)
    moreover have "inj_on f (event_ids events)" using f by (simp add: numbers_def bij_betw_def)
    ultimately show "x = y" using xy by (simp add: inj_on_def)
  qed
  have "distinct (map ?g ids) \<longleftrightarrow> distinct ids"
    using inj_on_subset [OF inj sub] by (simp add: distinct_map)
  moreover have "set (map ?g ids) = {..<op_count (event_entries events)} \<longleftrightarrow> set ids = event_ids events"
    using inj_on_image_eq_iff [OF inj sub order.refl] by (simp add: event_count [OF w] img [symmetric])
  moreover have "sorted_wrt (\<lambda>i j. \<not> event_pos ReturnEvent events j < event_pos CallEvent events i) ids \<longleftrightarrow>
      sorted_wrt (\<lambda>i j. \<not> precedes (event_entries events) j i) (map ?g ids)"
  proof (rule sorted_wrt_map_cong)
    fix i j assume "i \<in> set ids" "j \<in> set ids"
    with sub have ij: "i \<in> event_ids events" "j \<in> event_ids events" by auto
    with pos have n: "f i = int (?g i)" "f j = int (?g j)" by simp_all
    show "(\<not> event_pos ReturnEvent events j < event_pos CallEvent events i) \<longleftrightarrow>
        (\<not> precedes (event_entries events) (?g j) (?g i))"
      unfolding precedes_def event_positions(1) [OF f ij(1) n(1)] event_positions(2) [OF f ij(2) n(2)] ..
  qed
  ultimately show ?thesis using event_legal [OF w f sub, of model "Init model"] by (simp add: is_linearization_def)
qed

lemma event_entries_linearizable:
  assumes w: "wf_events events"
  shows "linearizable model (event_entries events) \<longleftrightarrow> linearizable_events (Step model) (Init model) events"
proof -
  obtain f where f: "numbers f events" using numbers_exists by blast
  let ?g = "\<lambda>i. nat (f i)"
  show ?thesis
  proof
    assume "linearizable model (event_entries events)"
    then obtain ks where ks: "is_linearization model (event_entries events) ks" by (auto simp: linearizable_def)
    have "\<exists>ids. set ids \<subseteq> event_ids events \<and> ks = map ?g ids"
    proof -
      have "k \<in> ?g ` event_ids events" if k: "k \<in> set ks" for k
      proof -
        have "k < op_count (event_entries events)" using ks k by (auto simp: is_linearization_def)
        then obtain i where "i \<in> event_ids events" "f i = int k" by (rule numbered_id [OF w f])
        then show ?thesis by (intro image_eqI [of _ _ i]) simp_all
      qed
      then have "ks \<in> lists (?g ` event_ids events)" by auto
      then show ?thesis by (auto simp: lists_image)
    qed
    then obtain ids where ids: "set ids \<subseteq> event_ids events" "ks = map ?g ids" by blast
    with ks event_linearization [OF w f ids(1)] show "linearizable_events (Step model) (Init model) events"
      unfolding linearizable_events_def by blast
  next
    assume "linearizable_events (Step model) (Init model) events"
    then obtain ids where ids: "distinct ids \<and> set ids = event_ids events \<and>
        sorted_wrt (\<lambda>i j. \<not> event_pos ReturnEvent events j < event_pos CallEvent events i) ids \<and>
        legal_events (Step model) events (Init model) ids" by (auto simp: linearizable_events_def)
    then have "set ids \<subseteq> event_ids events" by simp
    from event_linearization [OF w f this] ids show "linearizable model (event_entries events)"
      unfolding linearizable_def by blast
  qed
qed

section \<open>The check\<close>

definition events_fuel :: "nat \<Rightarrow> nat" where
  "events_fuel n = n * (n + 1) ^ (n div 2) + 1"

text \<open>A partition the search can decide.\<close>

definition small_events :: "nat \<Rightarrow> ('i, 'o) Event list \<Rightarrow> bool" where
  "small_events fuel p \<longleftrightarrow> wf_events p \<and> length p < 2 ^ 63 \<and> events_fuel (length p) \<le> fuel"

lemma search_events:
  assumes "small_events fuel p" and "Equal_sound model"
  shows "\<exists>lg. checkSingle fuel model (convertEntries (renumber p)) ci (\<lambda>_. False) =
    Some (Inr (linearizable_events (Step model) (Init model) p, lg))"
proof -
  have w: "wf_events p" and l: "length (event_entries p) < 2 ^ 63"
    and f: "check_fuel (event_entries p) \<le> fuel"
    using assms(1) by (simp_all add: small_events_def length_event_entries check_fuel_def events_fuel_def op_count_def)
  from checkSingle_decides [OF event_entries_wf [OF w] l assms(2) f, of ci]
    event_entries_linearizable [OF w, of model]
  show ?thesis by (auto simp: event_entries_def)
qed

text \<open>C15: \<open>CheckEvents\<close> decides whether every partition of a list of events is linearizable, in whatever order
  the searches finish and whatever ids the events carry. Every id of a partition has one call with an
  input and, later, one return with an output.\<close>

theorem CheckEvents_decides:
  assumes "Equal_sound model" and parts: "the (PartitionEvent (fillDefault model)) history = parts" "parts \<noteq> []"
    and small: "list_all (small_events fuel) parts"
    and order: "distinct order" "set order = {..<length parts}"
  shows "CheckEvents fuel model history order =
    Some (Inr (list_all (linearizable_events (Step model) (Init model)) parts))"
proof -
  let ?ok = "\<lambda>i. linearizable_events (Step model) (Init model) (parts ! i)"
  let ?rs = "map (\<lambda>sub. checkSingle fuel (fillDefault model) sub False (\<lambda>_. False))
    (map (\<lambda>sub. convertEntries (renumber sub)) parts)"
  have "\<exists>lg. ?rs ! i = Some (Inr (?ok i, lg))" if "i < length parts" for i
    using search_events [of fuel "parts ! i" "fillDefault model" False] assms(1) small that
    by (simp add: Equal_sound_fillDefault list_all_length)
  then have "\<forall>i \<in> set order. i < length ?rs \<and> (\<exists>lg. ?rs ! i = Some (Inr (?ok i, lg)))"
    using order(2) by simp
  moreover have "0 + length order = length ?rs"
    using distinct_card [OF order(1)] order(2) by simp
  moreover have "0 \<in> set order" unfolding order(2) using parts(2) by simp
  then have "order \<noteq> []" by (metis empty_iff list.set(1))
  ultimately have "collect ?rs False True 0 (map Result order) = Some (Inr (\<forall>i \<in> set order. ?ok i, False))"
    by (rule collect_all)
  moreover have "(\<forall>i \<in> set order. ?ok i) \<longleftrightarrow> list_all (linearizable_events (Step model) (Init model)) parts"
    unfolding order(2) by (auto simp: list_all_length)
  ultimately show ?thesis
    by (simp add: CheckEvents_def checkEvents_def checkParallel_def parts(1) verdict_def Let_def)
qed

text \<open>A put to one key, and then a get of another key that has no value yet. The key-value model has no
  partition of events, so the check sees one string for both keys and refuses the history.\<close>

definition two_keys :: "(KvInput, KvOutput) Event list" where
  "two_keys =
     [\<lparr>Event_ClientId = 0, Event_Kind = CallEvent,
       Event_Value = Inl \<lparr>KvInput_Op = 1, KvInput_Key = ''a'', KvInput_Value = ''x''\<rparr>, Event_Id = 7\<rparr>,
      \<lparr>Event_ClientId = 0, Event_Kind = ReturnEvent, Event_Value = Inr \<lparr>KvOutput_Value = []\<rparr>, Event_Id = 7\<rparr>,
      \<lparr>Event_ClientId = 1, Event_Kind = CallEvent,
       Event_Value = Inl \<lparr>KvInput_Op = 0, KvInput_Key = ''b'', KvInput_Value = []\<rparr>, Event_Id = 3\<rparr>,
      \<lparr>Event_ClientId = 1, Event_Kind = ReturnEvent, Event_Value = Inr \<lparr>KvOutput_Value = []\<rparr>, Event_Id = 3\<rparr>]"

theorem CheckEvents_decides_witness:
  "CheckEvents (events_fuel 4) KvModel two_keys [0] = Some (Inr False)"
proof -
  have parts: "the (PartitionEvent (fillDefault KvModel)) two_keys = [two_keys]"
    by (simp add: fillDefault_def KvModel_def NoPartitionEvent_def)
  have pos: "event_pos CallEvent two_keys 7 = 0" "event_pos ReturnEvent two_keys 7 = 1"
    "event_pos CallEvent two_keys 3 = 2" "event_pos ReturnEvent two_keys 3 = 3"
    by (simp_all add: event_pos_def two_keys_def)
  have "wf_events two_keys"
    by (simp add: wf_events_def event_value_def event_pos_def two_keys_def)
  moreover have l: "length two_keys = 4" by (simp add: two_keys_def)
  ultimately have small: "list_all (small_events (events_fuel 4)) [two_keys]" by (simp add: small_events_def l)
  have "\<not> linearizable_events kv_Step [] two_keys"
  proof
    assume "linearizable_events kv_Step [] two_keys"
    then obtain ids where d: "distinct ids" and m: "set ids = {7, 3}"
      and o: "sorted_wrt (\<lambda>i j. \<not> event_pos ReturnEvent two_keys j < event_pos CallEvent two_keys i) ids"
      and l: "legal_events kv_Step two_keys [] ids"
      by (auto simp: linearizable_events_def event_ids_def two_keys_def)
    have "length ids = 2" using distinct_card [OF d] m by simp
    then obtain i j where ids: "ids = [i, j]" by (auto simp: numeral_2_eq_2 length_Suc_conv)
    with d m have "ids = [7, 3] \<or> ids = [3, 7]" by auto
    then show False
    proof
      assume "ids = [7, 3]"
      with l show False by (simp add: event_value_def pos) (simp add: two_keys_def kv_Step_def)
    next
      assume "ids = [3, 7]"
      with o show False by (simp add: pos)
    qed
  qed
  then show ?thesis
    using CheckEvents_decides [OF KvModel_Equal_sound parts _ small, of "[0]"]
    by (simp add: kv_step_simps lessThan_Suc)
qed

end
