(* ===== verification/Porc_Visual.thy ===== *)
theory Porc_Visual
  imports Porc_Properties
begin

text \<open>
  The verbose checks of \<open>porcupine.go\<close>, which return the partial linearizations with the verdict, and
  \<open>computeVisualizationData\<close> of \<open>visualization.go\<close>, which replays them. Writing the page (JSON and the
  HTML template) is not modelled.
\<close>

section \<open>The information of a check\<close>

record ('i, 'o) linearizationInfo =
  info_history :: "('i, 'o) entry list list"
  partialLinearizations :: "int list list list"

text \<open>
  The flag that the search of partition \<open>i\<close> finds in its turns: only a timeout sets it when information
  is collected, and a result received before the timeout is that of an undisturbed search. \<open>kills i t\<close>
  is what the other searches find.
\<close>

definition kill_flag :: "arrival list \<Rightarrow> (nat \<Rightarrow> nat \<Rightarrow> bool) \<Rightarrow> nat \<Rightarrow> nat \<Rightarrow> bool" where
  "kill_flag arrivals kills i t \<longleftrightarrow>
     Timeout \<in> set arrivals \<and> Result i \<notin> set (takeWhile (\<lambda>a. a \<noteq> Timeout) arrivals) \<and> kills i t"

text \<open>Waiting for all searches: \<open>None\<close> when one does not return.\<close>

fun wait_all :: "'a go option list \<Rightarrow> 'a list go option" where
  "wait_all [] = Some (Inr [])"
| "wait_all (r # rs) =
     (case r of
        None \<Rightarrow> None
      | Some (Inl e) \<Rightarrow> Some (Inl e)
      | Some (Inr x) \<Rightarrow> map_option (\<lambda>m. go_bind m (\<lambda>xs. Inr (x # xs))) (wait_all rs))"

text \<open>
  The set of the recorded sequences of one search, in the order \<open>mapOrder\<close> in which the map is iterated.
  The code tells sequences apart by their address; no turn allocates one equal to another that is
  recorded, since it would improve nothing.
\<close>

definition partials_of :: "(int list list \<Rightarrow> int list list) \<Rightarrow> int list option list \<Rightarrow> int list list" where
  "partials_of mapOrder lg = mapOrder (remdups (map the (filter (\<lambda>v. v \<noteq> None) lg)))"

definition collectInfo ::
  "nat \<Rightarrow> (int list list \<Rightarrow> int list list) \<Rightarrow> (nat \<Rightarrow> nat \<Rightarrow> bool) \<Rightarrow> ('i, 'o, 'st) Model \<Rightarrow>
     ('i, 'o) entry list list \<Rightarrow> arrival list \<Rightarrow> ('i, 'o) linearizationInfo go option" where
  "collectInfo fuel mapOrder kills model history arrivals =
     map_option (\<lambda>m. go_bind m (\<lambda>results.
         Inr \<lparr>info_history = history,
              partialLinearizations = map (\<lambda>(good, lg). partials_of mapOrder lg) results\<rparr>))
       (wait_all (map (\<lambda>i. checkSingle fuel model (history ! i) True (kill_flag arrivals kills i))
         [0..<length history]))"

text \<open>\<open>checkParallel\<close> with \<open>computeInfo\<close>: the verdict of the select loop, then the information.\<close>

definition checkParallelInfo ::
  "nat \<Rightarrow> (int list list \<Rightarrow> int list list) \<Rightarrow> (nat \<Rightarrow> nat \<Rightarrow> bool) \<Rightarrow> ('i, 'o, 'st) Model \<Rightarrow>
     ('i, 'o) entry list list \<Rightarrow> arrival list \<Rightarrow> (CheckResult \<times> ('i, 'o) linearizationInfo) go option" where
  "checkParallelInfo fuel mapOrder kills model history arrivals =
     (case checkParallel fuel model history True arrivals of
        None \<Rightarrow> None
      | Some (Inl e) \<Rightarrow> Some (Inl e)
      | Some (Inr res) \<Rightarrow>
          map_option (\<lambda>m. go_bind m (\<lambda>linfo. Inr (res, linfo)))
            (collectInfo fuel mapOrder kills model history arrivals))"

definition CheckOperationsVerbose ::
  "nat \<Rightarrow> (('i, 'o) entry list \<Rightarrow> ('i, 'o) entry list) \<Rightarrow> (int list list \<Rightarrow> int list list) \<Rightarrow>
     (nat \<Rightarrow> nat \<Rightarrow> bool) \<Rightarrow> ('i, 'o, 'st) Model \<Rightarrow> ('i, 'o) Operation list \<Rightarrow> arrival list \<Rightarrow>
     (CheckResult \<times> ('i, 'o) linearizationInfo) go option" where
  "CheckOperationsVerbose fuel sortByTime mapOrder kills model0 history arrivals =
     (let model = fillDefault model0;
          partitions = the (Partition model) history;
          l = map (makeEntries sortByTime) partitions
      in checkParallelInfo fuel mapOrder kills model l arrivals)"

definition CheckEventsVerbose ::
  "nat \<Rightarrow> (int list list \<Rightarrow> int list list) \<Rightarrow> (nat \<Rightarrow> nat \<Rightarrow> bool) \<Rightarrow> ('i, 'o, 'st) Model \<Rightarrow>
     ('i, 'o) Event list \<Rightarrow> arrival list \<Rightarrow> (CheckResult \<times> ('i, 'o) linearizationInfo) go option" where
  "CheckEventsVerbose fuel mapOrder kills model0 history arrivals =
     (let model = fillDefault model0;
          partitions = the (PartitionEvent model) history;
          l = map (\<lambda>sub. convertEntries (renumber sub)) partitions
      in checkParallelInfo fuel mapOrder kills model l arrivals)"

section \<open>The data of the page\<close>

record historyElement =
  HE_ClientId :: int
  HE_Start :: int
  HE_End :: int
  HE_Description :: string

record linearizationStep =
  Step_Index :: int
  StateDescription :: string

type_synonym partialLinearization = "linearizationStep list"

record partitionVisualizationData =
  PV_History :: "historyElement list"
  PV_PartialLinearizations :: "partialLinearization list"
  PV_Largest :: "int \<rightharpoonup> int"

text \<open>
  One turn of the loop over the entries of a partition. \<open>describeOp\<close> is \<open>model.DescribeOperation\<close> on
  two values of type \<open>interface{}\<close>, the first of them nil when no call was seen.
\<close>

type_synonym ('i, 'o) visual_values = "(int \<rightharpoonup> 'i + 'o) \<times> (int \<rightharpoonup> 'i + 'o)"

definition visual_entry ::
  "(('i + 'o) option \<Rightarrow> 'i + 'o \<Rightarrow> string go) \<Rightarrow> ('i, 'o) entry \<Rightarrow>
     historyElement list \<times> ('i, 'o) visual_values \<Rightarrow> (historyElement list \<times> ('i, 'o) visual_values) go" where
  "visual_entry describeOp elem s =
     (case s of (hist, callValue, returnValue) \<Rightarrow>
        let ident = entry_id elem in
        go_bind (go_index hist ident) (\<lambda>el.
          case entry_kind elem of
            callEntry \<Rightarrow>
              Inr (hist[nat ident := el\<lparr>HE_ClientId := entry_clientId elem, HE_Start := entry_time elem\<rparr>],
                   callValue(ident \<mapsto> entry_value elem), returnValue)
          | returnEntry \<Rightarrow>
              go_bind (describeOp (callValue ident) (entry_value elem)) (\<lambda>d.
                Inr (hist[nat ident := el\<lparr>HE_End := entry_time elem, HE_Description := d\<rparr>],
                     callValue, returnValue(ident \<mapsto> entry_value elem)))))"

fun visual_entries ::
  "(('i + 'o) option \<Rightarrow> 'i + 'o \<Rightarrow> string go) \<Rightarrow> ('i, 'o) entry list \<Rightarrow>
     historyElement list \<times> ('i, 'o) visual_values \<Rightarrow> (historyElement list \<times> ('i, 'o) visual_values) go" where
  "visual_entries describeOp [] s = Inr s"
| "visual_entries describeOp (elem # es) s =
     go_bind (visual_entry describeOp elem s) (\<lambda>s'. visual_entries describeOp es s')"

text \<open>
  Replaying a partial linearization of length \<open>len\<close>, the one with index \<open>i\<close>; a step that the model
  refuses is a panic. \<open>largest\<close> is the pair of maps \<open>largestSize\<close> and \<open>largestIndex\<close>.
\<close>

type_synonym largest_maps = "(int \<rightharpoonup> nat) \<times> (int \<rightharpoonup> int)"

definition visual_largest :: "nat \<Rightarrow> nat \<Rightarrow> int \<Rightarrow> largest_maps \<Rightarrow> largest_maps" where
  "visual_largest i len histId largest =
     (case largest of (sz, index) \<Rightarrow>
        if go_get 0 sz histId < len then (sz(histId \<mapsto> len), index(histId \<mapsto> int i)) else (sz, index))"

fun visual_steps ::
  "('i, 'o, 'st) Model \<Rightarrow> ('st \<Rightarrow> string) \<Rightarrow> ('i, 'o) visual_values \<Rightarrow> nat \<Rightarrow> nat \<Rightarrow> int list \<Rightarrow> 'st \<Rightarrow>
     largest_maps \<Rightarrow> (partialLinearization \<times> largest_maps) go" where
  "visual_steps model describeState vals i len [] state largest = Inr ([], largest)"
| "visual_steps model describeState vals i len (histId # hs) state largest =
     go_bind (step_values model state (fst vals histId) (snd vals histId)) (\<lambda>(good, state').
       if \<not> good then Inl Panic
       else go_bind (visual_steps model describeState vals i len hs state' (visual_largest i len histId largest))
         (\<lambda>(steps, largest'). Inr (\<lparr>Step_Index = histId, StateDescription = describeState state'\<rparr> # steps, largest')))"

fun visual_partials ::
  "('i, 'o, 'st) Model \<Rightarrow> ('st \<Rightarrow> string) \<Rightarrow> ('i, 'o) visual_values \<Rightarrow> nat \<Rightarrow> int list list \<Rightarrow>
     largest_maps \<Rightarrow> (partialLinearization list \<times> largest_maps) go" where
  "visual_partials model describeState vals i [] largest = Inr ([], largest)"
| "visual_partials model describeState vals i (partial # partials) largest =
     go_bind (visual_steps model describeState vals i (length partial) partial (Init model) largest)
       (\<lambda>(linearization, largest').
       go_bind (visual_partials model describeState vals (i + 1) partials largest')
         (\<lambda>(linearizations, largest''). Inr (linearization # linearizations, largest'')))"

text \<open>\<open>sortByLength\<close> is \<open>sort.Slice\<close> by decreasing length, which is not stable.\<close>

definition zero_historyElement :: historyElement where
  "zero_historyElement = \<lparr>HE_ClientId = 0, HE_Start = 0, HE_End = 0, HE_Description = []\<rparr>"

definition visual_partition ::
  "('i, 'o, 'st) Model \<Rightarrow> (('i + 'o) option \<Rightarrow> 'i + 'o \<Rightarrow> string go) \<Rightarrow> ('st \<Rightarrow> string) \<Rightarrow>
     (int list list \<Rightarrow> int list list) \<Rightarrow> ('i, 'o) entry list \<Rightarrow> int list list \<Rightarrow>
     partitionVisualizationData go" where
  "visual_partition model describeOp describeState sortByLength entries partials =
     go_bind (visual_entries describeOp entries
         (replicate (length entries div 2) zero_historyElement, Map.empty, Map.empty)) (\<lambda>(hist, vals).
     go_bind (visual_partials model describeState vals 0 (sortByLength partials) (Map.empty, Map.empty))
       (\<lambda>(linearizations, sz, index).
         Inr \<lparr>PV_History = hist, PV_PartialLinearizations = linearizations, PV_Largest = index\<rparr>))"

fun visual_partitions ::
  "('i, 'o, 'st) Model \<Rightarrow> (('i + 'o) option \<Rightarrow> 'i + 'o \<Rightarrow> string go) \<Rightarrow> ('st \<Rightarrow> string) \<Rightarrow>
     (int list list \<Rightarrow> int list list) \<Rightarrow> ('i, 'o) entry list list \<Rightarrow> int list list list \<Rightarrow>
     partitionVisualizationData list go" where
  "visual_partitions model describeOp describeState sortByLength [] partials = Inr []"
| "visual_partitions model describeOp describeState sortByLength (es # history) partials =
     (case partials of
        [] \<Rightarrow> Inl Panic
      | ps # partials' \<Rightarrow>
          go_bind (visual_partition model describeOp describeState sortByLength es ps) (\<lambda>d.
          go_bind (visual_partitions model describeOp describeState sortByLength history partials') (\<lambda>ds.
            Inr (d # ds))))"

definition computeVisualizationData ::
  "('i, 'o, 'st) Model \<Rightarrow> (('i + 'o) option \<Rightarrow> 'i + 'o \<Rightarrow> string go) \<Rightarrow> ('st \<Rightarrow> string) \<Rightarrow>
     (int list list \<Rightarrow> int list list) \<Rightarrow> ('i, 'o) linearizationInfo \<Rightarrow>
     partitionVisualizationData list go" where
  "computeVisualizationData model0 describeOp describeState sortByLength linfo =
     visual_partitions (fillDefault model0) describeOp describeState sortByLength
       (info_history linfo) (partialLinearizations linfo)"

text \<open>
  Writing the page. \<open>marshal\<close> is the JSON of the data (its error is overwritten by the next one), and
  \<open>fprintf_html\<close> writes the template around it to the output and says whether there was an error. \<open>create\<close>
  gives the file, or its error.
\<close>

definition Visualize ::
  "(partitionVisualizationData list \<Rightarrow> 'j) \<Rightarrow> ('j \<Rightarrow> 'w \<Rightarrow> 'w \<times> 'e option) \<Rightarrow> ('i, 'o, 'st) Model \<Rightarrow>
     (('i + 'o) option \<Rightarrow> 'i + 'o \<Rightarrow> string go) \<Rightarrow> ('st \<Rightarrow> string) \<Rightarrow> (int list list \<Rightarrow> int list list) \<Rightarrow>
     ('i, 'o) linearizationInfo \<Rightarrow> 'w \<Rightarrow> ('w \<times> 'e option) go" where
  "Visualize marshal fprintf_html model describeOp describeState sortByLength linfo output =
     go_bind (computeVisualizationData model describeOp describeState sortByLength linfo) (\<lambda>data.
       Inr (fprintf_html (marshal data) output))"

definition VisualizePath ::
  "(partitionVisualizationData list \<Rightarrow> 'j) \<Rightarrow> ('j \<Rightarrow> 'w \<Rightarrow> 'w \<times> 'e option) \<Rightarrow> ('e + 'w) \<Rightarrow> ('i, 'o, 'st) Model \<Rightarrow>
     (('i + 'o) option \<Rightarrow> 'i + 'o \<Rightarrow> string go) \<Rightarrow> ('st \<Rightarrow> string) \<Rightarrow> (int list list \<Rightarrow> int list list) \<Rightarrow>
     ('i, 'o) linearizationInfo \<Rightarrow> ('w option \<times> 'e option) go" where
  "VisualizePath marshal fprintf_html create model describeOp describeState sortByLength linfo =
     (case create of
        Inl e \<Rightarrow> Inr (None, Some e)
      | Inr f \<Rightarrow> go_bind (Visualize marshal fprintf_html model describeOp describeState sortByLength linfo f)
          (\<lambda>(f', err). Inr (Some f', err)))"

text \<open>\<open>DescribeOperation\<close> of the key-value model on values of type \<open>interface{}\<close>.\<close>

fun kv_describe :: "(KvInput + KvOutput) option \<Rightarrow> KvInput + KvOutput \<Rightarrow> string go" where
  "kv_describe (Some (Inl inp)) (Inr out) = Inr (kv_DescribeOperation inp out)"
| "kv_describe _ _ = Inl Panic"

section \<open>The elements\<close>

lemma wf_pos:
  assumes w: "wf_entries es" and k: "k < op_count es"
  shows "call_pos es k < return_pos es k" "return_pos es k < length es"
    "entry_kind (es ! call_pos es k) = callEntry" "entry_id (es ! call_pos es k) = int k"
    "entry_value (es ! call_pos es k) = Inl (op_input es k)"
    "entry_kind (es ! return_pos es k) = returnEntry" "entry_id (es ! return_pos es k) = int k"
    "entry_value (es ! return_pos es k) = Inr (op_output es k)"
proof -
  from w k show pq: "call_pos es k < return_pos es k" "return_pos es k < length es"
    by (auto simp: wf_entries_def)
  from w k have v: "isl (entry_value (es ! call_pos es k))" "\<not> isl (entry_value (es ! return_pos es k))"
    by (auto simp: wf_entries_def)
  then show "entry_value (es ! call_pos es k) = Inl (op_input es k)"
    "entry_value (es ! return_pos es k) = Inr (op_output es k)"
    by (simp_all add: op_input_def op_output_def)
  have "call_of (es ! call_pos es k) k" "return_of (es ! return_pos es k) k"
    using pq takeWhile_pos [of "\<lambda>e. call_of e k" es] takeWhile_pos [of "\<lambda>e. return_of e k" es]
    by (simp_all add: call_pos_def return_pos_def)
  then show "entry_kind (es ! call_pos es k) = callEntry" "entry_id (es ! call_pos es k) = int k"
    "entry_kind (es ! return_pos es k) = returnEntry" "entry_id (es ! return_pos es k) = int k"
    by (simp_all add: call_of_def return_of_def)
qed

lemma wf_pos_inj:
  assumes "wf_entries es" and "i < op_count es" and "j < op_count es"
  shows "call_pos es i = call_pos es j \<longleftrightarrow> i = j" "return_pos es i = return_pos es j \<longleftrightarrow> i = j"
    "call_pos es i \<noteq> return_pos es j"
  using wf_pos(3,4,6,7) [OF assms(1,2)] wf_pos(3,4,6,7) [OF assms(1,3)]
  by (metis entryKind.distinct(1) of_nat_eq_iff)+

lemma wf_pos_cover:
  assumes w: "wf_entries es" and p: "p < length es"
  obtains k where "k < op_count es" and "p = call_pos es k \<or> p = return_pos es k"
proof -
  have "length es - 1 - p < length es" using p by simp
  from wf_cover [OF w this] obtain k where k: "k < op_count es"
    "length es - 1 - p = call_at es k \<or> length es - 1 - p = return_at es k" by blast
  moreover have "call_pos es k < length es" "return_pos es k < length es"
    using wf_pos(1,2) [OF w k(1)] by simp_all
  ultimately have "p = call_pos es k \<or> p = return_pos es k"
    using p by (auto simp: call_at_def return_at_def)
  with that k(1) show ?thesis by blast
qed

text \<open>What the loop has filled in after \<open>p\<close> entries.\<close>

definition element_after ::
  "('i \<Rightarrow> 'o \<Rightarrow> string) \<Rightarrow> ('i, 'o) entry list \<Rightarrow> nat \<Rightarrow> nat \<Rightarrow> historyElement" where
  "element_after d es p k =
     (let c = es ! call_pos es k; r = es ! return_pos es k in
      \<lparr>HE_ClientId = (if call_pos es k < p then entry_clientId c else 0),
       HE_Start = (if call_pos es k < p then entry_time c else 0),
       HE_End = (if return_pos es k < p then entry_time r else 0),
       HE_Description = (if return_pos es k < p then d (op_input es k) (op_output es k) else [])\<rparr>)"

definition values_after :: "('i, 'o) entry list \<Rightarrow> nat \<Rightarrow> ('i, 'o) visual_values" where
  "values_after es p =
     (\<lambda>i. if 0 \<le> i \<and> nat i < op_count es \<and> call_pos es (nat i) < p then Some (Inl (op_input es (nat i))) else None,
      \<lambda>i. if 0 \<le> i \<and> nat i < op_count es \<and> return_pos es (nat i) < p then Some (Inr (op_output es (nat i))) else None)"

definition visual_after ::
  "('i \<Rightarrow> 'o \<Rightarrow> string) \<Rightarrow> ('i, 'o) entry list \<Rightarrow> nat \<Rightarrow> historyElement list \<times> ('i, 'o) visual_values" where
  "visual_after d es p = (map (element_after d es p) [0..<op_count es], values_after es p)"

lemma visual_after_eq:
  "visual_after d es p =
     (map (element_after d es p) [0..<op_count es], fst (values_after es p), snd (values_after es p))"
  by (simp add: visual_after_def)

text \<open>The description does not fail on an input and an output.\<close>

definition describes ::
  "(('i + 'o) option \<Rightarrow> 'i + 'o \<Rightarrow> string go) \<Rightarrow> ('i \<Rightarrow> 'o \<Rightarrow> string) \<Rightarrow> bool" where
  "describes f d \<longleftrightarrow> (\<forall>i out. f (Some (Inl i)) (Inr out) = Inr (d i out))"

lemma visual_entries_snoc:
  "visual_entries f (xs @ [e]) s = go_bind (visual_entries f xs s) (visual_entry f e)"
proof (induction xs arbitrary: s)
  case Nil
  show ?case by (cases "visual_entry f e s") simp_all
next
  case (Cons x xs)
  then show ?case by (cases "visual_entry f x s") simp_all
qed

lemma visual_entry_call:
  assumes w: "wf_entries es" and k: "k < op_count es"
  shows "visual_entry f (es ! call_pos es k) (visual_after d es (call_pos es k)) =
    Inr (visual_after d es (Suc (call_pos es k)))"
proof -
  note e = wf_pos [OF w k]
  have "(map (element_after d es (call_pos es k)) [0..<op_count es])
      [k := (element_after d es (call_pos es k) k)
        \<lparr>HE_ClientId := entry_clientId (es ! call_pos es k), HE_Start := entry_time (es ! call_pos es k)\<rparr>] =
      map (element_after d es (Suc (call_pos es k))) [0..<op_count es]" (is "?l = ?r")
  proof (rule nth_equalityI)
    fix j assume "j < length ?l"
    then have j: "j < op_count es" by simp
    show "?l ! j = ?r ! j"
      using wf_pos_inj(1) [OF w j k] wf_pos_inj(3) [OF w k j] e(1) j k
      by (auto simp: nth_list_update_if element_after_def Let_def less_Suc_eq)
  qed simp
  moreover have "(fst (values_after es (call_pos es k)))(int k \<mapsto> Inl (op_input es k)) =
      fst (values_after es (Suc (call_pos es k)))"
    using wf_pos_inj(1) [OF w _ k] k by (auto simp: values_after_def less_Suc_eq fun_eq_iff)
  moreover have "snd (values_after es (Suc (call_pos es k))) = snd (values_after es (call_pos es k))"
    using wf_pos_inj(3) [OF w k, THEN not_sym] by (auto simp: values_after_def less_Suc_eq fun_eq_iff)
  ultimately show ?thesis
    using e k by (simp add: visual_entry_def visual_after_eq go_index_def Let_def split_beta)
qed

lemma visual_entry_return:
  assumes w: "wf_entries es" and k: "k < op_count es"
    and f: "describes f d"
  shows "visual_entry f (es ! return_pos es k) (visual_after d es (return_pos es k)) =
    Inr (visual_after d es (Suc (return_pos es k)))"
proof -
  note e = wf_pos [OF w k]
  have "(map (element_after d es (return_pos es k)) [0..<op_count es])
      [k := (element_after d es (return_pos es k) k)
        \<lparr>HE_End := entry_time (es ! return_pos es k), HE_Description := d (op_input es k) (op_output es k)\<rparr>] =
      map (element_after d es (Suc (return_pos es k))) [0..<op_count es]" (is "?l = ?r")
  proof (rule nth_equalityI)
    fix j assume "j < length ?l"
    then have j: "j < op_count es" by simp
    show "?l ! j = ?r ! j"
      using wf_pos_inj(2) [OF w j k] wf_pos_inj(3) [OF w j k] e(1) j k
      by (auto simp: nth_list_update_if element_after_def Let_def less_Suc_eq)
  qed simp
  moreover have "(snd (values_after es (return_pos es k)))(int k \<mapsto> Inr (op_output es k)) =
      snd (values_after es (Suc (return_pos es k)))"
    using wf_pos_inj(2) [OF w _ k] k by (auto simp: values_after_def less_Suc_eq fun_eq_iff)
  moreover have "fst (values_after es (Suc (return_pos es k))) = fst (values_after es (return_pos es k))"
    using wf_pos_inj(3) [OF w _ k] by (auto simp: values_after_def less_Suc_eq fun_eq_iff)
  moreover have "fst (values_after es (return_pos es k)) (int k) = Some (Inl (op_input es k))"
    using e(1) k by (simp add: values_after_def)
  ultimately show ?thesis
    using e k f by (simp add: visual_entry_def visual_after_eq go_index_def Let_def describes_def split_beta)
qed

lemma visual_entries_spec:
  assumes w: "wf_entries es" and f: "describes f d"
  shows "visual_entries f es (replicate (op_count es) zero_historyElement, Map.empty, Map.empty) =
    Inr (visual_after d es (length es))"
proof -
  have "visual_entries f (take p es) (visual_after d es 0) = Inr (visual_after d es p)" if "p \<le> length es" for p
    using that
  proof (induction p)
    case (Suc p)
    then have p: "p < length es" by simp
    obtain k where k: "k < op_count es" "p = call_pos es k \<or> p = return_pos es k"
      by (rule wf_pos_cover [OF w p])
    from k(2) have "visual_entry f (es ! p) (visual_after d es p) = Inr (visual_after d es (Suc p))"
      using visual_entry_call [OF w k(1)] visual_entry_return [OF w k(1) f] by auto
    with Suc show ?case by (simp add: take_Suc_conv_app_nth [OF p] visual_entries_snoc)
  qed simp
  from this [of "length es"] have "visual_entries f es (visual_after d es 0) = Inr (visual_after d es (length es))"
    by simp
  moreover have "visual_after d es 0 = (replicate (op_count es) zero_historyElement, Map.empty, Map.empty)"
    by (auto simp: visual_after_def values_after_def element_after_def zero_historyElement_def
        map_replicate_const fun_eq_iff intro: nth_equalityI)
  ultimately show ?thesis by simp
qed

section \<open>The replay\<close>

lemma values_after_all:
  assumes w: "wf_entries es" and k: "k < op_count es"
  shows "step_values model st (fst (values_after es (length es)) (int k))
      (snd (values_after es (length es)) (int k)) = Inr (step_op model es st k)"
  using wf_pos(1,2) [OF w k] k by (simp add: values_after_def step_op_def)

lemma visual_steps_legal:
  assumes w: "wf_entries es" and "legal model es st ks" and "set ks \<subseteq> {..<op_count es}"
  shows "\<exists>steps. visual_steps model ds (values_after es (length es)) i len (map int ks) st largest =
      Inr (steps, fold (visual_largest i len) (map int ks) largest) \<and>
    map Step_Index steps = map int ks"
  using assms(2,3)
proof (induction ks arbitrary: st largest)
  case (Cons k ks)
  then have k: "k < op_count es" and good: "fst (step_op model es st k)" by simp_all
  from Cons obtain steps where "visual_steps model ds (values_after es (length es)) i len (map int ks)
      (snd (step_op model es st k)) (visual_largest i len (int k) largest) =
      Inr (steps, fold (visual_largest i len) (map int ks) (visual_largest i len (int k) largest))"
    "map Step_Index steps = map int ks" by fastforce
  with good show ?case by (simp add: values_after_all [OF w k] split_beta)
qed simp

text \<open>What the maps hold after some of the partial linearizations.\<close>

definition largest_ok :: "int list list \<Rightarrow> largest_maps \<Rightarrow> bool" where
  "largest_ok ps largest \<longleftrightarrow>
     (\<forall>h. case snd largest h of
        None \<Rightarrow> fst largest h = None \<and> (\<forall>q \<in> set ps. h \<notin> set q)
      | Some j \<Rightarrow> \<exists>m < length ps. j = int m \<and> h \<in> set (ps ! m) \<and> fst largest h = Some (length (ps ! m)) \<and>
          (\<forall>q \<in> set ps. h \<in> set q \<longrightarrow> length q \<le> length (ps ! m)))"

lemma visual_largest_fold:
  fixes hs :: "int list"
  shows "fst (fold (visual_largest i len) hs largest) h =
      (if h \<in> set hs \<and> go_get 0 (fst largest) h < len then Some len else fst largest h) \<and>
    snd (fold (visual_largest i len) hs largest) h =
      (if h \<in> set hs \<and> go_get 0 (fst largest) h < len then Some (int i) else snd largest h)"
proof (induction hs arbitrary: largest)
  case (Cons x hs)
  have "fst (visual_largest i len x largest) h =
      (if h = x \<and> go_get 0 (fst largest) h < len then Some len else fst largest h)"
    "snd (visual_largest i len x largest) h =
      (if h = x \<and> go_get 0 (fst largest) h < len then Some (int i) else snd largest h)"
    by (auto simp: visual_largest_def split_beta)
  with Cons [of "visual_largest i len x largest"] show ?case by (auto simp: go_get_def)
qed simp

lemma largest_ok_snoc:
  assumes ok: "largest_ok ps largest"
  shows "largest_ok (ps @ [q]) (fold (visual_largest (length ps) (length q)) q largest)"
  unfolding largest_ok_def
proof
  fix h
  let ?new = "fold (visual_largest (length ps) (length q)) q largest"
  let ?better = "h \<in> set q \<and> go_get 0 (fst largest) h < length q"
  note f = visual_largest_fold [of "length ps" "length q" q largest h]
  note h = ok [unfolded largest_ok_def, rule_format, of h]
  show "case snd ?new h of None \<Rightarrow> fst ?new h = None \<and> (\<forall>q' \<in> set (ps @ [q]). h \<notin> set q')
      | Some j \<Rightarrow> \<exists>m < length (ps @ [q]). j = int m \<and> h \<in> set ((ps @ [q]) ! m) \<and>
          fst ?new h = Some (length ((ps @ [q]) ! m)) \<and>
          (\<forall>q' \<in> set (ps @ [q]). h \<in> set q' \<longrightarrow> length q' \<le> length ((ps @ [q]) ! m))"
  proof (cases "snd largest h")
    case None
    with h have "fst largest h = None" "\<forall>q \<in> set ps. h \<notin> set q" by simp_all
    moreover from this have "?better \<longleftrightarrow> h \<in> set q" by (auto simp: go_get_def)
    ultimately show ?thesis using f None
      by (cases "h \<in> set q") (auto intro!: exI [of _ "length ps"])
  next
    case (Some j)
    with h obtain m where m: "m < length ps" "j = int m" "h \<in> set (ps ! m)"
      "fst largest h = Some (length (ps ! m))" "\<forall>q \<in> set ps. h \<in> set q \<longrightarrow> length q \<le> length (ps ! m)"
      by auto
    then have b: "?better \<longleftrightarrow> h \<in> set q \<and> length (ps ! m) < length q" by (simp add: go_get_def)
    show ?thesis
    proof (cases ?better)
      case True
      with b m(5) have "\<forall>q' \<in> set (ps @ [q]). h \<in> set q' \<longrightarrow> length q' \<le> length q" by fastforce
      with True f show ?thesis by (auto intro!: exI [of _ "length ps"])
    next
      case False
      with b m(5) have "\<forall>q' \<in> set (ps @ [q]). h \<in> set q' \<longrightarrow> length q' \<le> length (ps ! m)" by fastforce
      with False f m Some show ?thesis by (auto simp: nth_append intro!: exI [of _ m])
    qed
  qed
qed

text \<open>A list of sequences all of which are partial linearizations.\<close>

definition all_partial ::
  "('i, 'o, 'st) Model \<Rightarrow> ('i, 'o) entry list \<Rightarrow> int list list \<Rightarrow> bool" where
  "all_partial model es ps \<longleftrightarrow> (\<forall>p \<in> set ps. \<exists>ks. p = map int ks \<and> partial_linearization model es ks)"

lemma visual_partials_spec:
  assumes w: "wf_entries es" and "all_partial model es ps" and "largest_ok before largest"
  shows "\<exists>ls largest'. visual_partials model ds (values_after es (length es)) (length before) ps largest =
      Inr (ls, largest') \<and>
    map (map Step_Index) ls = ps \<and> largest_ok (before @ ps) largest'"
  using assms(2,3)
proof (induction ps arbitrary: before largest)
  case (Cons p ps)
  then obtain ks where ks: "p = map int ks" "partial_linearization model es ks"
    by (auto simp: all_partial_def)
  then have "legal model es (Init model) ks" "set ks \<subseteq> {..<op_count es}"
    by (simp_all add: partial_linearization_def)
  from visual_steps_legal [OF w this] obtain steps where
    steps: "visual_steps model ds (values_after es (length es)) (length before) (length p) p (Init model) largest =
      Inr (steps, fold (visual_largest (length before) (length p)) p largest)" "map Step_Index steps = p"
    unfolding ks(1) by blast
  have "all_partial model es ps" using Cons.prems(1) by (simp add: all_partial_def)
  from Cons.IH [OF this largest_ok_snoc [OF Cons.prems(2)], of p] steps show ?case by auto
qed simp

text \<open>What the page shows of a partition.\<close>

definition shows_partition ::
  "('i, 'o, 'st) Model \<Rightarrow> ('i \<Rightarrow> 'o \<Rightarrow> string) \<Rightarrow> ('i, 'o) entry list \<Rightarrow> ('i, 'o) Operation list \<Rightarrow>
     partitionVisualizationData \<Rightarrow> bool" where
  "shows_partition model d es ops pd \<longleftrightarrow>
     PV_History pd = map (\<lambda>x. \<lparr>HE_ClientId = Operation_ClientId x, HE_Start = Operation_Call x,
       HE_End = Operation_Return x, HE_Description = d (Operation_Input x) (Operation_Output x)\<rparr>) ops \<and>
     all_partial model es (map (map Step_Index) (PV_PartialLinearizations pd)) \<and>
     (\<exists>sz. largest_ok (map (map Step_Index) (PV_PartialLinearizations pd)) (sz, PV_Largest pd))"

lemma visual_partition_spec:
  assumes s: "sorts_by_time srt" and t: "proper_times ops" and f: "describes f d"
    and p: "all_partial model (makeEntries srt ops) (sortByLength ps)"
  shows "\<exists>pd. visual_partition model f ds sortByLength (makeEntries srt ops) ps = Inr pd \<and>
    shows_partition model d (makeEntries srt ops) ops pd \<and>
    map (map Step_Index) (PV_PartialLinearizations pd) = sortByLength ps"
proof -
  let ?es = "makeEntries srt ops"
  note w = makeEntries_wf [OF s t]
  have n: "op_count ?es = length ops" by (simp add: op_count_def makeEntries_length [OF s])
  have "visual_entries f ?es (replicate (length ?es div 2) zero_historyElement, Map.empty, Map.empty) =
      Inr (map (element_after d ?es (length ?es)) [0..<length ops], values_after ?es (length ?es))"
    using visual_entries_spec [OF w f] by (simp add: op_count_def [symmetric] n visual_after_def)
  moreover have "map (element_after d ?es (length ?es)) [0..<length ops] =
      map (\<lambda>x. \<lparr>HE_ClientId = Operation_ClientId x, HE_Start = Operation_Call x,
        HE_End = Operation_Return x, HE_Description = d (Operation_Input x) (Operation_Output x)\<rparr>) ops"
    by (rule nth_equalityI) (use makeEntries_nth [OF s] in
        \<open>auto simp: element_after_def op_input_def op_output_def call_entry_def return_entry_def\<close>)
  moreover have "largest_ok [] (Map.empty, Map.empty)" by (simp add: largest_ok_def)
  from visual_partials_spec [OF w p this, of ds] obtain ls largest' where
    "visual_partials model ds (values_after ?es (length ?es)) 0 (sortByLength ps) (Map.empty, Map.empty) =
      Inr (ls, largest')" "map (map Step_Index) ls = sortByLength ps" "largest_ok (sortByLength ps) largest'"
    by auto
  ultimately show ?thesis
    using p by (auto simp: visual_partition_def shows_partition_def split_beta intro!: exI [of _ "fst largest'"])
qed

end
