(* ===== verification/Porc_Page.thy ===== *)
theory Porc_Page
  imports Porc_Visual
begin

text \<open>
  A verbose check and its page, from end to end: the verdict comes, the recorded partial linearizations
  are sound and without a timeout the longest, and the page replays them without a panic.
\<close>

section \<open>The whole page\<close>

lemma partial_linearization_fillDefault [simp]:
  "partial_linearization (fillDefault model) es = partial_linearization model es"
proof -
  have "legal (fillDefault model) es st ks = legal model es st ks" for st ks
    by (induction ks arbitrary: st) (simp_all add: step_op_def)
  then show ?thesis by (simp add: partial_linearization_def fun_eq_iff)
qed

lemma shows_partition_fillDefault [simp]:
  "shows_partition (fillDefault model) d es ops pd = shows_partition model d es ops pd"
  by (simp add: shows_partition_def all_partial_def)

lemma wait_all_map:
  assumes "\<forall>x \<in> set xs. f x = Some (Inr (g x))"
  shows "wait_all (map f xs) = Some (Inr (map g xs))"
  using assms by (induction xs) simp_all

text \<open>A select loop that collects information and gets the timeout or all results is left.\<close>

lemma collect_verbose:
  assumes "\<forall>i. Result i \<in> set arrivals \<longrightarrow> (\<exists>x. rs ! i = Some (Inr x))"
    and "Timeout \<in> set arrivals \<or> arrivals \<noteq> [] \<and> length rs \<le> cnt + length arrivals"
  shows "\<exists>r. collect rs True good cnt arrivals = Some (Inr r)"
  using assms
proof (induction arrivals arbitrary: good cnt)
  case (Cons a arrivals)
  show ?case
  proof (cases a)
    case (Result i)
    with Cons.prems(1) obtain x where x: "rs ! i = Some (Inr x)" by auto
    show ?thesis
    proof (cases "length rs \<le> cnt + 1")
      case False
      with Cons.prems(2) Result have "Timeout \<in> set arrivals \<or>
          arrivals \<noteq> [] \<and> length rs \<le> cnt + 1 + length arrivals" by auto
      with Cons.IH [of "cnt + 1" "good \<and> fst x"] Cons.prems(1) False Result x show ?thesis
        by (simp add: Let_def split_beta)
    qed (auto simp: Result x Let_def split_beta)
  qed auto
qed simp

lemma enough_arrivals:
  assumes "\<forall>i < n. Result i \<in> set arrivals"
  shows "n \<le> length arrivals"
proof -
  have "card (Result ` {..<n}) \<le> card (set arrivals)" using assms by (intro card_mono) auto
  then show ?thesis using card_length [of arrivals] by (simp add: card_image inj_on_def)
qed

lemma partials_of_set:
  assumes "\<forall>xs. mset (mapOrder xs) = mset xs"
  shows "set (partials_of mapOrder lg) = {seq. Some seq \<in> set lg}"
proof -
  have "set (partials_of mapOrder lg) = set (remdups (map the (filter (\<lambda>v. v \<noteq> None) lg)))"
    unfolding partials_of_def using assms mset_eq_setD by blast
  also have "\<dots> = {seq. Some seq \<in> set lg}"
    unfolding set_remdups set_map set_filter by (auto simp: image_iff) (metis option.sel)
  finally show ?thesis .
qed

lemma sound_record_all_partial:
  assumes "sound_record model es lg" and "set ps = {seq. Some seq \<in> set lg}"
  shows "all_partial model es ps"
  unfolding all_partial_def
proof
  fix p assume "p \<in> set ps"
  then have "Some p \<in> set lg" using assms(2) by simp
  then obtain i where "i < length lg" "lg ! i = Some p" by (auto simp: in_set_conv_nth)
  with assms(1) show "\<exists>ks. p = map int ks \<and> partial_linearization model es ks"
    unfolding sound_record_def by metis
qed

text \<open>Every partial linearization is matched by one of the page that is as long.\<close>

definition shows_longest ::
  "('i, 'o, 'st) Model \<Rightarrow> ('i, 'o) entry list \<Rightarrow> int list list \<Rightarrow> bool" where
  "shows_longest model es ps \<longleftrightarrow>
     (\<forall>ks. partial_linearization model es ks \<longrightarrow>
        (\<forall>k \<in> set ks. \<exists>p \<in> set ps. int k \<in> set p \<and> length ks \<le> length p))"

lemma right_result_longest:
  assumes r: "right_result model es True (\<lambda>_. False) r lg" and ps: "set ps = {seq. Some seq \<in> set lg}"
  shows "shows_longest model es ps"
  unfolding shows_longest_def
proof (intro allI impI ballI)
  fix ks k assume ks: "partial_linearization model es ks" and k: "k \<in> set ks"
  have kn: "k < op_count es" and card: "card (set ks) = length ks" and sub: "set ks \<subseteq> {..<op_count es}"
    using ks k by (auto simp: partial_linearization_def distinct_card)
  have len: "length lg = op_count es" and sound: "sound_record model es lg"
    using r by (simp_all add: right_result_def sound_record_def)
  have "\<exists>seq. lg ! k = Some seq \<and> length ks \<le> length seq"
  proof (cases r)
    case True
    with r obtain ks' where ks': "is_linearization model es ks'"
      "lg = replicate (op_count es) (Some (map int ks'))" by (auto simp: right_result_def)
    then have "length ks' = op_count es"
      using distinct_card [of ks'] by (simp add: is_linearization_def)
    with card card_mono [OF _ sub] ks'(2) kn show ?thesis by simp
  next
    case False
    with r ks have "recorded lg (set ks)" by (simp add: right_result_def complete_record_def)
    with k card show ?thesis by (simp add: recorded_def)
  qed
  then obtain seq where seq: "lg ! k = Some seq" "length ks \<le> length seq" by blast
  then have "Some seq \<in> set lg" using nth_mem [of k lg] kn len by simp
  moreover from sound seq(1) kn obtain ks' where "seq = map int ks'" "k \<in> set ks'"
    unfolding sound_record_def by metis
  then have "int k \<in> set seq" by simp
  ultimately show "\<exists>p \<in> set ps. int k \<in> set p \<and> length ks \<le> length p" using seq(2) ps by blast
qed

text \<open>The search of one part, disturbed or not.\<close>

lemma search_part_right:
  assumes s: "sorts_by_time srt" and p: "small_part n p" and n: "int n < 2 ^ 62"
    and eq: "Equal_sound model" and f: "history_fuel n \<le> fuel"
  shows "\<exists>r lg. checkSingle fuel model (makeEntries srt p) True kill = Some (Inr (r, lg)) \<and>
    right_result model (makeEntries srt p) True kill r lg"
proof -
  have t: "proper_times p" and l: "length p \<le> n" using p by (simp_all add: small_part_def)
  have len: "length (makeEntries srt p) = 2 * length p" by (rule makeEntries_length [OF s])
  have "check_fuel (makeEntries srt p) = history_fuel (length p)"
    by (simp add: check_fuel_def history_fuel_def len op_count_def)
  then have "check_fuel (makeEntries srt p) \<le> fuel" using history_fuel_mono [OF l] f by simp
  moreover have "length (makeEntries srt p) < 2 ^ 63" using l n len by simp
  ultimately show ?thesis by (intro checkSingle_right [OF makeEntries_wf [OF s t] _ eq])
qed

lemma visual_partitions_spec:
  assumes "length pss = length hs"
    and "\<forall>i < length hs. \<exists>pd. visual_partition model f ds sl (hs ! i) (pss ! i) = Inr pd \<and> P i pd"
  shows "\<exists>data. visual_partitions model f ds sl hs pss = Inr data \<and> length data = length hs \<and>
    (\<forall>i < length hs. P i (data ! i))"
  using assms
proof (induction hs arbitrary: pss P)
  case (Cons h hs)
  then obtain ps pss' where pss: "pss = ps # pss'" "length pss' = length hs" by (cases pss) auto
  from Cons.prems(2) pss obtain pd where pd: "visual_partition model f ds sl h ps = Inr pd" "P 0 pd"
    by (metis length_greater_0_conv list.distinct(1) nth_Cons_0)
  have "\<forall>i < length hs. \<exists>pd. visual_partition model f ds sl (hs ! i) (pss' ! i) = Inr pd \<and> P (Suc i) pd"
    using Cons.prems(2) pss by fastforce
  from Cons.IH [OF pss(2) this] obtain data where
    "visual_partitions model f ds sl hs pss' = Inr data" "length data = length hs"
    "\<forall>i < length hs. P (Suc i) (data ! i)" by blast
  with pd pss show ?case
    by (intro exI [of _ "pd # data"]) (auto simp: nth_Cons split: nat.split)
qed simp

text \<open>The page of one partition.\<close>

lemma partition_page:
  assumes s: "sorts_by_time srt" and t: "proper_times ops" and f: "describes describeOp d"
    and mo: "\<forall>xs. mset (mapOrder xs) = mset xs" and sl: "\<forall>xs. mset (sortByLength xs) = mset xs"
    and r: "right_result (fillDefault model) (makeEntries srt ops) True kill r lg"
  shows "\<exists>pd. visual_partition (fillDefault model) describeOp ds sortByLength (makeEntries srt ops)
      (partials_of mapOrder lg) = Inr pd \<and>
    shows_partition model d (makeEntries srt ops) ops pd \<and>
    (kill = (\<lambda>_. False) \<longrightarrow> shows_longest model (makeEntries srt ops)
      (map (map Step_Index) (PV_PartialLinearizations pd)))"
proof -
  let ?es = "makeEntries srt ops" and ?ps = "sortByLength (partials_of mapOrder lg)"
  have "set ?ps = set (partials_of mapOrder lg)" using sl mset_eq_setD by blast
  then have ps: "set ?ps = {seq. Some seq \<in> set lg}" by (simp add: partials_of_set [OF mo])
  have "sound_record (fillDefault model) ?es lg" using r by (simp add: right_result_def)
  then have "all_partial (fillDefault model) ?es ?ps" using ps by (rule sound_record_all_partial)
  from visual_partition_spec [where f = describeOp and ds = ds and sortByLength = sortByLength
      and ps = "partials_of mapOrder lg", OF s t f this] obtain pd where
    pd: "visual_partition (fillDefault model) describeOp ds sortByLength ?es (partials_of mapOrder lg) = Inr pd"
      "shows_partition model d ?es ops pd"
      "map (map Step_Index) (PV_PartialLinearizations pd) = ?ps" by auto
  have "shows_longest model ?es ?ps" if "kill = (\<lambda>_. False)"
    using right_result_longest [OF r [unfolded that] ps] by (simp add: shows_longest_def)
  with pd show ?thesis by auto
qed

text \<open>The verdict of a verbose check.\<close>

lemma verbose_verdict:
  assumes s: "sorts_by_time srt" and eq: "Equal_sound model" and n: "int n < 2 ^ 62"
    and fuel: "history_fuel n \<le> fuel" and parts: "parts \<noteq> []" "list_all (small_part n) parts"
    and arr: "proper_arrivals (length parts) arrivals"
      "Timeout \<in> set arrivals \<or> (\<forall>i < length parts. Result i \<in> set arrivals)"
  shows "\<exists>res. checkParallel fuel model (map (makeEntries srt) parts) True arrivals = Some (Inr res)"
proof -
  let ?rs = "map (\<lambda>sub. checkSingle fuel model sub True (\<lambda>_. False)) (map (makeEntries srt) parts)"
  have "\<exists>x. ?rs ! i = Some (Inr x)" if "Result i \<in> set arrivals" for i
  proof -
    have i: "i < length parts" using arr(1) that by (auto simp: proper_arrivals_def list_all_iff)
    then have "small_part n (parts ! i)" using parts(2) by (simp add: list_all_length)
    from search_part_right [OF s this n eq fuel] i show ?thesis by fastforce
  qed
  moreover have "Timeout \<in> set arrivals \<or> arrivals \<noteq> [] \<and> length ?rs \<le> 0 + length arrivals"
    using arr(2) enough_arrivals [of "length parts" arrivals] parts(1) by fastforce
  ultimately have "\<exists>r. collect ?rs True True 0 arrivals = Some (Inr r)" by (intro collect_verbose) blast+
  then show ?thesis by (auto simp: checkParallel_def)
qed

text \<open>C14: The page of a verbose check of a history with proper times can be drawn. The history has at least one
  partition (so it is not empty), every partition has fewer than \<open>2^62\<close> operations and proper times (each
  call before its return, and no return at the time of a call), and the results of all partitions or a
  timeout arrive. Then, whatever results arrive before a timeout and whatever the killed searches had
  found, \<open>CheckOperationsVerbose\<close> returns, and replaying its partial linearizations never meets a step that
  the model refuses, so the file is written with the data. The page shows every operation with its
  client, times and description, only linearizable prefixes of the partition, and for every operation a
  longest of these; without a timeout no linearizable prefix with the operation is longer. (With a tie the
  page can panic: \<open>tie_page_panics\<close> below.)\<close>

theorem visualization_replays:
  assumes s: "sorts_by_time srt" and mo: "\<forall>xs. mset (mapOrder xs) = mset xs"
    and sl: "\<forall>xs. mset (sortByLength xs) = mset xs" and eq: "Equal_sound model"
    and n: "int n < 2 ^ 62" and fuel: "history_fuel n \<le> fuel" and f: "describes describeOp d"
    and parts: "the (Partition (fillDefault model)) history = parts" "parts \<noteq> []" "list_all (small_part n) parts"
    and arr: "proper_arrivals (length parts) arrivals"
      "Timeout \<in> set arrivals \<or> (\<forall>i < length parts. Result i \<in> set arrivals)"
  shows "\<exists>res linfo data.
    CheckOperationsVerbose fuel srt mapOrder kills model history arrivals = Some (Inr (res, linfo)) \<and>
    checkOperations fuel srt model history True arrivals = Some (Inr res) \<and>
    computeVisualizationData model describeOp describeState sortByLength linfo = Inr data \<and>
    VisualizePath marshal fprintf_html (Inr file) model describeOp describeState sortByLength linfo =
      Inr (map_prod Some (\<lambda>err. err) (fprintf_html (marshal data) file)) \<and>
    length data = length parts \<and>
    (\<forall>i < length parts. shows_partition model d (makeEntries srt (parts ! i)) (parts ! i) (data ! i) \<and>
      (Timeout \<notin> set arrivals \<longrightarrow> shows_longest model (makeEntries srt (parts ! i))
        (map (map Step_Index) (PV_PartialLinearizations (data ! i)))))"
proof -
  let ?m = "fillDefault model" and ?es = "\<lambda>i. makeEntries srt (parts ! i)"
  let ?kill = "\<lambda>i. kill_flag arrivals kills i"
  have eq': "Equal_sound ?m" using eq by (simp add: Equal_sound_fillDefault)
  have small: "\<forall>i < length parts. small_part n (parts ! i)" using parts(3) by (simp add: list_all_length)
  have "\<exists>r. checkSingle fuel ?m (?es i) True (?kill i) = Some (Inr r) \<and>
      right_result ?m (?es i) True (?kill i) (fst r) (snd r)" if "i < length parts" for i
    using search_part_right [OF s _ n eq' fuel] small that by fastforce
  then obtain result where result: "\<forall>i < length parts. checkSingle fuel ?m (?es i) True (?kill i) = Some (Inr (result i)) \<and>
      right_result ?m (?es i) True (?kill i) (fst (result i)) (snd (result i))" by metis
  let ?linfo = "\<lparr>info_history = map (makeEntries srt) parts,
    partialLinearizations = map (\<lambda>i. partials_of mapOrder (snd (result i))) [0..<length parts]\<rparr>"
  have "wait_all (map (\<lambda>i. checkSingle fuel ?m (map (makeEntries srt) parts ! i) True (?kill i)) [0..<length parts]) =
      Some (Inr (map result [0..<length parts]))"
    by (rule wait_all_map) (use result in simp)
  then have info: "collectInfo fuel mapOrder kills ?m (map (makeEntries srt) parts) arrivals = Some (Inr ?linfo)"
    by (simp add: collectInfo_def split_beta)
  obtain res where res: "checkParallel fuel ?m (map (makeEntries srt) parts) True arrivals = Some (Inr res)"
    using verbose_verdict [OF s eq' n fuel parts(2,3) arr] by blast
  have part: "\<exists>pd. visual_partition ?m describeOp describeState sortByLength (map (makeEntries srt) parts ! i)
      (partialLinearizations ?linfo ! i) = Inr pd \<and>
      shows_partition model d (?es i) (parts ! i) pd \<and>
      (Timeout \<notin> set arrivals \<longrightarrow> shows_longest model (?es i) (map (map Step_Index) (PV_PartialLinearizations pd)))"
    if i: "i < length parts" for i
  proof -
    have t: "proper_times (parts ! i)" using small i by (simp add: small_part_def)
    have r: "right_result ?m (?es i) True (?kill i) (fst (result i)) (snd (result i))" using result i by blast
    have k: "Timeout \<notin> set arrivals \<longrightarrow> ?kill i = (\<lambda>_. False)" by (auto simp: kill_flag_def)
    from partition_page [OF s t f mo sl r, of describeState] k show ?thesis using i by auto
  qed
  obtain data where "visual_partitions ?m describeOp describeState sortByLength (map (makeEntries srt) parts)
      (partialLinearizations ?linfo) = Inr data" "length data = length parts"
    "\<forall>i < length parts. shows_partition model d (?es i) (parts ! i) (data ! i) \<and>
      (Timeout \<notin> set arrivals \<longrightarrow> shows_longest model (?es i) (map (map Step_Index) (PV_PartialLinearizations (data ! i))))"
    using visual_partitions_spec [of "partialLinearizations ?linfo" "map (makeEntries srt) parts" ?m describeOp
        describeState sortByLength "\<lambda>i pd. shows_partition model d (?es i) (parts ! i) pd \<and>
          (Timeout \<notin> set arrivals \<longrightarrow> shows_longest model (?es i) (map (map Step_Index) (PV_PartialLinearizations pd)))"]
      part by auto
  then show ?thesis
    by (intro exI [of _ res] exI [of _ ?linfo] exI [of _ data])
      (simp add: CheckOperationsVerbose_def checkOperations_def checkParallelInfo_def computeVisualizationData_def
        VisualizePath_def Visualize_def split_beta map_prod_def
        parts(1) res info Let_def)
qed

text \<open>
  Proper times are needed: for a get that is called and returns at the same time the sort may put the
  return first, and then \<open>DescribeOperation\<close> is called on a missing input and panics, whatever the search
  has recorded.
\<close>

lemma tie_page_panics:
  "computeVisualizationData KvModel kv_describe describeState sortByLength
     \<lparr>info_history = [makeEntries (\<lambda>es. sort_key entry_time (rev es)) [instant_get]], partialLinearizations = pss\<rparr> =
   Inl Panic"
proof -
  have "makeEntries (\<lambda>es. sort_key entry_time (rev es)) [instant_get] =
      [return_entry instant_get 0, call_entry instant_get 0]"
    by (simp add: makeEntries_def call_entry_def return_entry_def instant_get_def)
  moreover have "visual_entry kv_describe (return_entry instant_get 0) ([zero_historyElement], Map.empty, Map.empty) =
      Inl Panic"
    by (simp add: visual_entry_def return_entry_def go_index_def)
  ultimately show ?thesis
    by (simp add: computeVisualizationData_def visual_partition_def call_entry_def split: list.split)
qed

lemma kv_describes: "describes kv_describe kv_DescribeOperation"
  by (simp add: describes_def)

theorem visualization_replays_witness:
  "\<exists>res linfo data.
    CheckOperationsVerbose (history_fuel 2) (sort_key entry_time) rev (\<lambda>_ _. True) KvModel [put_x, stale_get] [Timeout] =
      Some (Inr (res, linfo)) \<and>
    computeVisualizationData KvModel kv_describe (\<lambda>st. st) (sort_key (\<lambda>p. - int (length p))) linfo = Inr data \<and>
    length data = 1"
proof -
  have parts: "the (Partition (fillDefault KvModel)) [put_x, stale_get] = [[put_x, stale_get]]"
    by (simp add: fillDefault_def KvModel_def kv_Partition_filter kv_keys_def op_key_def put_x_def
        stale_get_def get_x_def)
  have small: "list_all (small_part 2) [[put_x, stale_get]]"
    by (simp add: small_part_def proper_times_def put_x_def stale_get_def get_x_def)
  have arr: "proper_arrivals (length [[put_x, stale_get]]) [Timeout]" by (simp add: proper_arrivals_def)
  have "\<forall>xs :: int list list. mset (rev xs) = mset xs"
    "\<forall>xs :: int list list. mset (sort_key (\<lambda>p. - int (length p)) xs) = mset xs" by simp_all
  from visualization_replays [OF sort_by_time this KvModel_Equal_sound _ order.refl kv_describes parts _ small arr,
      where describeState = "\<lambda>st. st" and kills = "\<lambda>_ _. True"]
  show ?thesis by fastforce
qed

end
