(* ===== verification/Store_System.thy ===== *)
theory Store_System
  imports Kv_Properties Raft_Properties Porc_Locality "HOL-Library.Sublist"
begin

text \<open>
  Where the key-value servers meet the Raft cluster: the messages a Raft server delivers to the apply loop
  above it only grow while it does not crash, and the apply loop works on them bit by bit, whatever its
  Raft server does in between.
\<close>

section \<open>Delivered messages\<close>

lemma messages_added:
  assumes "reachable n c" and "cstep c e = Inr c'" and "e \<noteq> Crash s"
  shows "prefix (ApplyChan (srv c s)) (ApplyChan (srv c' s))"
proof (cases "\<exists>p. e = Crash p")
  case True
  then have "srv c' s = srv c s"
    using assms(2,3) by (auto simp: ev_Crash_def go_simps split: if_split_asm)
  then show ?thesis by simp
next
  case False
  with cstep_advanced [OF reachable_ok [OF assms(1)] assms(2)] show ?thesis
    by (auto simp: advanced_def moved_def)
qed

section \<open>The apply loop\<close>

text \<open>The state of the Raft server does not matter to the loop.\<close>

lemma Rf_applyOp [simp]: "Rf (applyOp kv r) = Rf kv"
  by (auto simp: applyOp_def Let_def split: option.splits)

lemma Rf_run [simp]: "Rf (foldl applyOp kv rs) = Rf kv"
  by (induction rs arbitrary: kv) simp_all

lemma existId_Rf [simp]: "existId (kv\<lparr>Rf := r\<rparr>) i cl = existId kv i cl"
  by (simp add: existId_def)

lemma existKey_Rf [simp]: "existKey (kv\<lparr>Rf := r\<rparr>) k = existKey kv k"
  by (simp add: existKey_def)

lemma applyOp_Rf: "applyOp (kv\<lparr>Rf := r\<rparr>) op = (applyOp kv op)\<lparr>Rf := r\<rparr>"
  by (simp add: applyOp_def Let_def split: option.split)

lemma listenApplyCh_Rf:
  "listenApplyCh (kv\<lparr>Rf := r\<rparr>) ms = go_bind (listenApplyCh kv ms) (\<lambda>kv'. Inr (kv'\<lparr>Rf := r\<rparr>))"
proof (induction ms arbitrary: kv)
  case (Cons m ms)
  have "(applyOp (kv\<lparr>Rf := r\<rparr>) op)\<lparr>applyCh := k\<rparr> = ((applyOp kv op)\<lparr>applyCh := k\<rparr>)\<lparr>Rf := r\<rparr>" for op k
    by (simp add: applyOp_Rf)
  with Cons show ?case by (simp split: option.split)
qed simp

lemma kv_dead_applyOp [simp]: "kv_dead (applyOp kv op) = kv_dead kv"
  by (auto simp: applyOp_def Let_def split: option.splits)

lemma listenApplyCh_append:
  "\<not> kv_dead kv \<Longrightarrow> listenApplyCh kv (xs @ ys) = go_bind (listenApplyCh kv xs) (\<lambda>kv'. listenApplyCh kv' ys)"
  by (induction xs arbitrary: kv) (simp_all split: option.split)

end
