(* ===== verification/Raft_Stable.thy ===== *)
theory Raft_Stable
  imports Raft_Runs Raft_Prefix
begin

text \<open>
  Stable leadership: the executions of a cluster in which only one server ever runs \<open>startAsCand\<close>. The
  scheduler and the network stay as free as before: requests and replies are lost, delayed and
  reordered, the candidate is elected again and again, and every server, the leader too, is killed or
  crashes and restarts. A killed server leaves the loop of \<open>startElection\<close> and runs \<open>startAsLeader\<close> without
  any election, so it calls itself a leader; the one thing asked of it is that its \<open>Start\<close> is not called
  then. In these executions every log and every sequence of applied commands is a prefix of the log of
  the candidate, no other server that is alive leads, and no step panics.
\<close>

section \<open>Executions with one candidate\<close>

text \<open>
  Only \<open>p\<close> campaigns, and \<open>Start\<close> is not called at another server that has been killed and calls itself
  a leader (\<open>LoopExit\<close> of any server, kills and crashes are free). \<open>killed_leader_diverges\<close> below shows
  that the second condition is needed.
\<close>

definition only_candidate :: "nat \<Rightarrow> 'c cluster \<Rightarrow> 'c event \<Rightarrow> bool" where
  "only_candidate p c e \<longleftrightarrow>
     (case e of
        Campaign k \<Rightarrow> cand_owner (cands c ! k) = p
      | ClientStart s cmd \<Rightarrow> s = p \<or> \<not> (dead (srv c s) \<and> State (srv c s) = Leader)
      | _ \<Rightarrow> True)"

inductive stable_cluster :: "nat \<Rightarrow> nat \<Rightarrow> 'c cluster \<Rightarrow> bool" for n p :: nat where
  stable_init: "stable_cluster n p (initial_cluster n)"
| stable_step: "stable_cluster n p c \<Longrightarrow> only_candidate p c e \<Longrightarrow> cstep c e = Inr c' \<Longrightarrow> stable_cluster n p c'"

lemma stable_reachable: "stable_cluster n p c \<Longrightarrow> reachable n c"
  by (induction rule: stable_cluster.induct) (auto intro: reachable.intros)

lemma stable_ok: "stable_cluster n p c \<Longrightarrow> cluster_ok n c"
  by (rule reachable_ok [OF stable_reachable])

section \<open>The invariant of a stable cluster\<close>

text \<open>
  Threads that lead belong to the candidate \<open>p\<close>, talk to other servers, and carry segments of its log; a
  killed server (\<open>D\<close>) may run \<open>startAsLeader\<close>, whose loop it leaves at once.
\<close>

fun thread_in :: "nat \<Rightarrow> (nat \<Rightarrow> bool) \<Rightarrow> 'c option list \<Rightarrow> 'c thread \<Rightarrow> bool" where
  "thread_in p D g (LeaderInit s) = (s = p \<or> D s)"
| "thread_in p D g (LeaderLoop s) = (s = p \<or> D s)"
| "thread_in p D g (BeatCheck s) = (s = p)"
| "thread_in p D g (BeatBuild s v) = (s = p \<and> v \<noteq> p)"
| "thread_in p D g (BeatReq s v a) = (s = p \<and> v \<noteq> p \<and> segment_of g a)"
| "thread_in p D g (BeatRep s v r) = (s = p \<and> v \<noteq> p)"
| "thread_in p D g (AppInit s v w) = (s = p \<and> v \<noteq> p)"
| "thread_in p D g (AppBuild s v w) = (s = p \<and> v \<noteq> p)"
| "thread_in p D g (AppLoop s v a w) = (s = p \<and> v \<noteq> p \<and> segment_of g a)"
| "thread_in p D g (AppGuarded s v a w) = (s = p \<and> v \<noteq> p \<and> segment_of g a)"
| "thread_in p D g (AppReq s v a w) = (s = p \<and> v \<noteq> p \<and> segment_of g a)"
| "thread_in p D g (AppRep s v a r w) =
     (s = p \<and> v \<noteq> p \<and> segment_of g a \<and> AER_LastIndex r \<le> int (length g))"
| "thread_in p D g (AppOrphan v a) = (v \<noteq> p \<and> segment_of g a)"
| "thread_in p D g _ = True"

definition follows :: "nat \<Rightarrow> 'c option list \<Rightarrow> nat \<Rightarrow> 'c Raft \<Rightarrow> bool" where
  "follows p g s rf \<longleftrightarrow> (if s = p then holds_log g rf else tracks g rf \<and> (State rf = Leader \<longrightarrow> dead rf))"

definition idle_cand :: "nat \<Rightarrow> candidacy \<Rightarrow> bool" where
  "idle_cand p cd \<longleftrightarrow> cand_owner cd \<noteq> p \<longrightarrow> cand_stage cd = Spawned \<or> cand_stage cd = Stopped"

definition start_in :: "nat \<Rightarrow> 'c start_call \<Rightarrow> bool" where
  "start_in p st \<longleftrightarrow> start_stage st = Checked \<longrightarrow> start_owner st = p"

abbreviation down :: "'c cluster \<Rightarrow> nat \<Rightarrow> bool" where
  "down c \<equiv> \<lambda>s. dead (srv c s)"

definition stable_inv :: "nat \<Rightarrow> 'c option list \<Rightarrow> 'c cluster \<Rightarrow> bool" where
  "stable_inv p g c \<longleftrightarrow> (\<forall>s. follows p g s (srv c s)) \<and> (\<forall>t \<in> set (threads c). thread_in p (down c) g t) \<and>
     (\<forall>cd \<in> set (cands c). idle_cand p cd) \<and> (\<forall>st \<in> set (starts c). start_in p st) \<and>
     set g \<subseteq> start_command ` set (starts c)"

lemma thread_in_down: "thread_in p D g t \<Longrightarrow> (\<And>s. s \<noteq> p \<Longrightarrow> D s \<Longrightarrow> D' s) \<Longrightarrow> thread_in p D' g t"
  by (cases t) auto

named_theorems stable_intros \<open>updates that keep the invariant of a stable cluster\<close>

lemma stable_inv_set_srv [stable_intros]:
  "stable_inv p g c \<Longrightarrow> follows p g s rf \<Longrightarrow> s = p \<or> (dead (srv c s) \<longrightarrow> dead rf) \<Longrightarrow>
     stable_inv p g (set_srv c s rf)"
  by (auto simp: stable_inv_def set_srv_def elim: thread_in_down)

lemma stable_inv_set_thread [stable_intros]:
  "stable_inv p g c \<Longrightarrow> thread_in p (down c) g t \<Longrightarrow> stable_inv p g (set_thread c j t)"
  by (auto simp: stable_inv_def set_thread_def dest: set_list_update_subset)

lemma stable_inv_spawn [stable_intros]:
  "stable_inv p g c \<Longrightarrow> \<forall>t \<in> set ts. thread_in p (down c) g t \<Longrightarrow> stable_inv p g (spawn c ts)"
  by (auto simp: stable_inv_def spawn_def)

lemma stable_inv_set_cand [stable_intros]:
  "stable_inv p g c \<Longrightarrow> idle_cand p cd \<Longrightarrow> stable_inv p g (set_cand c k cd)"
  by (auto simp: stable_inv_def set_cand_def dest: set_list_update_subset)

lemma start_commands_update:
  "start_command ` set (sts[i := (sts ! i)\<lparr>start_stage := st\<rparr>]) = start_command ` set sts"
proof -
  have "map start_command (sts[i := (sts ! i)\<lparr>start_stage := st\<rparr>]) = map start_command sts"
    by (rule nth_equalityI) (auto simp: nth_list_update_if)
  then show ?thesis by (metis set_map)
qed

lemma stable_inv_set_start [stable_intros]:
  "stable_inv p g c \<Longrightarrow> st \<noteq> Checked \<Longrightarrow> stable_inv p g (set_start c i st)"
  by (auto simp: stable_inv_def set_start_def start_commands_update start_in_def
      dest!: set_list_update_subset)

lemma stable_inv_frame [simp]:
  "stable_inv p g (c\<lparr>phase := ph\<rparr>) = stable_inv p g c"
  "stable_inv p g (c\<lparr>loop_no := l\<rparr>) = stable_inv p g c"
  "stable_inv p g (c\<lparr>votes_cast := vc\<rparr>) = stable_inv p g c"
  "stable_inv p g (c\<lparr>elected := el\<rparr>) = stable_inv p g c"
  by (simp_all add: stable_inv_def)

lemma stable_inv_finish [stable_intros]:
  "stable_inv p g c \<Longrightarrow> stable_inv p g (finish_append c j w)"
  by (auto simp: finish_append_def Let_def intro!: stable_intros split: option.splits start_stage.splits)

lemma stable_inv_srv: "stable_inv p g c \<Longrightarrow> follows p g s (srv c s)"
  by (simp add: stable_inv_def)

lemma stable_inv_leader: "stable_inv p g c \<Longrightarrow> holds_log g (srv c p)"
  using stable_inv_srv [of p g c p] by (simp add: follows_def)

lemma stable_inv_thread:
  "stable_inv p g c \<Longrightarrow> j < length (threads c) \<Longrightarrow> thread_in p (down c) g (threads c ! j)"
  by (simp add: stable_inv_def)

lemma follows_keeps:
  "follows p g s rf \<Longrightarrow> keeps_log rf rf' \<Longrightarrow> State rf' = Leader \<longrightarrow> State rf = Leader \<Longrightarrow> follows p g s rf'"
  by (auto simp: follows_def intro: keeps_log_tracks keeps_log_holds keeps_log_dead)

lemma follows_killed: "follows p g s rf \<Longrightarrow> keeps_log rf rf' \<Longrightarrow> dead rf' \<Longrightarrow> follows p g s rf'"
  by (auto simp: follows_def intro: keeps_log_tracks keeps_log_holds)

lemma follows_tracks: "follows p g s rf \<Longrightarrow> tracks g rf"
  by (auto simp: follows_def holds_log_def split: if_splits)

lemma follows_leader: "follows p g p rf = holds_log g rf"
  by (simp add: follows_def)

lemma not_leader_idle:
  "stable_inv p g c \<Longrightarrow> k < length (cands c) \<Longrightarrow> cand_stage (cands c ! k) \<noteq> Spawned \<Longrightarrow>
     cand_stage (cands c ! k) \<noteq> Stopped \<Longrightarrow> cand_owner (cands c ! k) = p"
  by (auto simp: stable_inv_def idle_cand_def)

lemma thread_in_grow: "thread_in p D g t \<Longrightarrow> prefix g g' \<Longrightarrow> thread_in p D g' t"
  using prefix_length_le [of g g'] by (cases t) (auto intro: segment_grow)

section \<open>Every step of one candidate keeps the invariant\<close>

lemma srv_facts:
  assumes "cluster_ok n c" and "stable_inv p g c"
  shows "server_ok (srv c s)" "log_wf (srv c s)" "Test (srv c s)" "follows p g s (srv c s)"
  using server_ok_of [OF assms(1)] log_wf_of [OF assms(1)] srv_ok_Test [OF cluster_ok_srv [OF assms(1)]]
    stable_inv_srv [OF assms(2)] by blast+

lemma vote_at_stable:
  assumes ok: "cluster_ok n c" and inv: "stable_inv p g c" and "vote_at c v a = Inr (c', r)"
  shows "stable_inv p g c'"
  using assms(3) srv_facts [OF ok inv, of v]
  by (auto simp: vote_at_def go_simps intro!: stable_intros inv dest!: keeps_log_vote
      intro: follows_keeps keeps_log_dead)

lemma append_at_stable:
  assumes ok: "cluster_ok n c" and inv: "stable_inv p g c" and "v \<noteq> p" and "append_ok a"
    and "segment_of g a" and "append_at c v a = Inr (c', r)"
  shows "stable_inv p g c' \<and> AER_LastIndex r \<le> int (length g)"
proof -
  note f = srv_facts [OF ok inv, of v]
  from assms(6) obtain rf' where h: "HandleAppendEntries (srv c v) a = Inr (rf', r)"
    and c': "c' = set_srv c v rf'"
    by (auto simp: append_at_def go_simps)
  have "tracks g (srv c v)" using f(4) by (rule follows_tracks)
  with tracks_append [OF f(1,3) assms(4,5) _ h] have "follows p g v rf'"
    and "AER_LastIndex r \<le> int (length g)" and "dead rf' = dead (srv c v)"
    using assms(3) f(4) by (auto simp: follows_def)
  then show ?thesis by (simp add: c' stable_inv_set_srv inv)
qed

lemma count_vote_stable:
  assumes ok: "cluster_ok n c" and inv: "stable_inv p g c" and "count_vote c j k v r = Inr c'"
  shows "stable_inv p g c'"
proof -
  let ?cd = "cands c ! k"
  from assms(3) obtain rf' cp' V where
    k: "k < length (cands c)" "cand_stage ?cd \<noteq> Spawned" "cand_stage ?cd \<noteq> Stopped"
    and h: "startAsCand_reply (srv c (cand_owner ?cd)) (cand_campaign ?cd) r = Inr (rf', cp')"
    and c': "c' = set_thread (set_cand (set_srv c (cand_owner ?cd) rf') k
      (?cd\<lparr>cand_campaign := cp', cand_voters := V\<rparr>)) j Finished"
    by (auto simp: count_vote_def Let_def go_simps)
  have own: "cand_owner ?cd = p" by (rule not_leader_idle [OF inv k])
  from keeps_log_count [OF srv_facts(3) [OF ok inv] h] srv_facts(4) [OF ok inv, of p]
  have "follows p g p rf'" by (auto simp: own follows_leader intro: keeps_log_holds)
  then show ?thesis
    unfolding c' own by (intro stable_intros inv) (simp_all add: idle_cand_def own)
qed

lemma beat_reply_stable:
  assumes ok: "cluster_ok n c" and inv: "stable_inv p g c" and "v \<noteq> p" and "beat_reply c j p v r = Inr c'"
  shows "stable_inv p g c'"
  using assms(3,4) srv_facts [OF ok inv, of p]
  by (auto simp: beat_reply_def go_simps follows_leader intro!: stable_intros inv dest!: keeps_log_beat
      intro: keeps_log_holds)

lemma app_reply_stable:
  assumes ok: "cluster_ok n c" and inv: "stable_inv p g c" and v: "v \<noteq> p" and a: "append_ok a"
    and seg: "segment_of g a" and rep: "\<And>r'. r = Some r' \<Longrightarrow> reply_ok a r'"
    and r: "app_reply c j p v a r w = Inr c'"
  shows "stable_inv p g c'"
proof (cases r)
  case None
  have "holds_log g (markDead (srv c p) (int v))"
    using keeps_log_holds [OF keeps_log_markDead stable_inv_leader [OF inv]] .
  with None r show ?thesis by (auto simp: app_reply_def follows_leader intro!: stable_intros inv)
next
  case (Some r')
  note f = srv_facts [OF ok inv, of p]
  have h: "holds_log g (srv c p)" using inv by (rule stable_inv_leader)
  show ?thesis
  proof (cases "AER_Success r'")
    case True
    with Some r obtain rf' where s: "StartOnePeerAppend_success (srv c p) (int v) a = Inr rf'"
      and "c' = finish_append (set_srv c p rf') j w"
      by (auto simp: app_reply_def go_simps)
    with holds_log_success [OF f(1) a seg h s] show ?thesis
      by (auto simp: follows_leader intro!: stable_intros inv)
  next
    case False
    with Some r obtain rf' a' where s: "StartOnePeerAppend_resend (srv c p) (int v) a r' = Inr (rf', a')"
      and "c' = set_thread (set_srv c p rf') j (AppLoop p v a' w)"
      by (auto simp: app_reply_def go_simps)
    moreover have "holds_log g rf'" using keeps_log_holds [OF keeps_log_resend [OF s] h] .
    moreover have "segment_of g a'"
      using segment_resend [OF f(1) h resendFrom_nonneg [OF a rep [OF Some] False] s] .
    ultimately show ?thesis using v by (auto simp: follows_leader intro!: stable_intros inv)
  qed
qed

lemma leader_threads_stable:
  assumes ok: "cluster_ok n c" and inv: "stable_inv p g c"
  shows "ev_LeaderSetup c j p = Inr c' \<Longrightarrow> stable_inv p g c'"
    and "ev_LeaderTurn c j p = Inr c' \<Longrightarrow> stable_inv p g c'"
    and "ev_BeatCheck c j p = Inr c' \<Longrightarrow> stable_inv p g c'"
    and "v \<noteq> p \<Longrightarrow> ev_BeatBuild c j p v = Inr c' \<Longrightarrow> stable_inv p g c'"
    and "v \<noteq> p \<Longrightarrow> ev_AppInit c j p v w = Inr c' \<Longrightarrow> stable_inv p g c'"
    and "v \<noteq> p \<Longrightarrow> segment_of g a \<Longrightarrow> ev_AppLoop c j p v a w = Inr c' \<Longrightarrow> stable_inv p g c'"
    and "v \<noteq> p \<Longrightarrow> segment_of g a \<Longrightarrow> ev_AppSend c j p v a w = Inr c' \<Longrightarrow> stable_inv p g c'"
  using inv keeps_log_holds [OF keeps_log_setup stable_inv_leader [OF inv]]
  by (auto simp: ev_LeaderSetup_def ev_LeaderTurn_def ev_BeatCheck_def ev_BeatBuild_def
      ev_AppInit_def ev_AppLoop_def ev_AppSend_def others_def follows_leader split: if_splits
      intro!: stable_intros)

text \<open>A killed server runs \<open>startAsLeader\<close>: it calls itself a leader and leaves the loop.\<close>

lemma killed_leader_stable:
  assumes inv: "stable_inv p g c" and s: "dead (srv c s)" "s \<noteq> p"
  shows "ev_LeaderSetup c j s = Inr c' \<Longrightarrow> stable_inv p g c'"
    and "ev_LeaderTurn c j s = Inr c' \<Longrightarrow> stable_inv p g c'"
proof -
  have "dead (startAsLeader_setup (srv c s))" using keeps_log_dead [OF keeps_log_setup s(1)] .
  with follows_killed [OF stable_inv_srv [OF inv] keeps_log_setup this]
  show "ev_LeaderSetup c j s = Inr c' \<Longrightarrow> stable_inv p g c'"
    by (auto simp: ev_LeaderSetup_def intro!: stable_intros inv)
  show "ev_LeaderTurn c j s = Inr c' \<Longrightarrow> stable_inv p g c'"
    using s(1) by (auto simp: ev_LeaderTurn_def intro!: stable_intros inv)
qed

lemma AppBuild_stable:
  assumes ok: "cluster_ok n c" and inv: "stable_inv p g c" and "v \<noteq> p" and "ev_AppBuild c j p v w = Inr c'"
  shows "stable_inv p g c'"
  using assms(3,4) segment_setup [OF srv_facts(1) [OF ok inv] stable_inv_leader [OF inv]]
  by (auto simp: ev_AppBuild_def go_simps intro!: stable_intros inv)

lemma run_thread_stable:
  assumes ok: "cluster_ok n c" and inv: "stable_inv p g c" and wf: "thread_ok t"
    and t: "thread_in p (down c) g t" and r: "run_thread c j t = Inr c'"
  shows "stable_inv p g c'"
proof (cases t)
  case (VoteReq k v a)
  with r obtain c1 r' where "vote_at c v a = Inr (c1, r')" and "c' = set_thread c1 j (VoteRep k v r')"
    by (auto simp: go_simps)
  then show ?thesis using vote_at_stable [OF ok inv] by (simp add: stable_inv_set_thread)
next
  case (VoteOrphan v a)
  with r obtain c1 r' where "vote_at c v a = Inr (c1, r')" and "c' = set_thread c1 j Finished"
    by (auto simp: go_simps)
  then show ?thesis using vote_at_stable [OF ok inv] by (simp add: stable_inv_set_thread)
next
  case (BeatReq s v a)
  with r obtain c1 r' where "append_at c v a = Inr (c1, r')" and "c' = set_thread c1 j (BeatRep s v r')"
    by (auto simp: go_simps)
  then show ?thesis
    using append_at_stable [OF ok inv] BeatReq t wf by (auto simp: stable_inv_set_thread)
next
  case (AppReq s v a w)
  with r obtain c1 r' where "append_at c v a = Inr (c1, r')"
    and "c' = set_thread c1 j (AppRep s v a r' w)"
    by (auto simp: go_simps)
  then show ?thesis using append_at_stable [OF ok inv] AppReq t wf by (auto simp: stable_inv_set_thread)
next
  case (AppOrphan v a)
  with r obtain c1 r' where "append_at c v a = Inr (c1, r')" and "c' = set_thread c1 j Finished"
    by (auto simp: go_simps)
  then show ?thesis using append_at_stable [OF ok inv] AppOrphan t wf by (auto simp: stable_inv_set_thread)
next
  case (AppRep s v a r' w)
  with r t wf show ?thesis using app_reply_stable [OF ok inv, of v a "Some r'"] by auto
next
  case (LeaderInit s)
  with r t show ?thesis
    using leader_threads_stable(1) [OF ok inv] killed_leader_stable(1) [OF inv] by (cases "s = p") auto
next
  case (LeaderLoop s)
  with r t show ?thesis
    using leader_threads_stable(2) [OF ok inv] killed_leader_stable(2) [OF inv] by (cases "s = p") auto
qed (use r t leader_threads_stable [OF ok inv] AppBuild_stable [OF ok inv] count_vote_stable [OF ok inv]
    beat_reply_stable [OF ok inv] in auto)

lemma fail_thread_stable:
  assumes ok: "cluster_ok n c" and inv: "stable_inv p g c" and wf: "thread_ok t"
    and t: "thread_in p (down c) g t" and r: "fail_thread c j t = Inr c'"
  shows "stable_inv p g c'"
proof (cases t)
  case (VoteReq k v a)
  with r obtain c1 where "count_vote c j k v None = Inr c1" and "c' = spawn c1 [VoteOrphan v a]"
    by (auto simp: go_simps)
  then show ?thesis using count_vote_stable [OF ok inv] by (simp add: stable_inv_spawn)
next
  case (BeatReq s v a)
  with r t obtain c1 where "beat_reply c j p v None = Inr c1" and "c' = spawn c1 [AppOrphan v a]"
    by (auto simp: go_simps)
  then show ?thesis using beat_reply_stable [OF ok inv] BeatReq t by (auto simp: stable_inv_spawn)
next
  case (AppReq s v a w)
  with r t obtain c1 where "app_reply c j p v a None w = Inr c1" and "c' = spawn c1 [AppOrphan v a]"
    by (auto simp: go_simps)
  then show ?thesis using app_reply_stable [OF ok inv, of v a None] AppReq t wf by (auto simp: stable_inv_spawn)
next
  case (AppRep s v a r' w)
  with r t wf show ?thesis using app_reply_stable [OF ok inv, of v a None] by auto
qed (use r t count_vote_stable [OF ok inv] beat_reply_stable [OF ok inv] in auto)

lemma thread_in_orphan:
  "thread_in p D g t \<Longrightarrow> (\<And>q. q \<noteq> s \<Longrightarrow> D q \<Longrightarrow> D' q) \<Longrightarrow> thread_in p D' g (orphan cs s t)"
  by (cases t) auto

lemma Crash_stable:
  assumes inv: "stable_inv p g c" and "ev_Crash c s = Inr c'"
  shows "stable_inv p g c'"
proof -
  let ?rf = "Make (int (servers c)) (int s) (Copy (persister (srv c s)))"
  from assms(2) have c': "srv c' = (srv c)(s := ?rf)" "threads c' = map (orphan (cands c) s) (threads c)"
    "cands c' = map (\<lambda>cd. if cand_owner cd = s then cd\<lparr>cand_stage := Stopped\<rparr> else cd) (cands c)"
    "starts c' = map (\<lambda>st. if start_owner st = s then st\<lparr>start_stage := Abandoned\<rparr> else st) (starts c)"
    by (auto simp: ev_Crash_def go_simps)
  have "follows p g s ?rf"
    using stable_inv_srv [OF inv, of s] by (simp add: follows_def crash_tracks crash_holds split: if_splits)
  moreover have "start_command ` set (starts c') = start_command ` set (starts c)"
    unfolding c'(4) set_map by (subst image_image) (rule image_cong, simp_all)
  ultimately show ?thesis
    using inv by (auto simp: stable_inv_def c' idle_cand_def start_in_def intro: thread_in_orphan)
qed

lemma StartAppend_stable:
  assumes ok: "cluster_ok n c" and inv: "stable_inv p g c" and r: "ev_StartAppend c i = Inr c'"
  shows "\<exists>cmd. stable_inv p (g @ [cmd]) c'"
proof -
  let ?st = "starts c ! i"
  from r obtain rf' index trm where i: "i < length (starts c)" "start_stage ?st = Checked"
    and s: "Start_append (srv c (start_owner ?st)) (start_command ?st) = (rf', index, trm)"
    and c': "c' = spawn (set_start (set_srv c (start_owner ?st) rf') i (Appended index trm 1))
      (map (\<lambda>v. AppInit (start_owner ?st) v (Some i)) (others c (start_owner ?st)))"
    by (auto simp: ev_StartAppend_def go_simps Let_def others_def set_start_def set_srv_def split: prod.splits)
  from i have "?st \<in> set (starts c)" by simp
  with inv i(2) have own: "start_owner ?st = p"
    and cmd: "start_command ?st \<in> start_command ` set (starts c)"
    by (auto simp: stable_inv_def start_in_def)
  let ?g = "g @ [start_command ?st]"
  have "prefix g ?g" by simp
  note f = srv_facts [OF ok inv, of p]
  from own s have "Start_append (srv c p) (start_command ?st) = (rf', index, trm)" by simp
  from holds_log_Start [OF f(1,3) stable_inv_leader [OF inv] this] have h: "holds_log ?g rf'" .
  have "stable_inv p ?g (set_srv c p rf')"
    using inv h cmd tracks_grow [OF _ \<open>prefix g ?g\<close>]
    by (auto simp: stable_inv_def set_srv_def follows_def
        intro: thread_in_down [OF thread_in_grow [OF _ \<open>prefix g ?g\<close>]])
  then have "stable_inv p ?g c'"
    unfolding c' own by (intro stable_inv_spawn stable_inv_set_start) (auto simp: others_def)
  then show ?thesis by blast
qed

lemma Campaign_stable:
  assumes ok: "cluster_ok n c" and inv: "stable_inv p g c" and own: "cand_owner (cands c ! k) = p"
    and r: "ev_Campaign c k = Inr c'"
  shows "stable_inv p g c'"
proof -
  let ?cd = "cands c ! k"
  from r obtain rf' cp where b: "startAsCand_begin (srv c p) = Inr (rf', cp)"
    and c': "c' = (spawn (set_cand (set_srv c p rf') k
          (?cd\<lparr>cand_stage := Running, cand_campaign := cp, cand_voters := {p}\<rparr>))
        (map (\<lambda>v. VoteReq k v (campaign_args cp)) (others c p)))
      \<lparr>votes_cast := insert (p, Term rf', p) (votes_cast c)\<rparr>"
    using own by (auto simp: ev_Campaign_def go_simps Let_def)
  have "holds_log g rf'"
    using keeps_log_holds [OF keeps_log_begin [OF srv_facts(2,3) [OF ok inv] b] stable_inv_leader [OF inv]] .
  then have "follows p g p rf'" by (simp add: follows_leader)
  then show ?thesis
    unfolding c' stable_inv_frame by (intro stable_intros inv) (auto simp: idle_cand_def own)
qed

text \<open>Channels are drained and flags are set.\<close>

lemma field_steps_stable:
  assumes inv: "stable_inv p g c"
  shows "ev_DrainHB c s = Inr c' \<Longrightarrow> stable_inv p g c'"
    and "ev_DrainBecome c s = Inr c' \<Longrightarrow> stable_inv p g c'"
    and "ev_Kill c s = Inr c' \<Longrightarrow> stable_inv p g c'"
proof -
  have "follows p g s ((srv c s)\<lparr>ReceiveHB := b\<rparr>)" "follows p g s ((srv c s)\<lparr>BecomeFollwerFromLeader := b\<rparr>)"
    "follows p g s ((srv c s)\<lparr>dead := True\<rparr>)" for b
    by (rule follows_keeps [OF stable_inv_srv [OF inv] keeps_log_cong]; simp)+
  with inv show "ev_DrainHB c s = Inr c' \<Longrightarrow> stable_inv p g c'"
    and "ev_DrainBecome c s = Inr c' \<Longrightarrow> stable_inv p g c'"
    and "ev_Kill c s = Inr c' \<Longrightarrow> stable_inv p g c'"
    by (auto simp: ev_DrainHB_def ev_DrainBecome_def ev_Kill_def go_simps intro!: stable_intros)
qed

text \<open>A campaign that is past its start belongs to the candidate.\<close>

lemma cand_steps_stable:
  assumes inv: "stable_inv p g c"
  shows "ev_TakeResult c k = Inr c' \<Longrightarrow> stable_inv p g c'"
    and "ev_Expire c k = Inr c' \<Longrightarrow> stable_inv p g c'"
    and "ev_Decide c k = Inr c' \<Longrightarrow> stable_inv p g c'"
proof -
  note own = not_leader_idle [OF inv, of k]
  show "stable_inv p g c'" if r: "ev_TakeResult c k = Inr c'"
  proof -
    from r have "cand_owner (cands c ! k) = p"
      by (intro own) (auto simp: ev_TakeResult_def go_simps Let_def split: cand_stage.splits)
    with r inv show ?thesis
      by (auto simp: ev_TakeResult_def go_simps Let_def idle_cand_def intro!: stable_intros
          split: cand_stage.splits election_result.splits)
  qed
  show "stable_inv p g c'" if r: "ev_Expire c k = Inr c'"
  proof -
    from r have "cand_owner (cands c ! k) = p" by (intro own) (auto simp: ev_Expire_def go_simps Let_def)
    with r inv show ?thesis
      by (auto simp: ev_Expire_def go_simps Let_def idle_cand_def intro!: stable_intros)
  qed
  show "stable_inv p g c'" if r: "ev_Decide c k = Inr c'"
  proof -
    from r have "cand_owner (cands c ! k) = p" by (intro own) (auto simp: ev_Decide_def go_simps Let_def)
    with r inv show ?thesis
      by (auto simp: ev_Decide_def go_simps Let_def idle_cand_def intro!: stable_intros)
  qed
qed

text \<open>Only a leader passes the check of \<open>Start\<close>.\<close>

lemma start_steps_stable:
  assumes inv: "stable_inv p g c"
  shows "s = p \<or> \<not> (dead (srv c s) \<and> State (srv c s) = Leader) \<Longrightarrow> ev_Start c s cmd = Inr c' \<Longrightarrow>
      stable_inv p g c'"
    and "ev_StartReturn c i = Inr c' \<Longrightarrow> stable_inv p g c'"
proof -
  have "State (srv c s) = Leader \<Longrightarrow> s = p \<or> dead (srv c s)"
    using stable_inv_srv [OF inv, of s] by (auto simp: follows_def split: if_splits)
  with inv show "s = p \<or> \<not> (dead (srv c s) \<and> State (srv c s) = Leader) \<Longrightarrow> ev_Start c s cmd = Inr c' \<Longrightarrow>
      stable_inv p g c'"
    by (auto simp: ev_Start_def go_simps stable_inv_def start_in_def split: if_splits)
  show "ev_StartReturn c i = Inr c' \<Longrightarrow> stable_inv p g c'"
    using inv by (auto simp: ev_StartReturn_def go_simps Let_def intro!: stable_intros
        split: start_stage.splits prod.splits)
qed

lemma cstep_stable:
  assumes ok: "cluster_ok n c" and inv: "stable_inv p g c" and one: "only_candidate p c e"
    and st: "cstep c e = Inr c'" and e: "\<And>i. e \<noteq> StartAppend i"
  shows "stable_inv p g c'"
proof (cases e)
  case (Campaign k)
  with one have "cand_owner (cands c ! k) = p" by (simp add: only_candidate_def)
  with Campaign_stable [OF ok inv this] Campaign st show ?thesis by simp
next
  case (Tick s)
  with st inv show ?thesis by (auto simp: ev_Tick_def go_simps stable_inv_def idle_cand_def)
next
  case (LoopExit s)
  with st inv show ?thesis by (auto simp: ev_LoopExit_def go_simps intro!: stable_intros)
next
  case (ClientStart s cmd)
  with st one start_steps_stable(1) [OF inv] show ?thesis by (simp add: only_candidate_def)
next
  case (Run j)
  with st show ?thesis
    by (auto simp: go_simps intro: run_thread_stable [OF ok inv cluster_ok_thread [OF ok] stable_inv_thread [OF inv]])
next
  case (Fail j)
  with st show ?thesis
    by (auto simp: go_simps intro: fail_thread_stable [OF ok inv cluster_ok_thread [OF ok] stable_inv_thread [OF inv]])
qed (use e st field_steps_stable [OF inv] cand_steps_stable [OF inv] start_steps_stable(2) [OF inv]
    Crash_stable [OF inv] in simp_all)

lemma stable_inv_initial: "stable_inv p [] (initial_cluster n)"
proof -
  have e: "gob_load (MakePersister :: 'a gob_value Persister) = (0, 0, [])"
    by (simp add: gob_load_def gob_parse_def ReadRaftState_def MakePersister_def)
  have "Log (Make (int n) (int s) (MakePersister :: 'a gob_value Persister)) = []" for s
    using Make_durable [of "int n" "int s" "MakePersister :: 'a gob_value Persister"]
    by (simp add: durable_of_def e)
  then show ?thesis
    by (simp add: stable_inv_def initial_cluster_def follows_def holds_log_def tracks_def stored_def
        applied_def matched_def commands_def e)
qed

text \<open>The sequence the cluster follows is the log of the candidate, and no step shortens it.\<close>

lemma stable_step_log:
  assumes ok: "cluster_ok n c" and inv: "stable_inv p (commands (srv c p)) c"
    and one: "only_candidate p c e" and st: "cstep c e = Inr c'"
  shows "stable_inv p (commands (srv c' p)) c' \<and>
    (commands (srv c' p) = commands (srv c p) \<or>
     (\<exists>i. e = StartAppend i \<and> (\<exists>cmd. commands (srv c' p) = commands (srv c p) @ [cmd])))"
proof (cases "\<exists>i. e = StartAppend i")
  case True
  with st obtain i where "ev_StartAppend c i = Inr c'" by auto
  from StartAppend_stable [OF ok inv this] obtain cmd
    where i': "stable_inv p (commands (srv c p) @ [cmd]) c'" by blast
  then have "commands (srv c' p) = commands (srv c p) @ [cmd]"
    using stable_inv_leader by (auto simp: holds_log_def)
  with i' True show ?thesis by auto
next
  case False
  with cstep_stable [OF ok inv one st] have i': "stable_inv p (commands (srv c p)) c'" by blast
  then have "commands (srv c' p) = commands (srv c p)"
    using stable_inv_leader by (auto simp: holds_log_def)
  with i' show ?thesis by simp
qed

lemma stable_invariant: "stable_cluster n p c \<Longrightarrow> stable_inv p (commands (srv c p)) c"
proof (induction rule: stable_cluster.induct)
  case stable_init
  have "commands (srv (initial_cluster n :: 'a cluster) p) = []"
    using stable_inv_leader [OF stable_inv_initial [of p n]] by (auto simp: holds_log_def)
  then show ?case using stable_inv_initial [of p n] by simp
next
  case (stable_step c e c')
  then show ?case using stable_step_log [OF stable_ok] by blast
qed

section \<open>Panics\<close>

lemma stable_no_panic:
  assumes ok: "cluster_ok n c" and inv: "stable_inv p g c"
  shows "cstep c e \<noteq> Inl Panic"
proof
  assume "cstep c e = Inl Panic"
  from cstep_panic [OF ok this] obtain j s v a r w where j: "j < length (threads c)"
    and t: "threads c ! j = AppRep s v a r w" and far: "resendFrom a r > int (length (Log (srv c s)))"
    by (auto simp: stale_resend_def)
  have "thread_in p (down c) g (AppRep s v a r w)" using stable_inv_thread [OF inv j] t by simp
  then have "s = p" and "resendFrom a r \<le> int (length g)" by (auto simp: resendFrom_def segment_of_def)
  moreover have "length (Log (srv c p)) = length g"
    using stable_inv_leader [OF inv] length_commands [of "srv c p"] by (simp add: holds_log_def)
  ultimately show False using far by simp
qed

section \<open>Agreement\<close>

text \<open>Schedules with one candidate.\<close>

fun stable_run :: "nat \<Rightarrow> 'c cluster \<Rightarrow> 'c event list \<Rightarrow> 'c cluster go" where
  "stable_run p c [] = Inr c"
| "stable_run p c (e # es) =
     (if only_candidate p c e then go_bind (cstep c e) (\<lambda>c1. stable_run p c1 es) else Inl Disabled)"

lemma stable_run_stable: "stable_cluster n p c \<Longrightarrow> stable_run p c es = Inr c' \<Longrightarrow> stable_cluster n p c'"
proof (induction es arbitrary: c)
  case Nil
  then show ?case by simp
next
  case (Cons e es)
  then show ?case by (auto simp: go_simps split: if_splits intro: stable_step)
qed

text \<open>One leader commits a command that every server has applied by the end.\<close>

definition commit_everywhere :: "'c \<Rightarrow> 'c event list" where
  "commit_everywhere x = commit_one x @ [Run 2, Run 9, Run 10, DrainHB 1, Run 10]"

lemma commit_everywhere_run:
  "case stable_run 0 (initial_cluster 3) (commit_everywhere x) of
     Inr c \<Rightarrow> applied (srv c 0) = [Some x] \<and> applied (srv c 1) = [Some x] \<and> State (srv c 0) = Leader
   | Inl _ \<Rightarrow> False"
  by (simp add: commit_everywhere_def commit_one_def lead_0_def elect_0_def only_candidate_def
      applied_def run_simps cong: step_congs)

lemma stable_commit:
  obtains c :: "'c cluster" where "stable_cluster 3 0 c" and "applied (srv c 0) = [Some x]"
    and "applied (srv c 1) = [Some x]" and "State (srv c 0) = Leader"
  using commit_everywhere_run [of x] stable_run_stable [OF stable_init, of 0 3 "commit_everywhere x"]
  by (auto split: sum.splits)

lemma stable_agreement:
  assumes "stable_cluster n p c"
  shows "prefix (commands (srv c s)) (commands (srv c p)) \<and> prefix (applied (srv c s)) (commands (srv c p)) \<and>
    (prefix (applied (srv c s)) (applied (srv c s')) \<or> prefix (applied (srv c s')) (applied (srv c s))) \<and>
    (State (srv c s) = Leader \<longrightarrow> s = p \<or> dead (srv c s))"
proof -
  have f: "follows p (commands (srv c p)) s (srv c s)" for s
    by (rule stable_inv_srv [OF stable_invariant [OF assms]])
  then have t: "prefix (applied (srv c s)) (commands (srv c p))" "prefix (commands (srv c s)) (commands (srv c p))"
    for s using follows_tracks by (force simp: tracks_def)+
  moreover have "State (srv c s) = Leader \<longrightarrow> s = p \<or> dead (srv c s)" using f [of s] by (simp add: follows_def split: if_splits)
  ultimately show ?thesis using prefix_same_cases [OF t(1) t(1)] by blast
qed

text \<open>
  A killed server leaves the loop of \<open>startElection\<close> and becomes a leader without a campaign. This is an
  execution with one candidate, server 0, in which server 1 calls itself a leader; if its \<open>Start\<close> is then
  called, its log is no prefix of the log of server 0, so the second condition of \<open>only_candidate\<close> cannot
  be dropped.
\<close>

definition kill_and_lead :: "'c event list" where
  "kill_and_lead = [Kill 1, LoopExit 1, Run 0]"

lemma killed_server_leads:
  "case stable_run 0 (initial_cluster 3) kill_and_lead of
     Inr c \<Rightarrow> State (srv c 1) = Leader \<and> dead (srv c 1) \<and> cands c = []
   | Inl _ \<Rightarrow> False"
  by (simp add: kill_and_lead_def only_candidate_def ev_Kill_def ev_LoopExit_def run_simps cong: step_congs)

lemma killed_leader_diverges:
  "case cluster_run (initial_cluster 3) (kill_and_lead @ [ClientStart 1 (Some y), StartAppend 0]) of
     Inr c \<Rightarrow> commands (srv c 1) = [Some y] \<and> commands (srv c 0) = []
   | Inl _ \<Rightarrow> False"
  by (simp add: kill_and_lead_def commands_def ev_Kill_def ev_LoopExit_def run_simps cong: step_congs)

text \<open>C4: State machine safety with one candidate: in every execution in which only \<open>p\<close> campaigns and
  \<open>Start\<close> is not called at another server that has been killed and calls itself a leader, whatever the
  network loses, delays or reorders and whoever is killed or crashes and restarts, every server's log and
  the commands it has applied are prefixes of the log of \<open>p\<close>, so any two servers have applied the same
  commands as far as both have come, and no server but \<open>p\<close> leads unless it has been killed.\<close>

theorem stable_leader_agreement:
  assumes "stable_cluster n p c"
  shows "prefix (commands (srv c s)) (commands (srv c p)) \<and> prefix (applied (srv c s)) (commands (srv c p)) \<and>
    (prefix (applied (srv c s)) (applied (srv c s')) \<or> prefix (applied (srv c s')) (applied (srv c s))) \<and>
    (State (srv c s) = Leader \<longrightarrow> s = p \<or> dead (srv c s))"
  using assms by (rule stable_agreement)

theorem stable_leader_agreement_witness:
  "\<exists>c :: nat cluster. applied (srv c 1) = [Some 10] \<and> prefix (applied (srv c 1)) (commands (srv c 0))"
proof -
  obtain c :: "nat cluster" where c: "stable_cluster 3 0 c" "applied (srv c 1) = [Some 10]"
    by (rule stable_commit [of 10])
  from stable_leader_agreement [OF c(1), of 1] c(2) show ?thesis by blast
qed

text \<open>C18: In the executions with one candidate (\<open>only_candidate\<close>) no step whatsoever panics, and no step
  of such an execution takes a command away from the log of the candidate: not a crash and restart of it
  either.\<close>

theorem stable_log_grows:
  assumes "stable_cluster n p c"
  shows "cstep c e \<noteq> Inl Panic \<and>
    (only_candidate p c e \<longrightarrow> cstep c e = Inr c' \<longrightarrow> prefix (commands (srv c p)) (commands (srv c' p)))"
proof -
  have inv: "stable_inv p (commands (srv c p)) c" and ok: "cluster_ok n c"
    using stable_invariant [OF assms] stable_ok [OF assms] by simp_all
  from stable_no_panic [OF ok inv] stable_step_log [OF ok inv] show ?thesis by fastforce
qed

theorem stable_log_grows_witness:
  "\<exists>c c' :: nat cluster. cstep c (Crash 0) = Inr c' \<and> prefix [Some 10] (commands (srv c' 0))"
proof -
  obtain c :: "nat cluster" where c: "stable_cluster 3 0 c" "applied (srv c 0) = [Some 10]"
    by (rule stable_commit [of 10])
  have "servers c = 3" using stable_ok [OF c(1)] by (simp add: cluster_ok_def)
  then obtain c' where c': "cstep c (Crash 0) = Inr c'" by (simp add: ev_Crash_def go_guard_def)
  from stable_log_grows [OF c(1), of "Crash 0" c'] c' have "prefix (commands (srv c 0)) (commands (srv c' 0))"
    by (simp add: only_candidate_def)
  moreover have "prefix (applied (srv c 0)) (commands (srv c 0))"
    using follows_tracks [OF stable_inv_srv [OF stable_invariant [OF c(1)]], of 0] by (simp add: tracks_def)
  ultimately show ?thesis using c' c(2) prefix_order.trans by metis
qed

end
