(* ===== verification/Store_Steps.thy ===== *)
theory Store_Steps
  imports Store_System Raft_Stable Kv_Client
begin

text \<open>
  The whole store as one system: the Raft cluster, the key-value servers on top of it with their apply
  loops, the running calls of the RPC handlers \<open>Get\<close> and \<open>PutAppend\<close>, and the clerks that send the RPCs. A
  handler is a thread that takes the lock of its server once per step, so handlers, apply loops, elections,
  replication, lost messages and crashes interleave freely.
\<close>

section \<open>Clerks and handlers\<close>

text \<open>A call of \<open>Get\<close>, \<open>Put\<close> or \<open>Append\<close> of a clerk.\<close>

datatype clerk_call = CkGet string | CkPut string string | CkAppend string string

text \<open>
  The running or finished loop of a clerk: the arguments it fixed, the clock at the call, the server the
  loop variable points at, the RPC it waits for, and the value returned with the clock at the return.
\<close>

record clerk_op =
  op_client :: int
  op_ident :: int
  op_args :: clerk_call
  op_called :: nat
  op_server :: nat
  op_rpc :: "nat option"
  op_answer :: "(string \<times> nat) option"

text \<open>
  A handler: \<open>Called\<close> before \<open>isLeader\<close>; \<open>Leading\<close> before \<open>Start\<close>; \<open>Submitted i\<close> waiting for call \<open>i\<close> of
  \<open>Start\<close>; \<open>Polling k\<close> with \<open>k\<close> tests of \<open>existIdWithLock\<close> left; \<open>Committed\<close> before \<open>existKeyWithLock\<close>;
  \<open>Reading\<close> before the read of the storage; \<open>Replied\<close>; \<open>Down\<close> when its process has crashed.
\<close>

datatype handler_stage =
  Called | Leading | Submitted nat | Polling nat | Committed | Reading | Replied string string | Down

record handler =
  h_op :: nat
  h_server :: nat
  h_stage :: handler_stage

record store =
  raft :: "Op cluster"
  kvs :: "nat \<Rightarrow> KVServer"
  clerk_ops :: "clerk_op list"
  handlers :: "handler list"
  clock :: nat

definition initial_store :: "nat \<Rightarrow> store" where
  "initial_store n = \<lparr>raft = initial_cluster n,
     kvs = (\<lambda>s. StartKVServer (int n) (int s) MakePersister (-1)),
     clerk_ops = [], handlers = [], clock = 0\<rparr>"

text \<open>The arguments of the RPC, and the operation its handler hands to \<open>Start\<close>.\<close>

definition get_args :: "clerk_op \<Rightarrow> string \<Rightarrow> GetArgs" where
  "get_args ck key = \<lparr>G_Key = key, G_Client = op_client ck, G_Id = op_ident ck\<rparr>"

definition put_args :: "clerk_op \<Rightarrow> string \<Rightarrow> string \<Rightarrow> string \<Rightarrow> PutAppendArgs" where
  "put_args ck key v task =
     \<lparr>PA_Key = key, PA_Value = v, PA_Op = task, PA_Client = op_client ck, PA_Id = op_ident ck\<rparr>"

definition request_of :: "clerk_op \<Rightarrow> Op" where
  "request_of ck =
     (case op_args ck of
        CkGet key \<Rightarrow> Get_op (get_args ck key)
      | CkPut key v \<Rightarrow> PutAppend_op (put_args ck key v Putt)
      | CkAppend key v \<Rightarrow> PutAppend_op (put_args ck key v Appendd))"

definition is_get :: "clerk_op \<Rightarrow> bool" where
  "is_get ck \<longleftrightarrow> (case op_args ck of CkGet _ \<Rightarrow> True | _ \<Rightarrow> False)"

section \<open>The steps of a handler\<close>

text \<open>A server as its handlers and its apply loop see it: its own fields and its Raft server.\<close>

definition kv_now :: "store \<Rightarrow> nat \<Rightarrow> KVServer" where
  "kv_now st s = (kvs st s)\<lparr>Rf := srv (raft st) s\<rparr>"

text \<open>The steps that only look at the server.\<close>

fun handler_local :: "clerk_op \<Rightarrow> KVServer \<Rightarrow> handler_stage \<Rightarrow> handler_stage option" where
  "handler_local ck kv Called = Some (if isLeader kv then Leading else Replied ErrWrongLeader [])"
| "handler_local ck kv (Polling 0) = Some (Replied ErrWrongLeader [])"
| "handler_local ck kv (Polling (Suc k)) =
     Some (if existId kv (op_ident ck) (op_client ck) then Committed else Polling k)"
| "handler_local ck kv Committed =
     Some (if existKey kv (Op_Key (request_of ck))
           then (if is_get ck then Reading else Replied OK [])
           else (if is_get ck then Replied OK [] else Replied [] []))"
| "handler_local ck kv Reading = Some (Replied OK (go_get [] (storage kv) (Op_Key (request_of ck))))"
| "handler_local ck kv _ = None"

definition set_stage :: "store \<Rightarrow> nat \<Rightarrow> handler_stage \<Rightarrow> store" where
  "set_stage st j stage = st\<lparr>handlers := (handlers st)[j := (handlers st ! j)\<lparr>h_stage := stage\<rparr>]\<rparr>"

definition ev_Handle :: "store \<Rightarrow> nat \<Rightarrow> store go" where
  "ev_Handle st j = go_guard (j < length (handlers st))
     (let h = handlers st ! j; ck = clerk_ops st ! h_op h in
      case h_stage h of
        Leading \<Rightarrow>
          go_bind (cstep (raft st) (ClientStart (h_server h) (Some (request_of ck)))) (\<lambda>c.
            Inr (set_stage (st\<lparr>raft := c\<rparr>) j (Submitted (length (starts (raft st))))))
      | Submitted i \<Rightarrow>
          (case start_stage (starts (raft st) ! i) of
             Answered _ _ Success \<Rightarrow>
               Inr (set_stage st j (if Success then Polling 10 else Replied ErrWrongLeader []))
           | _ \<Rightarrow> Inl Disabled)
      | stage \<Rightarrow>
          (case handler_local ck (kv_now st (h_server h)) stage of
             None \<Rightarrow> Inl Disabled
           | Some stage' \<Rightarrow> Inr (set_stage st j stage')))"

section \<open>The apply loop and crashes\<close>

text \<open>\<open>listenApplyCh\<close> receives the next message and applies it.\<close>

definition ev_Consume :: "store \<Rightarrow> nat \<Rightarrow> store go" where
  "ev_Consume st s =
     (let kv = kv_now st s; msgs = ApplyChan (srv (raft st) s) in
      go_guard (\<not> kv_dead kv \<and> applyCh kv < length msgs)
        (go_bind (listenApplyCh kv [msgs ! applyCh kv]) (\<lambda>kv'.
           Inr (st\<lparr>kvs := (kvs st)(s := kv')\<rparr>))))"

definition ev_KillServer :: "store \<Rightarrow> nat \<Rightarrow> store go" where
  "ev_KillServer st s =
     go_bind (cstep (raft st) (Kill s)) (\<lambda>c.
       Inr (st\<lparr>raft := c, kvs := (kvs st)(s := KVServer_Kill (kv_now st s))\<rparr>))"

text \<open>The process of server \<open>s\<close> crashes and starts again from its persister; a reply that has been sent
  may still arrive.\<close>

definition crash_handler :: "nat \<Rightarrow> handler \<Rightarrow> handler" where
  "crash_handler s h =
     (if h_server h = s then h\<lparr>h_stage := (case h_stage h of Replied e v \<Rightarrow> Replied e v | _ \<Rightarrow> Down)\<rparr> else h)"

definition ev_CrashServer :: "store \<Rightarrow> nat \<Rightarrow> store go" where
  "ev_CrashServer st s =
     go_bind (cstep (raft st) (Crash s)) (\<lambda>c.
       Inr (st\<lparr>raft := c,
         kvs := (kvs st)(s := StartKVServer (int (servers c)) (int s)
           (Copy (persister (srv (raft st) s))) (-1)),
         handlers := map (crash_handler s) (handlers st)\<rparr>))"

section \<open>The loop of a clerk\<close>

text \<open>A clerk calls \<open>Get\<close>, \<open>Put\<close> or \<open>Append\<close> once its last call has returned (\<open>ck.mu\<close>); \<open>i\<close> is the time it
  reads as the identity of the request, which no request of this client had before.\<close>

definition ev_Invoke :: "store \<Rightarrow> int \<Rightarrow> int \<Rightarrow> clerk_call \<Rightarrow> store go" where
  "ev_Invoke st client i call = go_guard
     (list_all (\<lambda>ck. op_client ck = client \<longrightarrow> op_ident ck \<noteq> i \<and> op_answer ck \<noteq> None) (clerk_ops st))
     (Inr (st\<lparr>clerk_ops := clerk_ops st @ [\<lparr>op_client = client, op_ident = i, op_args = call,
        op_called = clock st, op_server = 0, op_rpc = None, op_answer = None\<rparr>],
        clock := clock st + 1\<rparr>))"

definition set_op :: "store \<Rightarrow> nat \<Rightarrow> clerk_op \<Rightarrow> store" where
  "set_op st k ck = st\<lparr>clerk_ops := (clerk_ops st)[k := ck]\<rparr>"

text \<open>The loop sends its RPC to the next server.\<close>

definition ev_Send :: "store \<Rightarrow> nat \<Rightarrow> store go" where
  "ev_Send st k = go_guard (k < length (clerk_ops st))
     (let ck = clerk_ops st ! k in go_guard
        (op_answer ck = None \<and> op_rpc ck = None \<and> op_server ck < servers (raft st))
        (Inr ((set_op st k (ck\<lparr>op_rpc := Some (length (handlers st)),
             op_server := (op_server ck + 1) mod servers (raft st)\<rparr>))
           \<lparr>handlers := handlers st @ [\<lparr>h_op = k, h_server = op_server ck, h_stage = Called\<rparr>]\<rparr>)))"

text \<open>The RPC returns false; its handler may run on.\<close>

definition ev_RpcFails :: "store \<Rightarrow> nat \<Rightarrow> store go" where
  "ev_RpcFails st k = go_guard (k < length (clerk_ops st) \<and> op_rpc (clerk_ops st ! k) \<noteq> None)
     (Inr (set_op st k ((clerk_ops st ! k)\<lparr>op_rpc := None\<rparr>)))"

text \<open>The RPC returns a reply: on \<open>OK\<close> the call of the clerk returns.\<close>

definition ev_Receive :: "store \<Rightarrow> nat \<Rightarrow> store go" where
  "ev_Receive st k = go_guard (k < length (clerk_ops st))
     (let ck = clerk_ops st ! k in
      case op_rpc ck of
        None \<Rightarrow> Inl Disabled
      | Some j \<Rightarrow>
          (case h_stage (handlers st ! j) of
             Replied err v \<Rightarrow>
               Inr ((set_op st k (ck\<lparr>op_rpc := None,
                 op_answer := (if err = OK then Some (v, clock st) else op_answer ck)\<rparr>))
                 \<lparr>clock := clock st + 1\<rparr>)
           | _ \<Rightarrow> Inl Disabled))"

section \<open>The step function of the store\<close>

text \<open>\<open>Net e\<close> is a step of the cluster that is no call of \<open>Start\<close>, no kill and no crash.\<close>

datatype store_event =
    Net "Op event" | Handle nat | Consume nat | KillServer nat | CrashServer nat
  | Invoke int int clerk_call | Send nat | RpcFails nat | Receive nat

definition own_step :: "Op event \<Rightarrow> bool" where
  "own_step e \<longleftrightarrow> (case e of ClientStart _ _ \<Rightarrow> False | Kill _ \<Rightarrow> False | Crash _ \<Rightarrow> False | _ \<Rightarrow> True)"

fun sstep :: "store \<Rightarrow> store_event \<Rightarrow> store go" where
  "sstep st (Net e) = go_guard (own_step e) (go_bind (cstep (raft st) e) (\<lambda>c. Inr (st\<lparr>raft := c\<rparr>)))"
| "sstep st (Handle j) = ev_Handle st j"
| "sstep st (Consume s) = ev_Consume st s"
| "sstep st (KillServer s) = ev_KillServer st s"
| "sstep st (CrashServer s) = ev_CrashServer st s"
| "sstep st (Invoke client i call) = ev_Invoke st client i call"
| "sstep st (Send k) = ev_Send st k"
| "sstep st (RpcFails k) = ev_RpcFails st k"
| "sstep st (Receive k) = ev_Receive st k"

text \<open>
  Executions of the store in which only server \<open>p\<close> campaigns, and no handler calls \<open>Start\<close> at another
  server that has been killed and calls itself a leader (\<open>only_candidate\<close> of the cluster).
\<close>

definition only_candidate_in :: "nat \<Rightarrow> store \<Rightarrow> store_event \<Rightarrow> bool" where
  "only_candidate_in p st e \<longleftrightarrow>
     (case e of
        Net e' \<Rightarrow> only_candidate p (raft st) e'
      | Handle j \<Rightarrow> h_stage (handlers st ! j) = Leading \<longrightarrow>
          only_candidate p (raft st) (ClientStart (h_server (handlers st ! j)) None)
      | _ \<Rightarrow> True)"

inductive stable_store :: "nat \<Rightarrow> nat \<Rightarrow> store \<Rightarrow> bool" for n p :: nat where
  stable_store_init: "stable_store n p (initial_store n)"
| stable_store_step:
    "stable_store n p st \<Longrightarrow> only_candidate_in p st e \<Longrightarrow> sstep st e = Inr st' \<Longrightarrow> stable_store n p st'"

section \<open>The steps of a handler compute the handler\<close>

text \<open>A handler that meets the states \<open>obs t, obs (t + 1), \<dots>\<close> at its locks.\<close>

fun run_local :: "nat \<Rightarrow> clerk_op \<Rightarrow> (nat \<Rightarrow> KVServer) \<Rightarrow> nat \<Rightarrow> handler_stage \<Rightarrow> handler_stage" where
  "run_local 0 ck obs t stage = stage"
| "run_local (Suc n) ck obs t stage =
     (case handler_local ck (obs t) stage of
        None \<Rightarrow> stage
      | Some stage' \<Rightarrow> run_local n ck obs (t + 1) stage')"

lemma run_local_Replied [simp]: "run_local n ck obs t (Replied e v) = Replied e v"
  by (cases n) simp_all

lemma run_local_poll:
  "run_local (Suc n) ck obs t (Polling (Suc i)) =
     (if existId (obs t) (op_ident ck) (op_client ck) then run_local n ck obs (t + 1) Committed
      else run_local n ck obs (t + 1) (Polling i))"
  by simp

lemma run_local_Get:
  assumes "op_args ck = CkGet key"
  shows "run_local (Suc (Suc (Suc i))) ck obs t (Polling i) =
    Replied (GR_Err (Get_poll i obs t (get_args ck key))) (GR_Value (Get_poll i obs t (get_args ck key)))"
proof (induction i arbitrary: t)
  case 0
  then show ?case by (simp add: wrongLeader_def)
next
  case (Suc i)
  have k: "Op_Key (request_of ck) = key" and g: "is_get ck"
    using assms by (simp_all add: request_of_def Get_op_def get_args_def is_get_def)
  show ?case
    unfolding run_local_poll using Suc [of "t + 1"]
    by (cases "existId (obs t) (op_ident ck) (op_client ck)") (simp_all add: get_args_def k g)
qed

lemma run_local_PutAppend:
  assumes "request_of ck = PutAppend_op (put_args ck key v task)" and "\<not> is_get ck"
  shows "run_local (Suc (Suc (Suc i))) ck obs t (Polling i) =
    Replied (PAR_Err (PutAppend_poll i obs t (put_args ck key v task))) []"
proof (induction i arbitrary: t)
  case 0
  then show ?case by simp
next
  case (Suc i)
  have k: "Op_Key (request_of ck) = key" using assms(1) by (simp add: PutAppend_op_def put_args_def)
  show ?case
    unfolding run_local_poll using Suc [of "t + 1"]
    by (cases "existId (obs t) (op_ident ck) (op_client ck)") (simp_all add: put_args_def k assms(2))
qed

section \<open>A session\<close>

fun srun :: "nat \<Rightarrow> store \<Rightarrow> store_event list \<Rightarrow> store go" where
  "srun p st [] = Inr st"
| "srun p st (e # es) =
     (if only_candidate_in p st e then go_bind (sstep st e) (\<lambda>st1. srun p st1 es) else Inl Disabled)"

lemma srun_stable: "stable_store n p st \<Longrightarrow> srun p st es = Inr st' \<Longrightarrow> stable_store n p st'"
proof (induction es arbitrary: st)
  case Nil
  then show ?case by simp
next
  case (Cons e es)
  then show ?case by (auto simp: go_simps split: if_splits intro: stable_store_step)
qed

text \<open>Server 0 is elected; a clerk puts \<open>a\<close> and another clerk gets it.\<close>

definition put_session :: "store_event list" where
  "put_session =
     map Net (elect_0 @ [Run 2, Run 3, Run 4, DrainHB 1, Run 4, Run 4]) @
     [Invoke 1 7 (CkPut ''k'' ''a''), Send 0, Handle 0, Handle 0, Net (StartAppend 0)] @
     map Net [Run 7, Run 7, Run 7, Run 7, DrainHB 1, Run 7, Run 7, StartReturn 0] @
     [Handle 0, Consume 0, Handle 0, Handle 0, Receive 0]"

definition get_session :: "store_event list" where
  "get_session =
     [Invoke 2 8 (CkGet ''k''), Send 1, Handle 1, Handle 1, Net (StartAppend 1)] @
     map Net [Run 9, Run 9, Run 9, Run 9, DrainHB 1, Run 9, Run 9, StartReturn 1] @
     [Handle 1, Consume 0, Handle 1, Handle 1, Handle 1, Receive 1]"

lemma handler_local_numeral [simp]:
  "handler_local ck kv (Polling (numeral k)) =
     Some (if existId kv (op_ident ck) (op_client ck) then Committed else Polling (pred_numeral k))"
  by (simp add: numeral_eq_Suc)

lemmas store_defs =
  initial_store_def StartKVServer_def get_args_def put_args_def request_of_def is_get_def kv_now_def
  set_stage_def ev_Handle_def ev_Consume_def ev_Invoke_def set_op_def ev_Send_def ev_Receive_def
  own_step_def only_candidate_in_def only_candidate_def isLeader_def GetState_def existId_def existKey_def
  applyOp_def Get_op_def PutAppend_op_def OK_def ErrWrongLeader_def Putt_def Appendd_def Gett_def

lemma session_run:
  "case srun 0 (initial_store 3) (put_session @ get_session) of
     Inr st \<Rightarrow> map (\<lambda>ck. (op_args ck, op_called ck, op_answer ck)) (clerk_ops st) =
       [(CkPut ''k'' ''a'', 0, Some ([], 1)), (CkGet ''k'', 2, Some (''a'', 3))]
   | Inl _ \<Rightarrow> False"
  by (simp add: put_session_def get_session_def elect_0_def store_defs run_simps cong: step_congs)

end
