(* ===== verification/Store_Log.thy ===== *)
theory Store_Log
  imports Kv_Machine Porc_Locality
begin

text \<open>
  Why a store whose servers all apply prefixes of one log of requests is linearizable, although requests
  are repeated in the log and a read is answered some time after its place in it. The argument is made once,
  in the locale \<open>log_machine\<close>, for any machine that executes every request once, and interpreted on the
  key-value machine.
\<close>

section \<open>Legal sequences\<close>

definition run_ops ::
  "('st \<Rightarrow> 'i \<Rightarrow> 'o \<Rightarrow> bool \<times> 'st) \<Rightarrow> 'st \<Rightarrow> ('i, 'o) Operation list \<Rightarrow> 'st" where
  "run_ops step st xs = foldl (\<lambda>s x. snd (step s (Operation_Input x) (Operation_Output x))) st xs"

lemma run_ops_simps [simp]:
  "run_ops step st [] = st"
  "run_ops step st (x # xs) = run_ops step (snd (step st (Operation_Input x) (Operation_Output x))) xs"
  "run_ops step st (xs @ ys) = run_ops step (run_ops step st xs) ys"
  by (simp_all add: run_ops_def)

lemma legal_ops_append:
  "legal_ops step st (xs @ ys) \<longleftrightarrow> legal_ops step st xs \<and> legal_ops step (run_ops step st xs) ys"
  by (induction xs arbitrary: st) (auto split: prod.splits)

lemma legal_ops_stay:
  assumes "\<And>x. x \<in> set xs \<Longrightarrow> step st (Operation_Input x) (Operation_Output x) = (True, st)"
  shows "legal_ops step st xs \<and> run_ops step st xs = st"
  using assms by (induction xs) auto

lemma sorted_wrt_all: "(\<And>x y. x \<in> set xs \<Longrightarrow> y \<in> set xs \<Longrightarrow> P x y) \<Longrightarrow> sorted_wrt P xs"
  by (induction xs) auto

section \<open>Machines that execute a log of requests once each\<close>

text \<open>
  An operation of a history with the request it sent and the length of a prefix of the log that contains
  the request; a read was answered from the state after this prefix.
\<close>

record ('op, 'i, 'o) logged =
  lg_request :: 'op
  lg_point :: nat
  lg_operation :: "('i, 'o) Operation"

locale log_machine =
  fixes exec :: "'op \<Rightarrow> 'st \<Rightarrow> 'st"
    and ident :: "'op \<Rightarrow> 'id"
    and update :: "'op \<Rightarrow> bool"
    and empty :: 'st
    and view :: "'st \<Rightarrow> 'a"
    and step :: "'a \<Rightarrow> 'i \<Rightarrow> 'o \<Rightarrow> bool \<times> 'a"
    and inp :: "'op \<Rightarrow> 'i"
    and answer :: "'op \<Rightarrow> 'st \<Rightarrow> 'o"
  assumes read_only: "\<not> update r \<Longrightarrow> exec r s = s"
    and update_step: "update r \<Longrightarrow> step (view s) (inp r) out = (True, view (exec r s))"
    and read_step: "\<not> update r \<Longrightarrow> step (view s) (inp r) (answer r s) = (True, view s)"
begin

definition value_after :: "'op list \<Rightarrow> 'st" where
  "value_after rs = foldl (\<lambda>st r. exec r st) empty (first_requests ident {} rs)"

definition contains :: "'op list \<Rightarrow> 'op \<Rightarrow> bool" where
  "contains rs r \<longleftrightarrow> ident r \<in> ident ` set rs"

lemma value_after_Nil [simp]: "value_after [] = empty"
  by (simp add: value_after_def)

lemma value_after_snoc:
  "value_after (rs @ [r]) = (if contains rs r then value_after rs else exec r (value_after rs))"
  by (simp add: value_after_def contains_def first_requests_append)

lemma contains_take_mono: "contains (take i rs) r \<Longrightarrow> i \<le> j \<Longrightarrow> contains (take j rs) r"
  using set_take_subset_set_take [of i j rs] by (auto simp: contains_def)

text \<open>What relates the operations of a history to the log.\<close>

definition explained :: "'op list \<Rightarrow> ('op, 'i, 'o) logged list \<Rightarrow> bool" where
  "explained rs xs \<longleftrightarrow> distinct (map (\<lambda>x. ident (lg_request x)) xs) \<and>
     (\<forall>x \<in> set xs. Operation_Input (lg_operation x) = inp (lg_request x) \<and> lg_point x \<le> length rs \<and>
        contains (take (lg_point x) rs) (lg_request x) \<and>
        (\<not> update (lg_request x) \<longrightarrow> Operation_Output (lg_operation x) =
           answer (lg_request x) (value_after (take (lg_point x) rs))) \<and>
        (\<forall>r \<in> set rs. ident r = ident (lg_request x) \<longrightarrow> r = lg_request x)) \<and>
     (\<forall>r \<in> set rs. update r \<longrightarrow> r \<in> lg_request ` set xs) \<and>
     (\<forall>x \<in> set xs. \<forall>y \<in> set xs. Operation_Return (lg_operation x) < Operation_Call (lg_operation y) \<longrightarrow>
        \<not> contains (take (lg_point x) rs) (lg_request y))"

text \<open>Updates take effect at the first occurrence of their request, reads at their point.\<close>

definition first_at :: "'op list \<Rightarrow> 'op \<Rightarrow> nat" where
  "first_at rs r = length (takeWhile (\<lambda>q. ident q \<noteq> ident r) rs)"

definition place :: "'op list \<Rightarrow> ('op, 'i, 'o) logged \<Rightarrow> nat" where
  "place rs x = (if update (lg_request x) then Suc (first_at rs (lg_request x)) else lg_point x)"

lemma contains_first_at:
  assumes "i \<le> length rs"
  shows "contains (take i rs) r \<longleftrightarrow> first_at rs r < i"
proof
  assume "contains (take i rs) r"
  then obtain j where j: "j < i" "j < length rs" "ident (rs ! j) = ident r"
    by (auto simp: contains_def in_set_conv_nth)
  then have "\<not> j < first_at rs r"
    unfolding first_at_def by (metis (mono_tags, lifting) nth_mem set_takeWhileD takeWhile_nth)
  with j(1) show "first_at rs r < i" by simp
next
  assume i: "first_at rs r < i"
  then have "first_at rs r < length rs" using assms by simp
  then have "ident (rs ! first_at rs r) = ident r"
    using nth_length_takeWhile [of "\<lambda>q. ident q \<noteq> ident r" rs] by (simp add: first_at_def)
  moreover have "rs ! first_at rs r \<in> set (take i rs)"
    using i assms by (metis length_take min.absorb2 nth_mem nth_take)
  ultimately show "contains (take i rs) r" by (metis contains_def image_eqI)
qed

lemma place_bounds:
  assumes "lg_point x \<le> length rs" and "contains (take (lg_point x) rs) (lg_request x)"
  shows "0 < place rs x" and "place rs x \<le> lg_point x"
  using contains_first_at [OF assms(1)] assms(2) by (auto simp: place_def)

text \<open>The linearization: at every prefix of the log the update that its last request is, then the reads
  answered from it.\<close>

definition block :: "'op list \<Rightarrow> ('op, 'i, 'o) logged list \<Rightarrow> nat \<Rightarrow> ('op, 'i, 'o) logged list" where
  "block rs xs i =
     filter (\<lambda>x. update (lg_request x) \<and> place rs x = i) xs @
     filter (\<lambda>x. \<not> update (lg_request x) \<and> place rs x = i) xs"

definition linear :: "'op list \<Rightarrow> ('op, 'i, 'o) logged list \<Rightarrow> nat \<Rightarrow> ('op, 'i, 'o) logged list" where
  "linear rs xs n = concat (map (block rs xs) [0..<Suc n])"

lemma mset_block: "mset (block rs xs i) = filter_mset (\<lambda>x. place rs x = i) (mset xs)"
  by (induction xs) (auto simp: block_def)

lemma mset_linear: "mset (linear rs xs n) = filter_mset (\<lambda>x. place rs x \<le> n) (mset xs)"
proof (induction n)
  case 0
  then show ?case by (simp add: linear_def mset_block)
next
  case (Suc n)
  have "mset (linear rs xs (Suc n)) = mset (linear rs xs n) + mset (block rs xs (Suc n))"
    by (simp add: linear_def)
  also have "\<dots> = filter_mset (\<lambda>x. place rs x \<le> Suc n) (mset xs)"
    unfolding Suc mset_block by (induction xs) auto
  finally show ?case .
qed

lemma set_block: "x \<in> set (block rs xs i) \<longleftrightarrow> x \<in> set xs \<and> place rs x = i"
  by (auto simp: block_def)

lemma set_linear: "x \<in> set (linear rs xs n) \<longleftrightarrow> x \<in> set xs \<and> place rs x \<le> n"
  by (auto simp: linear_def set_block)

lemma linear_sorted: "sorted_wrt (\<lambda>x y. place rs x \<le> place rs y) (linear rs xs n)"
proof (induction n)
  case 0
  then show ?case by (auto simp: linear_def set_block intro!: sorted_wrt_all)
next
  case (Suc n)
  have "sorted_wrt (\<lambda>x y. place rs x \<le> place rs y) (block rs xs (Suc n))"
    by (auto simp: set_block intro!: sorted_wrt_all)
  moreover have "linear rs xs (Suc n) = linear rs xs n @ block rs xs (Suc n)" by (simp add: linear_def)
  ultimately show ?case using Suc by (auto simp: sorted_wrt_append set_linear set_block)
qed

text \<open>Real time: an operation that is called after another has returned has a later place.\<close>

lemma place_after:
  assumes e: "explained rs xs" and x: "x \<in> set xs" and y: "y \<in> set xs"
    and "Operation_Return (lg_operation x) < Operation_Call (lg_operation y)"
  shows "place rs x < place rs y"
proof -
  have px: "lg_point x \<le> length rs" "contains (take (lg_point x) rs) (lg_request x)"
    and py: "lg_point y \<le> length rs" "contains (take (lg_point y) rs) (lg_request y)"
    using e x y by (simp_all add: explained_def)
  have n: "\<not> contains (take (lg_point x) rs) (lg_request y)"
    using e x y assms(4) by (simp add: explained_def)
  then have "lg_point x \<le> first_at rs (lg_request y)" using contains_first_at [OF px(1)] by simp
  moreover have "first_at rs (lg_request y) < lg_point y" using contains_first_at [OF py(1)] py(2) by simp
  moreover have "place rs x \<le> lg_point x" using place_bounds [OF px] by simp
  ultimately show ?thesis by (simp add: place_def [of rs y])
qed

text \<open>The update at a place is the request there, at its first occurrence.\<close>

lemma update_at:
  assumes e: "explained rs xs" and i: "i < length rs"
  shows "filter (\<lambda>x. update (lg_request x) \<and> place rs x = Suc i) xs = [] \<and>
      value_after (take (Suc i) rs) = value_after (take i rs) \<or>
    (\<exists>x \<in> set xs. filter (\<lambda>x. update (lg_request x) \<and> place rs x = Suc i) xs = [x] \<and> update (lg_request x) \<and>
      value_after (take (Suc i) rs) = exec (lg_request x) (value_after (take i rs)))"
proof -
  let ?U = "filter (\<lambda>x. update (lg_request x) \<and> place rs x = Suc i) xs"
  have snoc: "value_after (take (Suc i) rs) = (if contains (take i rs) (rs ! i) then value_after (take i rs)
      else exec (rs ! i) (value_after (take i rs)))"
    using i by (simp add: take_Suc_conv_app_nth value_after_snoc)
  have U: "update (lg_request x) \<and> lg_request x = rs ! i \<and> \<not> contains (take i rs) (rs ! i)" if "x \<in> set ?U" for x
  proof -
    from that have x: "x \<in> set xs" "update (lg_request x)" "first_at rs (lg_request x) = i"
      by (auto simp: place_def split: if_splits)
    with i have "ident (rs ! i) = ident (lg_request x)"
      using nth_length_takeWhile [of "\<lambda>q. ident q \<noteq> ident (lg_request x)" rs] by (simp add: first_at_def)
    moreover have "rs ! i \<in> set rs" using i by simp
    ultimately have "rs ! i = lg_request x" using e x(1) by (simp add: explained_def)
    moreover have "\<not> contains (take i rs) (lg_request x)" using contains_first_at [of i rs] i x(3) by simp
    ultimately show ?thesis using x(2) by simp
  qed
  show ?thesis
  proof (cases ?U)
    case Nil
    have "contains (take i rs) (rs ! i) \<or> \<not> update (rs ! i)"
    proof (rule ccontr)
      assume n: "\<not> ?thesis"
      then obtain x where x: "x \<in> set xs" "lg_request x = rs ! i"
        using e i by (force simp: explained_def)
      have "first_at rs (rs ! i) = i"
        using contains_first_at [of i rs "rs ! i"] contains_first_at [of "Suc i" rs "rs ! i"] n i
        by (auto simp: contains_def take_Suc_conv_app_nth)
      with x n have "x \<in> set ?U" by (simp add: place_def)
      with Nil show False by simp
    qed
    with Nil snoc read_only show ?thesis by auto
  next
    case (Cons x xs')
    have x: "x \<in> set ?U" using Cons by (metis list.set_intros(1))
    have d: "distinct (map (\<lambda>x. ident (lg_request x)) ?U)" using e by (simp add: explained_def distinct_map_filter)
    have "xs' = []"
    proof (cases xs')
      case (Cons y ys)
      with \<open>?U = x # xs'\<close> have "y \<in> set ?U" by (metis list.set_intros)
      then have "lg_request y = lg_request x" using U [OF x] U [of y] by metis
      with d show ?thesis unfolding \<open>?U = x # xs'\<close> Cons by simp
    qed
    moreover have "x \<in> set xs" using x by simp
    moreover have "value_after (take (Suc i) rs) = exec (lg_request x) (value_after (take i rs))"
      using U [OF x] snoc by metis
    ultimately show ?thesis using U [OF x] Cons by blast
  qed
qed

lemma legal_block:
  assumes e: "explained rs xs" and i: "i < length rs"
  shows "legal_ops step (view (value_after (take i rs))) (map lg_operation (block rs xs (Suc i))) \<and>
    run_ops step (view (value_after (take i rs))) (map lg_operation (block rs xs (Suc i))) =
      view (value_after (take (Suc i) rs))"
proof -
  let ?U = "filter (\<lambda>x. update (lg_request x) \<and> place rs x = Suc i) xs"
  let ?R = "filter (\<lambda>x. \<not> update (lg_request x) \<and> place rs x = Suc i) xs"
  let ?s = "value_after (take i rs)" and ?s' = "value_after (take (Suc i) rs)"
  have inp: "x \<in> set xs \<Longrightarrow> Operation_Input (lg_operation x) = inp (lg_request x)" for x
    using e by (simp add: explained_def)
  have "legal_ops step (view ?s) (map lg_operation ?U) \<and> run_ops step (view ?s) (map lg_operation ?U) = view ?s'"
    using update_at [OF e i] by (auto simp: inp update_step)
  moreover have "legal_ops step (view ?s') (map lg_operation ?R) \<and>
      run_ops step (view ?s') (map lg_operation ?R) = view ?s'"
  proof (rule legal_ops_stay)
    fix z assume "z \<in> set (map lg_operation ?R)"
    then obtain x where x: "x \<in> set xs" "\<not> update (lg_request x)" "lg_point x = Suc i" "z = lg_operation x"
      by (auto simp: place_def)
    then have "Operation_Output z = answer (lg_request x) ?s'" using e by (simp add: explained_def)
    with read_step [OF x(2)] inp [OF x(1)] x(4)
    show "step (view ?s') (Operation_Input z) (Operation_Output z) = (True, view ?s')" by simp
  qed
  ultimately show ?thesis by (simp add: block_def legal_ops_append)
qed

lemma explained_place:
  assumes "explained rs xs" and "x \<in> set xs"
  shows "0 < place rs x" and "place rs x \<le> length rs"
proof -
  have p: "lg_point x \<le> length rs" "contains (take (lg_point x) rs) (lg_request x)"
    using assms by (simp_all add: explained_def)
  from place_bounds [OF p] p(1) show "0 < place rs x" and "place rs x \<le> length rs" by linarith+
qed

lemma legal_linear:
  assumes "explained rs xs" and "n \<le> length rs"
  shows "legal_ops step (view empty) (map lg_operation (linear rs xs n)) \<and>
    run_ops step (view empty) (map lg_operation (linear rs xs n)) = view (value_after (take n rs))"
  using assms(2)
proof (induction n)
  case 0
  have "x \<notin> set (block rs xs 0)" for x
    using explained_place(1) [OF assms(1)] by (auto simp: set_block)
  then have "block rs xs 0 = []" by (metis list.set_intros(1) neq_Nil_conv)
  then show ?case by (simp add: linear_def)
next
  case (Suc n)
  have "linear rs xs (Suc n) = linear rs xs n @ block rs xs (Suc n)" by (simp add: linear_def)
  with Suc legal_block [OF assms(1), of n] show ?case by (simp add: legal_ops_append)
qed

theorem explained_linearizable:
  assumes e: "explained rs xs"
  shows "linearizable_history step (view empty) (map lg_operation xs)"
proof -
  let ?l = "linear rs xs (length rs)"
  have m: "mset ?l = mset xs"
    using explained_place(2) [OF e] by (simp add: mset_linear filter_mset_eq_conv)
  then have "mset (map lg_operation ?l) = mset (map lg_operation xs)" by simp
  moreover have "set ?l \<subseteq> set xs" by (auto simp: set_linear)
  then have "sorted_wrt (\<lambda>x y. \<not> Operation_Return (lg_operation y) < Operation_Call (lg_operation x)) ?l"
    using place_after [OF e] by (intro sorted_wrt_mono_rel [OF _ linear_sorted]) (meson leD subsetD)
  then have "respects_time (map lg_operation ?l)" by (simp add: respects_time_def sorted_wrt_map)
  ultimately show ?thesis
    using legal_linear [OF e, of "length rs"] unfolding linearizable_history_def linearization_of_def
    by (intro exI [of _ "map lg_operation ?l"]) simp
qed

end

section \<open>The key-value machine\<close>

text \<open>A request as an input of the model of the checker, and the answer to a get.\<close>

definition is_update :: "Op \<Rightarrow> bool" where
  "is_update r \<longleftrightarrow> OpTask r = Putt \<or> OpTask r = Appendd"

definition kv_input :: "Op \<Rightarrow> KvInput" where
  "kv_input r = \<lparr>KvInput_Op = (if OpTask r = Putt then 1 else if OpTask r = Appendd then 2 else 0),
     KvInput_Key = Op_Key r, KvInput_Value = Op_Value r\<rparr>"

definition kv_view :: "(string \<rightharpoonup> string) \<Rightarrow> string \<Rightarrow> string" where
  "kv_view m k = go_get [] m k"

definition kv_answer :: "Op \<Rightarrow> (string \<rightharpoonup> string) \<Rightarrow> KvOutput" where
  "kv_answer r m = \<lparr>KvOutput_Value = go_get [] m (Op_Key r)\<rparr>"

interpretation kvlog: log_machine exec_op request_id is_update Map.empty kv_view
  "store_step KvInput_Key kv_Step" kv_input kv_answer
proof
  show "\<not> is_update r \<Longrightarrow> exec_op r s = s" for r s
    by (simp add: is_update_def exec_op_def)
  show "is_update r \<Longrightarrow> store_step KvInput_Key kv_Step (kv_view s) (kv_input r) out = (True, kv_view (exec_op r s))"
    for r s out
    by (auto simp: is_update_def exec_op_def store_step_def kv_Step_def kv_input_def kv_view_def)
  show "\<not> is_update r \<Longrightarrow>
      store_step KvInput_Key kv_Step (kv_view s) (kv_input r) (kv_answer r s) = (True, kv_view s)" for r s
    by (auto simp: is_update_def store_step_def kv_Step_def kv_input_def kv_view_def kv_answer_def)
qed

end
