(* ===== verification/Store_Invariant.thy ===== *)
theory Store_Invariant
  imports Store_Steps Store_Log
begin

text \<open>
  The invariant that ties the clerks, the handlers and the key-value servers to the log of the one
  candidate, and that every step of the store keeps it: what a server has executed is a prefix of the log,
  a handler past its test of \<open>existId\<close> has its request in the log, and an answer has a point in the log that
  lies before every request of a later call.
\<close>

section \<open>Calls of Start\<close>

text \<open>Only \<open>ClientStart\<close> adds a call, and no step changes the command of one.\<close>

definition start_commands :: "'c cluster \<Rightarrow> 'c option list" where
  "start_commands c = map start_command (starts c)"

lemma start_commands_simps [simp]:
  "start_commands (set_srv c s rf) = start_commands c"
  "start_commands (set_thread c j t) = start_commands c"
  "start_commands (spawn c ts) = start_commands c"
  "start_commands (set_cand c k cd) = start_commands c"
  "start_commands (c\<lparr>phase := ph\<rparr>) = start_commands c"
  "start_commands (c\<lparr>loop_no := l\<rparr>) = start_commands c"
  "start_commands (c\<lparr>cands := cs\<rparr>) = start_commands c"
  "start_commands (c\<lparr>votes_cast := vc\<rparr>) = start_commands c"
  "start_commands (c\<lparr>elected := el\<rparr>) = start_commands c"
  by (simp_all add: start_commands_def set_srv_def set_thread_def spawn_def set_cand_def)

lemma start_commands_set_start [simp]: "start_commands (set_start c i st) = start_commands c"
  unfolding start_commands_def set_start_def
  by (rule nth_equalityI) (auto simp: nth_list_update_if)

lemma start_commands_finish [simp]: "start_commands (finish_append c j w) = start_commands c"
  by (simp add: finish_append_def Let_def split: option.splits start_stage.splits)

lemma start_commands_parts:
  "vote_at c v a = Inr (c1, r) \<Longrightarrow> start_commands c1 = start_commands c"
  "append_at c v a' = Inr (c1, r') \<Longrightarrow> start_commands c1 = start_commands c"
  "count_vote c j k v r'' = Inr c1 \<Longrightarrow> start_commands c1 = start_commands c"
  "beat_reply c j s v r3 = Inr c1 \<Longrightarrow> start_commands c1 = start_commands c"
  "app_reply c j s v a' r3 w = Inr c1 \<Longrightarrow> start_commands c1 = start_commands c"
  by (auto simp: vote_at_def append_at_def count_vote_def beat_reply_def app_reply_def Let_def go_simps
      split: option.splits if_splits)

lemma run_thread_starts: "run_thread c j t = Inr c' \<Longrightarrow> start_commands c' = start_commands c"
  by (cases t) (auto simp: go_simps ev_LeaderSetup_def ev_LeaderTurn_def ev_BeatCheck_def ev_BeatBuild_def
      ev_AppInit_def ev_AppBuild_def ev_AppLoop_def ev_AppSend_def dest: start_commands_parts split: if_splits)

lemma fail_thread_starts: "fail_thread c j t = Inr c' \<Longrightarrow> start_commands c' = start_commands c"
  by (cases t) (auto simp: go_simps dest: start_commands_parts)

lemma cstep_starts:
  assumes "cstep c e = Inr c'"
  shows "start_commands c' = start_commands c @ (case e of ClientStart s cmd \<Rightarrow> [cmd] | _ \<Rightarrow> [])"
proof (cases e)
  case (Run j)
  with assms run_thread_starts show ?thesis by (auto simp: go_simps)
next
  case (Fail j)
  with assms fail_thread_starts show ?thesis by (auto simp: go_simps)
next
  case (TakeResult k)
  with assms show ?thesis
    by (auto simp: ev_TakeResult_def go_simps Let_def split: cand_stage.splits election_result.splits)
next
  case (StartReturn i)
  with assms show ?thesis
    by (auto simp: ev_StartReturn_def go_simps Let_def split: start_stage.splits prod.splits)
next
  case (ClientStart s cmd)
  with assms show ?thesis by (auto simp: ev_Start_def go_simps start_commands_def)
next
  case (Crash s)
  with assms show ?thesis by (auto simp: ev_Crash_def go_simps start_commands_def)
qed (use assms in \<open>auto simp: go_simps Let_def ev_Tick_def ev_DrainHB_def ev_LoopExit_def ev_DrainBecome_def
    ev_Campaign_def ev_Expire_def ev_Decide_def ev_StartAppend_def ev_Kill_def split: prod.splits\<close>)

section \<open>The invariant\<close>

text \<open>\<open>answered_at rs ck v m\<close>: the request is among the first \<open>m\<close> of the log, and a get answers \<open>v\<close> from the
  state after them.\<close>

definition answered_at :: "Op list \<Rightarrow> clerk_op \<Rightarrow> string \<Rightarrow> nat \<Rightarrow> bool" where
  "answered_at rs ck v m \<longleftrightarrow> m \<le> length rs \<and> kvlog.contains (take m rs) (request_of ck) \<and>
     (is_get ck \<longrightarrow> v = go_get [] (kvlog.value_after (take m rs)) (Op_Key (request_of ck)))"

definition kv_ok :: "Op list \<Rightarrow> nat \<Rightarrow> KVServer \<Rightarrow> bool" where
  "kv_ok rs d kv \<longleftrightarrow> applyCh kv \<le> d \<and> applyCh kv \<le> length rs \<and>
     storage kv = kvlog.value_after (take (applyCh kv) rs) \<and> ids kv = request_id ` set (take (applyCh kv) rs)"

definition handler_ok :: "Op list \<Rightarrow> clerk_op list \<Rightarrow> (nat \<Rightarrow> KVServer) \<Rightarrow> handler \<Rightarrow> bool" where
  "handler_ok rs cks kv h \<longleftrightarrow> h_op h < length cks \<and>
     (let ck = cks ! h_op h in
      case h_stage h of
        Committed \<Rightarrow> request_id (request_of ck) \<in> ids (kv (h_server h))
      | Reading \<Rightarrow> request_id (request_of ck) \<in> ids (kv (h_server h))
      | Replied e v \<Rightarrow> e = OK \<longrightarrow> (\<exists>m. answered_at rs ck v m)
      | _ \<Rightarrow> True)"

text \<open>A finished call: its answer has a point that lies before every request of a call made later.\<close>

definition op_ok :: "Op list \<Rightarrow> clerk_op list \<Rightarrow> nat \<Rightarrow> clerk_op \<Rightarrow> bool" where
  "op_ok rs cks now ck \<longleftrightarrow> op_called ck < now \<and>
     (case op_answer ck of
        None \<Rightarrow> True
      | Some (v, t) \<Rightarrow> op_called ck < t \<and> t < now \<and> (\<forall>ck' \<in> set cks. op_called ck' \<noteq> t) \<and>
          (\<exists>m. answered_at rs ck v m \<and> (\<forall>ck' \<in> set cks. t < op_called ck' \<longrightarrow>
             \<not> kvlog.contains (take m rs) (request_of ck'))))"

definition rpc_ok :: "handler list \<Rightarrow> nat \<Rightarrow> clerk_op \<Rightarrow> bool" where
  "rpc_ok hs k ck \<longleftrightarrow> (\<forall>j. op_rpc ck = Some j \<longrightarrow> j < length hs \<and> h_op (hs ! j) = k)"

definition op_tag :: "clerk_op \<Rightarrow> int \<times> int" where
  "op_tag ck = (op_client ck, op_ident ck)"

definition raft_ok :: "nat \<Rightarrow> nat \<Rightarrow> Op list \<Rightarrow> clerk_op list \<Rightarrow> Op cluster \<Rightarrow> bool" where
  "raft_ok n p rs cks c \<longleftrightarrow> stable_cluster n p c \<and> commands (srv c p) = map Some rs \<and>
     set (start_commands c) \<subseteq> (\<lambda>ck. Some (request_of ck)) ` set cks"

definition store_inv :: "nat \<Rightarrow> nat \<Rightarrow> Op list \<Rightarrow> store \<Rightarrow> bool" where
  "store_inv n p rs st \<longleftrightarrow> raft_ok n p rs (clerk_ops st) (raft st) \<and>
     (\<forall>s. kv_ok rs (length (ApplyChan (srv (raft st) s))) (kvs st s)) \<and>
     (\<forall>h \<in> set (handlers st). handler_ok rs (clerk_ops st) (kvs st) h) \<and>
     (\<forall>ck \<in> set (clerk_ops st). op_ok rs (clerk_ops st) (clock st) ck) \<and>
     (\<forall>k < length (clerk_ops st). rpc_ok (handlers st) k (clerk_ops st ! k)) \<and>
     distinct (map op_tag (clerk_ops st))"

lemma request_id_of [simp]: "request_id (request_of ck) = op_tag ck"
  by (simp add: request_of_def request_id_def op_tag_def Get_op_def PutAppend_op_def get_args_def
      put_args_def split: clerk_call.splits)

lemma contains_key: "kvlog.contains rs (request_of ck) \<longleftrightarrow> op_tag ck \<in> request_id ` set rs"
  by (simp add: kvlog.contains_def)

text \<open>Every request in the log was sent by a clerk.\<close>

lemma log_requests:
  assumes "raft_ok n p rs cks c"
  shows "set rs \<subseteq> request_of ` set cks"
proof -
  have "set (commands (srv c p)) \<subseteq> set (start_commands c)"
    using assms stable_invariant [of n p c] by (auto simp: raft_ok_def stable_inv_def start_commands_def)
  with assms show ?thesis unfolding raft_ok_def by (auto simp: image_iff)
qed

text \<open>The invariant when the log grows and the static part of the clerks' operations stays.\<close>

lemma answered_at_grow: "answered_at rs ck v m \<Longrightarrow> prefix rs rs' \<Longrightarrow> answered_at rs' ck v m"
  by (auto simp: answered_at_def prefix_def)

lemma kv_ok_grow: "kv_ok rs d kv \<Longrightarrow> prefix rs rs' \<Longrightarrow> d \<le> d' \<Longrightarrow> kv_ok rs' d' kv"
  by (auto simp: kv_ok_def prefix_def)

lemma handler_ok_grow: "handler_ok rs cks kv h \<Longrightarrow> prefix rs rs' \<Longrightarrow> handler_ok rs' cks kv h"
  by (auto simp: handler_ok_def Let_def dest: answered_at_grow split: handler_stage.splits)

lemma answered_at_bound: "answered_at rs ck v m \<Longrightarrow> prefix rs rs' \<Longrightarrow> take m rs' = take m rs"
  by (auto simp: answered_at_def prefix_def)

lemma op_ok_grow:
  assumes "op_ok rs cks now ck" and pre: "prefix rs rs'"
  shows "op_ok rs' cks now ck"
proof (cases "op_answer ck")
  case (Some a)
  obtain v t where a: "a = (v, t)" by (cases a)
  with assms(1) Some obtain m where m: "answered_at rs ck v m"
    and later: "\<forall>ck' \<in> set cks. t < op_called ck' \<longrightarrow> \<not> kvlog.contains (take m rs) (request_of ck')"
    by (auto simp: op_ok_def)
  have "take m rs' = take m rs" using answered_at_bound [OF m pre] .
  with later answered_at_grow [OF m pre] assms(1) Some a show ?thesis by (auto simp: op_ok_def)
qed (use assms(1) in \<open>simp add: op_ok_def\<close>)

lemma store_inv_grow:
  assumes inv: "store_inv n p rs st" and "prefix rs rs'" and "raft_ok n p rs' (clerk_ops st) c"
    and "\<And>s. length (ApplyChan (srv (raft st) s)) \<le> length (ApplyChan (srv c s))"
  shows "store_inv n p rs' (st\<lparr>raft := c\<rparr>)"
  using assms by (auto simp: store_inv_def intro: kv_ok_grow handler_ok_grow op_ok_grow)

section \<open>Steps of the cluster\<close>

lemma raft_ok_step:
  assumes ok: "raft_ok n p rs cks c" and one: "only_candidate p c e" and st: "cstep c e = Inr c'"
    and new: "\<And>s cmd. e = ClientStart s cmd \<Longrightarrow> cmd \<in> (\<lambda>ck. Some (request_of ck)) ` set cks"
  shows "\<exists>rs'. prefix rs rs' \<and> raft_ok n p rs' cks c'"
proof -
  have sc: "stable_cluster n p c" and g: "commands (srv c p) = map Some rs"
    using ok by (simp_all add: raft_ok_def)
  have sc': "stable_cluster n p c'" using sc one st by (rule stable_step)
  have k: "set (start_commands c') \<subseteq> (\<lambda>ck. Some (request_of ck)) ` set cks"
    using cstep_starts [OF st] ok new by (auto simp: raft_ok_def split: event.splits)
  moreover have "set (commands (srv c' p)) \<subseteq> set (start_commands c')"
    using stable_invariant [OF sc'] by (simp add: stable_inv_def start_commands_def)
  moreover have "commands (srv c' p) = commands (srv c p) \<or> (\<exists>cmd. commands (srv c' p) = commands (srv c p) @ [cmd])"
    using stable_step_log [OF stable_ok [OF sc] stable_invariant [OF sc] one st] by auto
  ultimately have "\<exists>rs'. prefix rs rs' \<and> commands (srv c' p) = map Some rs'"
  proof (elim disjE exE)
    assume "commands (srv c' p) = commands (srv c p)"
    with g show ?thesis by (intro exI [of _ rs]) simp
  next
    fix cmd assume c: "commands (srv c' p) = commands (srv c p) @ [cmd]"
    then have "cmd \<in> set (commands (srv c' p))" by simp
    with \<open>set (commands (srv c' p)) \<subseteq> set (start_commands c')\<close> k obtain r where "cmd = Some r" by auto
    with c g show ?thesis by (intro exI [of _ "rs @ [r]"]) simp
  qed
  with sc' k show ?thesis by (auto simp: raft_ok_def)
qed

lemma messages_count:
  "stable_cluster n p c \<Longrightarrow> cstep c e = Inr c' \<Longrightarrow> e \<noteq> Crash s \<Longrightarrow>
     length (ApplyChan (srv c s)) \<le> length (ApplyChan (srv c' s))"
  using messages_added [OF stable_reachable] prefix_length_le by metis

text \<open>A step of the cluster that is no crash.\<close>

lemma store_inv_raft:
  assumes inv: "store_inv n p rs st" and "only_candidate p (raft st) e" and c: "cstep (raft st) e = Inr c"
    and "\<And>s cmd. e = ClientStart s cmd \<Longrightarrow> cmd \<in> (\<lambda>ck. Some (request_of ck)) ` set (clerk_ops st)"
    and "\<And>s. e \<noteq> Crash s"
  shows "\<exists>rs'. store_inv n p rs' (st\<lparr>raft := c\<rparr>)"
proof -
  have ok: "raft_ok n p rs (clerk_ops st) (raft st)" using inv by (simp add: store_inv_def)
  obtain rs' where rs': "prefix rs rs'" "raft_ok n p rs' (clerk_ops st) c"
    using raft_ok_step [OF ok assms(2) c] assms(4) by blast
  have "stable_cluster n p (raft st)" using ok by (simp add: raft_ok_def)
  from store_inv_grow [OF inv rs' messages_count [OF this c assms(5)]] show ?thesis by blast
qed

section \<open>Steps of the servers\<close>

lemma store_inv_set_stage:
  assumes inv: "store_inv n p rs st" and h: "handler_ok rs (clerk_ops st) (kvs st) ((handlers st ! j)\<lparr>h_stage := stage\<rparr>)"
  shows "store_inv n p rs (set_stage st j stage)"
proof -
  have "rpc_ok ((handlers st)[j := (handlers st ! j)\<lparr>h_stage := stage\<rparr>]) k ck = rpc_ok (handlers st) k ck" for k ck
    by (auto simp: rpc_ok_def nth_list_update_if)
  with inv h show ?thesis
    by (auto simp: store_inv_def set_stage_def dest!: set_list_update_subset)
qed

lemma handler_of: "store_inv n p rs st \<Longrightarrow> j < length (handlers st) \<Longrightarrow> handler_ok rs (clerk_ops st) (kvs st) (handlers st ! j)"
  by (simp add: store_inv_def)

text \<open>The tests of a handler, on the log.\<close>

lemma ids_Rf [simp]: "ids (kv\<lparr>Rf := r\<rparr>) = ids kv"
  by (simp add: ids_def)

lemma existId_now: "existId (kv_now st s) (op_ident ck) (op_client ck) \<longleftrightarrow> op_tag ck \<in> ids (kvs st s)"
  by (simp add: kv_now_def existId_ids op_tag_def)

lemma answered_now:
  assumes "store_inv n p rs st" and "op_tag ck \<in> ids (kvs st s)"
  shows "answered_at rs ck (go_get [] (storage (kvs st s)) (Op_Key (request_of ck))) (applyCh (kvs st s))"
proof -
  have "kv_ok rs (length (ApplyChan (srv (raft st) s))) (kvs st s)" using assms(1) by (simp add: store_inv_def)
  with assms(2) show ?thesis by (auto simp: answered_at_def kv_ok_def contains_key)
qed

lemma answered_any: "\<not> is_get ck \<Longrightarrow> answered_at rs ck v m = answered_at rs ck v' m"
  by (simp add: answered_at_def)

lemma handler_local_ok:
  assumes inv: "store_inv n p rs st" and j: "j < length (handlers st)"
    and l: "handler_local (clerk_ops st ! h_op (handlers st ! j)) (kv_now st (h_server (handlers st ! j)))
      (h_stage (handlers st ! j)) = Some stage"
  shows "handler_ok rs (clerk_ops st) (kvs st) ((handlers st ! j)\<lparr>h_stage := stage\<rparr>)"
proof -
  let ?h = "handlers st ! j" let ?ck = "clerk_ops st ! h_op ?h" and ?s = "h_server ?h"
  have h: "handler_ok rs (clerk_ops st) (kvs st) ?h" using inv j by (rule handler_of)
  have k: "existKey (kv_now st ?s) x \<longleftrightarrow> x \<in> dom (storage (kvs st ?s))" for x
    by (simp add: kv_now_def existKey_iff)
  have st: "storage (kv_now st ?s) = storage (kvs st ?s)" by (simp add: kv_now_def)
  show ?thesis
  proof (cases "h_stage ?h")
    case Called
    with h l show ?thesis by (auto simp: handler_ok_def Let_def)
  next
    case (Polling i)
    with h l show ?thesis by (cases i) (auto simp: handler_ok_def Let_def existId_now)
  next
    case Committed
    with h have "op_tag ?ck \<in> ids (kvs st ?s)" by (simp add: handler_ok_def Let_def)
    from answered_now [OF inv this] obtain m where
      a: "answered_at rs ?ck (go_get [] (storage (kvs st ?s)) (Op_Key (request_of ?ck))) m" ..
    have "answered_at rs ?ck [] m" if "stage = Replied OK []"
    proof (cases "is_get ?ck")
      case True
      with that l Committed have "Op_Key (request_of ?ck) \<notin> dom (storage (kvs st ?s))"
        by (auto simp: k split: if_splits)
      with a show ?thesis by (simp add: go_get_missing domIff)
    qed (use a answered_any in blast)
    moreover have "stage \<in> {Reading, Replied OK [], Replied [] []}"
      using l Committed by (auto split: if_splits)
    ultimately show ?thesis
      using h \<open>op_tag ?ck \<in> ids (kvs st ?s)\<close> by (auto simp: handler_ok_def Let_def)
  next
    case Reading
    with h have "op_tag ?ck \<in> ids (kvs st ?s)" by (simp add: handler_ok_def Let_def)
    from answered_now [OF inv this] h l Reading show ?thesis
      by (auto simp: handler_ok_def Let_def st)
  qed (use l in simp_all)
qed

lemma Handle_inv:
  assumes inv: "store_inv n p rs st" and one: "only_candidate_in p st (Handle j)"
    and r: "ev_Handle st j = Inr st'"
  shows "\<exists>rs'. store_inv n p rs' st'"
proof -
  let ?h = "handlers st ! j" let ?ck = "clerk_ops st ! h_op ?h"
  from r have j: "j < length (handlers st)" by (simp add: ev_Handle_def go_simps)
  have h: "h_op ?h < length (clerk_ops st)" using handler_of [OF inv j] by (simp add: handler_ok_def)
  show ?thesis
  proof (cases "\<exists>stage. handler_local ?ck (kv_now st (h_server ?h)) (h_stage ?h) = Some stage")
    case True
    then obtain stage where l: "handler_local ?ck (kv_now st (h_server ?h)) (h_stage ?h) = Some stage" by blast
    with r j have "st' = set_stage st j stage"
      by (cases "h_stage ?h") (auto simp: ev_Handle_def Let_def go_guard_def)
    with store_inv_set_stage [OF inv handler_local_ok [OF inv j l]] show ?thesis by blast
  next
    case False
    show ?thesis
    proof (cases "h_stage ?h")
      case Leading
      let ?e = "ClientStart (h_server ?h) (Some (request_of ?ck))"
      from r Leading j obtain c where c: "cstep (raft st) ?e = Inr c"
        and st': "st' = set_stage (st\<lparr>raft := c\<rparr>) j (Submitted (length (starts (raft st))))"
        by (auto simp: ev_Handle_def Let_def go_simps)
      have "only_candidate p (raft st) ?e"
        using one Leading by (simp add: only_candidate_in_def only_candidate_def)
      from store_inv_raft [OF inv this c] h obtain rs' where i: "store_inv n p rs' (st\<lparr>raft := c\<rparr>)" by auto
      from store_inv_set_stage [OF i, where j = j and stage = "Submitted (length (starts (raft st)))"] h
      have "store_inv n p rs' st'" by (simp add: st' handler_ok_def)
      then show ?thesis by blast
    next
      case (Submitted i)
      with r j obtain stage where "st' = set_stage st j stage"
        and "stage = Polling 10 \<or> stage = Replied ErrWrongLeader []"
        by (auto simp: ev_Handle_def Let_def go_simps split: start_stage.splits)
      with store_inv_set_stage [OF inv, where j = j and stage = stage] h show ?thesis by (auto simp: handler_ok_def)
    next
      case (Polling k)
      with False show ?thesis by (cases k) auto
    qed (use False r j in \<open>auto simp: ev_Handle_def Let_def go_simps\<close>)
  qed
qed

lemma handler_ok_kvs:
  assumes "handler_ok rs cks kv h" and "\<And>s. ids (kv s) \<subseteq> ids (kv' s)"
  shows "handler_ok rs cks kv' h"
  using assms by (auto simp: handler_ok_def Let_def split: handler_stage.splits)

lemma Consume_inv:
  assumes inv: "store_inv n p rs st" and r: "ev_Consume st s = Inr st'"
  shows "store_inv n p rs st'"
proof -
  let ?kv = "kv_now st s" and ?m = "applyCh (kvs st s)" and ?ms = "ApplyChan (srv (raft st) s)"
  have ok: "raft_ok n p rs (clerk_ops st) (raft st)" and kv: "kv_ok rs (length ?ms) (kvs st s)"
    using inv by (simp_all add: store_inv_def)
  have m: "applyCh ?kv = ?m" by (simp add: kv_now_def)
  from r obtain kv' where a: "?m < length ?ms" "\<not> kv_dead ?kv" and l: "listenApplyCh ?kv [?ms ! ?m] = Inr kv'"
    and st': "st' = st\<lparr>kvs := (kvs st)(s := kv')\<rparr>"
    by (auto simp: ev_Consume_def Let_def go_simps m)
  have "stable_cluster n p (raft st)" using ok by (simp add: raft_ok_def)
  then have "tracks (commands (srv (raft st) p)) (srv (raft st) s)"
    by (rule follows_tracks [OF stable_inv_srv [OF stable_invariant]])
  then have pre: "prefix (applied (srv (raft st) s)) (map Some rs)" using ok by (simp add: tracks_def raft_ok_def)
  then have len: "length ?ms \<le> length rs" using prefix_length_le by (fastforce simp: applied_def)
  have "ApplyMsg_Command (?ms ! ?m) = Some (rs ! ?m)"
  proof -
    have "applied (srv (raft st) s) ! ?m = map Some rs ! ?m"
      using pre a(1) by (auto simp: prefix_def nth_append applied_def)
    with a(1) len show ?thesis by (simp add: applied_def)
  qed
  with l a(2) have kv': "kv' = (applyOp ?kv (rs ! ?m))\<lparr>applyCh := ?m + 1\<rparr>" by (simp add: m)
  have take: "take (Suc ?m) rs = take ?m rs @ [rs ! ?m]" using a(1) len by (simp add: take_Suc_conv_app_nth)
  have i: "ids ?kv = ids (kvs st s)" "storage ?kv = storage (kvs st s)" by (simp_all add: kv_now_def ids_def)
  have i': "ids kv' = insert (request_id (rs ! ?m)) (ids (kvs st s))"
    using ids_applyOp [of ?kv "rs ! ?m"] i(1) by (simp add: kv' ids_def existId_def)
  have "kv_ok rs (length ?ms) kv'"
    using kv a(1) len i' storage_applyOp [of ?kv "rs ! ?m"]
    by (simp add: kv_ok_def kv' take kvlog.value_after_snoc kvlog.contains_def i)
  moreover have "ids (kvs st t) \<subseteq> ids (((kvs st)(s := kv')) t)" for t by (auto simp: i')
  ultimately show ?thesis
    using inv handler_ok_kvs [of rs "clerk_ops st" "kvs st" _ "(kvs st)(s := kv')"]
    by (simp add: store_inv_def st')
qed

lemma KillServer_inv:
  assumes inv: "store_inv n p rs st" and r: "ev_KillServer st s = Inr st'"
  shows "\<exists>rs'. store_inv n p rs' st'"
proof -
  from r obtain c where c: "cstep (raft st) (Kill s) = Inr c"
    and st': "st' = st\<lparr>raft := c, kvs := (kvs st)(s := KVServer_Kill (kv_now st s))\<rparr>"
    by (auto simp: ev_KillServer_def go_simps)
  have "only_candidate p (raft st) (Kill s)" by (simp add: only_candidate_def)
  from store_inv_raft [OF inv this c] obtain rs' where i: "store_inv n p rs' (st\<lparr>raft := c\<rparr>)" by auto
  let ?kv = "(kvs st)(s := KVServer_Kill (kv_now st s))"
  have same: "ids (?kv t) = ids (kvs st t)" "kv_ok rs' d (?kv t) = kv_ok rs' d (kvs st t)" for t d
    by (simp_all add: KVServer_Kill_def kv_now_def ids_def existId_def kv_ok_def)
  have "handler_ok rs' cks ?kv h = handler_ok rs' cks (kvs st) h" for cks h
    using same(1) by (simp add: handler_ok_def Let_def split: handler_stage.splits)
  with i same(2) have "store_inv n p rs' st'" by (simp add: store_inv_def st')
  then show ?thesis by blast
qed

lemma CrashServer_inv:
  assumes inv: "store_inv n p rs st" and r: "ev_CrashServer st s = Inr st'"
  shows "\<exists>rs'. store_inv n p rs' st'"
proof -
  let ?kv0 = "\<lambda>c. StartKVServer (int (servers c)) (int s) (Copy (persister (srv (raft st) s))) (-1)"
  from r obtain c where c: "cstep (raft st) (Crash s) = Inr c"
    and st': "st' = st\<lparr>raft := c, kvs := (kvs st)(s := ?kv0 c), handlers := map (crash_handler s) (handlers st)\<rparr>"
    by (auto simp: ev_CrashServer_def go_simps)
  have ok: "raft_ok n p rs (clerk_ops st) (raft st)" using inv by (simp add: store_inv_def)
  have "only_candidate p (raft st) (Crash s)" by (simp add: only_candidate_def)
  from raft_ok_step [OF ok this c] obtain rs' where pre: "prefix rs rs'"
    and ok': "raft_ok n p rs' (clerk_ops st) c" by auto
  have "stable_cluster n p (raft st)" using ok by (simp add: raft_ok_def)
  then have mono: "t \<noteq> s \<Longrightarrow> length (ApplyChan (srv (raft st) t)) \<le> length (ApplyChan (srv c t))" for t
    using messages_count [OF _ c] by simp
  have k: "kv_ok rs' d (?kv0 c)" for d by (simp add: kv_ok_def)
  have h: "handler_ok rs' (clerk_ops st) ((kvs st)(s := ?kv0 c)) (crash_handler s h)"
    if "handler_ok rs (clerk_ops st) (kvs st) h" for h
    using handler_ok_grow [OF that pre]
    by (cases "h_stage h") (auto simp: handler_ok_def crash_handler_def Let_def)
  have others: "t \<noteq> s \<Longrightarrow> kv_ok rs' (length (ApplyChan (srv c t))) (kvs st t)" for t
    using inv kv_ok_grow [OF _ pre mono] by (simp add: store_inv_def)
  have rpc: "rpc_ok (map (crash_handler s) hs) i ck = rpc_ok hs i ck" for hs i ck
    by (auto simp: rpc_ok_def crash_handler_def)
  have "store_inv n p rs' st'"
    using inv others k h ok' op_ok_grow [OF _ pre] by (simp add: store_inv_def st' rpc)
  then show ?thesis by blast
qed

section \<open>Steps of the clerks\<close>

text \<open>Updates of an operation that keep its request, its call time and its answer's point.\<close>

lemma Invoke_inv:
  assumes inv: "store_inv n p rs st" and r: "ev_Invoke st client i call = Inr st'"
  shows "store_inv n p rs st'"
proof -
  let ?new = "\<lparr>op_client = client, op_ident = i, op_args = call, op_called = clock st, op_server = 0,
    op_rpc = None, op_answer = None\<rparr>"
  let ?cks = "clerk_ops st"
  from r have fresh: "\<forall>ck \<in> set ?cks. op_tag ck \<noteq> op_tag ?new"
    and st': "st' = st\<lparr>clerk_ops := ?cks @ [?new], clock := clock st + 1\<rparr>"
    by (auto simp: ev_Invoke_def go_simps list_all_iff op_tag_def)
  have ok: "raft_ok n p rs ?cks (raft st)" using inv by (simp add: store_inv_def)
  have unsent: "\<not> kvlog.contains (take m rs) (request_of ?new)" for m
  proof
    assume "kvlog.contains (take m rs) (request_of ?new)"
    then obtain q where "q \<in> set rs" and q: "request_id q = op_tag ?new"
      using set_take_subset [of m rs] by (auto simp: contains_key)
    with log_requests [OF ok] obtain ck where "ck \<in> set ?cks" "q = request_of ck" by auto
    with fresh q show False by simp
  qed
  have "handler_ok rs (?cks @ [?new]) (kvs st) h" if "handler_ok rs ?cks (kvs st) h" for h
    using that by (simp add: handler_ok_def nth_append)
  moreover have "op_ok rs (?cks @ [?new]) (clock st + 1) ck" if "op_ok rs ?cks (clock st) ck" for ck
    using that unsent by (auto simp: op_ok_def split: option.splits)
  moreover have "op_ok rs (?cks @ [?new]) (clock st + 1) ?new" by (simp add: op_ok_def)
  moreover have "rpc_ok (handlers st) k ((?cks @ [?new]) ! k)" if "k < Suc (length ?cks)"
    and "\<forall>k < length ?cks. rpc_ok (handlers st) k (?cks ! k)" for k
    using that by (auto simp: nth_append rpc_ok_def less_Suc_eq)
  moreover have "raft_ok n p rs (?cks @ [?new]) (raft st)" using ok by (auto simp: raft_ok_def)
  ultimately show ?thesis
    using inv fresh by (auto simp: store_inv_def st')
qed

definition op_static :: "clerk_op \<Rightarrow> int \<times> int \<times> clerk_call \<times> nat" where
  "op_static ck = (op_client ck, op_ident ck, op_args ck, op_called ck)"

lemma op_static_eq:
  assumes "op_static ck' = op_static ck"
  shows "request_of ck' = request_of ck" "is_get ck' = is_get ck" "op_tag ck' = op_tag ck"
    "op_called ck' = op_called ck" "answered_at rs ck' = answered_at rs ck"
proof -
  show e: "request_of ck' = request_of ck" "is_get ck' = is_get ck" "op_tag ck' = op_tag ck"
    "op_called ck' = op_called ck"
    using assms
    by (auto simp: op_static_def request_of_def is_get_def op_tag_def get_args_def put_args_def
        split: clerk_call.splits)
  show "answered_at rs ck' = answered_at rs ck" by (intro ext) (simp add: answered_at_def e)
qed

lemma ball_list_update:
  "k < length xs \<Longrightarrow> P y = P (xs ! k) \<Longrightarrow> (\<forall>x \<in> set (xs[k := y]). P x) = (\<forall>x \<in> set xs. P x)"
  by (auto simp: all_set_conv_all_nth nth_list_update)

lemma handler_ok_update:
  assumes "k < length cks" and "op_static ck' = op_static (cks ! k)"
  shows "handler_ok rs (cks[k := ck']) kv h = handler_ok rs cks kv h"
  using op_static_eq [OF assms(2)] assms(1)
  by (cases "h_op h = k") (simp_all add: handler_ok_def Let_def split: handler_stage.splits)

lemma op_ok_update:
  assumes "k < length cks" and "op_static ck' = op_static (cks ! k)"
  shows "op_ok rs (cks[k := ck']) now ck = op_ok rs cks now ck"
proof -
  have "(\<forall>c \<in> set (cks[k := ck']). op_called c \<noteq> t) = (\<forall>c \<in> set cks. op_called c \<noteq> t)"
    "(\<forall>c \<in> set (cks[k := ck']). t < op_called c \<longrightarrow> \<not> kvlog.contains (take m rs) (request_of c)) =
      (\<forall>c \<in> set cks. t < op_called c \<longrightarrow> \<not> kvlog.contains (take m rs) (request_of c))" for t m
    by (rule ball_list_update [OF assms(1)]; simp add: op_static_eq [OF assms(2)])+
  then show ?thesis unfolding op_ok_def by (simp split: option.split)
qed

text \<open>An operation moves on: its request stays, and its answer may be set.\<close>

lemma store_inv_set_op:
  assumes inv: "store_inv n p rs st" and k: "k < length (clerk_ops st)"
    and static: "op_static ck' = op_static (clerk_ops st ! k)"
    and ok: "op_ok rs (clerk_ops st) now ck'" and now: "clock st \<le> now"
    and rpc: "rpc_ok (handlers st @ hs) k ck'"
    and new: "\<forall>h \<in> set hs. handler_ok rs (clerk_ops st) (kvs st) h"
  shows "store_inv n p rs ((set_op st k ck')\<lparr>handlers := handlers st @ hs, clock := now\<rparr>)"
proof -
  let ?cks = "clerk_ops st"
  have inv': "raft_ok n p rs ?cks (raft st)" "\<forall>ck \<in> set ?cks. op_ok rs ?cks (clock st) ck"
    "\<forall>k < length ?cks. rpc_ok (handlers st) k (?cks ! k)" "distinct (map op_tag ?cks)"
    "\<forall>h \<in> set (handlers st). handler_ok rs ?cks (kvs st) h"
    using inv by (simp_all add: store_inv_def)
  have "(\<lambda>ck. Some (request_of ck)) ` set (?cks[k := ck']) = (\<lambda>ck. Some (request_of ck)) ` set ?cks"
    using map_update [of "\<lambda>ck. Some (request_of ck)" ?cks k ck'] op_static_eq(1) [OF static] k
    by (metis (no_types, lifting) list.set_map list_update_id nth_map)
  then have "raft_ok n p rs (?cks[k := ck']) (raft st)" using inv'(1) by (simp add: raft_ok_def)
  moreover have "distinct (map op_tag (?cks[k := ck']))"
    using inv'(4) op_static_eq(3) [OF static] k by (simp add: map_update) (metis list_update_id nth_map)
  moreover have "op_ok rs ?cks now ck" if "op_ok rs ?cks (clock st) ck" for ck
    using that now by (auto simp: op_ok_def split: option.splits)
  then have "\<forall>ck \<in> set (?cks[k := ck']). op_ok rs (?cks[k := ck']) now ck"
    using inv'(2) ok by (auto simp: op_ok_update [OF k static] dest!: set_list_update_subset)
  moreover have "rpc_ok (handlers st @ hs) i ck" if "rpc_ok (handlers st) i ck" for i ck
    using that by (auto simp: rpc_ok_def nth_append)
  then have "\<forall>i < length ?cks. rpc_ok (handlers st @ hs) i (?cks[k := ck'] ! i)"
    using inv'(3) rpc by (simp add: nth_list_update_if)
  moreover have "\<forall>h \<in> set (handlers st @ hs). handler_ok rs (?cks[k := ck']) (kvs st) h"
    using inv'(5) new by (auto simp: handler_ok_update [OF k static])
  ultimately show ?thesis using inv by (simp add: store_inv_def set_op_def)
qed

lemma op_of: "store_inv n p rs st \<Longrightarrow> k < length (clerk_ops st) \<Longrightarrow> op_ok rs (clerk_ops st) (clock st) (clerk_ops st ! k)"
  by (simp add: store_inv_def)

lemma op_ok_static:
  assumes "op_static ck' = op_static ck" and "op_answer ck' = op_answer ck"
  shows "op_ok rs cks now ck' = op_ok rs cks now ck"
  by (simp add: op_ok_def op_static_eq [OF assms(1)] assms(2) split: option.split)

lemma Send_inv:
  assumes inv: "store_inv n p rs st" and r: "ev_Send st k = Inr st'"
  shows "store_inv n p rs st'"
proof -
  let ?ck = "clerk_ops st ! k"
  let ?ck' = "?ck\<lparr>op_rpc := Some (length (handlers st)), op_server := (op_server ?ck + 1) mod servers (raft st)\<rparr>"
  let ?h = "\<lparr>h_op = k, h_server = op_server ?ck, h_stage = Called\<rparr>"
  from r have k: "k < length (clerk_ops st)"
    and st': "st' = (set_op st k ?ck')\<lparr>handlers := handlers st @ [?h], clock := clock st\<rparr>"
    by (auto simp: ev_Send_def go_simps Let_def set_op_def)
  have s: "op_static ?ck' = op_static ?ck" by (simp add: op_static_def)
  show ?thesis
    unfolding st'
    by (rule store_inv_set_op [OF inv k s])
      (use op_of [OF inv k] k op_ok_static [OF s] in \<open>simp_all add: rpc_ok_def handler_ok_def\<close>)
qed

lemma RpcFails_inv:
  assumes inv: "store_inv n p rs st" and r: "ev_RpcFails st k = Inr st'"
  shows "store_inv n p rs st'"
proof -
  let ?ck = "clerk_ops st ! k" let ?ck' = "?ck\<lparr>op_rpc := None\<rparr>"
  from r have k: "k < length (clerk_ops st)"
    and st': "st' = (set_op st k ?ck')\<lparr>handlers := handlers st @ [], clock := clock st\<rparr>"
    by (auto simp: ev_RpcFails_def go_simps set_op_def)
  have s: "op_static ?ck' = op_static ?ck" by (simp add: op_static_def)
  show ?thesis
    unfolding st'
    by (rule store_inv_set_op [OF inv k s])
      (use op_of [OF inv k] op_ok_static [OF s] in \<open>simp_all add: rpc_ok_def\<close>)
qed

lemma Receive_inv:
  assumes inv: "store_inv n p rs st" and r: "ev_Receive st k = Inr st'"
  shows "store_inv n p rs st'"
proof -
  let ?ck = "clerk_ops st ! k" and ?now = "clock st"
  from r obtain j err v where k: "k < length (clerk_ops st)" and j: "op_rpc ?ck = Some j"
    and h: "h_stage (handlers st ! j) = Replied err v"
    by (auto simp: ev_Receive_def go_simps Let_def split: option.splits handler_stage.splits)
  let ?ans = "if err = OK then Some (v, ?now) else op_answer ?ck"
  let ?ck' = "?ck\<lparr>op_rpc := None, op_answer := ?ans\<rparr>"
  have st': "st' = (set_op st k ?ck')\<lparr>handlers := handlers st @ [], clock := ?now + 1\<rparr>"
    using r k j h by (simp add: ev_Receive_def go_simps Let_def set_op_def)
  have s: "op_static ?ck' = op_static ?ck" by (simp add: op_static_def)
  have old: "op_ok rs (clerk_ops st) ?now ?ck" using op_of [OF inv k] .
  have "op_ok rs (clerk_ops st) (?now + 1) ?ck'"
  proof (cases "err = OK")
    case True
    have "j < length (handlers st)" and "h_op (handlers st ! j) = k"
      using inv k j by (simp_all add: store_inv_def rpc_ok_def)
    with handler_of [OF inv, of j] h True obtain m where "answered_at rs ?ck v m"
      by (auto simp: handler_ok_def)
    then have "answered_at rs ?ck' v m" by (simp only: op_static_eq [OF s])
    moreover have "op_called ck \<noteq> ?now \<and> \<not> ?now < op_called ck" if "ck \<in> set (clerk_ops st)" for ck
      using inv that by (auto simp: store_inv_def op_ok_def dest!: bspec)
    moreover have "op_called ?ck < ?now" using old by (simp add: op_ok_def)
    ultimately show ?thesis using True unfolding op_ok_def by auto
  next
    case False
    then have "op_ok rs (clerk_ops st) (?now + 1) ?ck' = op_ok rs (clerk_ops st) (?now + 1) ?ck"
      by (intro op_ok_static s) simp
    with old show ?thesis by (auto simp: op_ok_def split: option.splits)
  qed
  then show ?thesis
    unfolding st' by (intro store_inv_set_op [OF inv k s]) (simp_all add: rpc_ok_def)
qed

section \<open>Every reachable store\<close>

lemma sstep_inv:
  assumes inv: "store_inv n p rs st" and one: "only_candidate_in p st e" and r: "sstep st e = Inr st'"
  shows "\<exists>rs'. store_inv n p rs' st'"
proof (cases e)
  case (Net e')
  with r obtain c where "own_step e'" "cstep (raft st) e' = Inr c" and st': "st' = st\<lparr>raft := c\<rparr>"
    by (auto simp: go_simps)
  moreover from Net one have "only_candidate p (raft st) e'" by (simp add: only_candidate_in_def)
  ultimately show ?thesis
    using store_inv_raft [OF inv, of e' c] by (cases e') (simp_all add: own_step_def)
next
  case (Handle j)
  with r one show ?thesis using Handle_inv [OF inv, of j st'] by simp
next
  case (Consume s)
  with r show ?thesis using Consume_inv [OF inv] by auto
next
  case (KillServer s)
  with r show ?thesis using KillServer_inv [OF inv] by auto
next
  case (CrashServer s)
  with r show ?thesis using CrashServer_inv [OF inv] by auto
next
  case (Invoke client i call)
  with r show ?thesis using Invoke_inv [OF inv, of client i call] by simp blast
next
  case (Send k)
  with r show ?thesis using Send_inv [OF inv] by auto
next
  case (RpcFails k)
  with r show ?thesis using RpcFails_inv [OF inv] by auto
next
  case (Receive k)
  with r show ?thesis using Receive_inv [OF inv] by auto
qed

lemma store_inv_initial: "store_inv n p [] (initial_store n)"
proof -
  have "commands (srv (initial_cluster n :: Op cluster) p) = []"
    using stable_inv_leader [OF stable_inv_initial [of p n]] by (auto simp: holds_log_def)
  then have "raft_ok n p [] [] (initial_cluster n)"
    using stable_init by (auto simp: raft_ok_def start_commands_def initial_cluster_def)
  then show ?thesis by (simp add: store_inv_def initial_store_def kv_ok_def)
qed

lemma stable_store_inv: "stable_store n p st \<Longrightarrow> \<exists>rs. store_inv n p rs st"
  by (induction rule: stable_store.induct) (use store_inv_initial sstep_inv in blast)+

end
