(* ===== verification/Store_Linear.thy ===== *)
theory Store_Linear
  imports Store_Invariant Porc_Properties
begin

text \<open>
  Linearizability of the store under a stable leader: the history the clerks record, the linearization
  read off the log, and what the checker says of the history.
\<close>

section \<open>Histories\<close>

text \<open>What a clerk hands to the checker: the call, the return, and the value of a get.\<close>

definition checker_input :: "clerk_op \<Rightarrow> KvInput" where
  "checker_input ck =
     (case op_args ck of
        CkGet key \<Rightarrow> \<lparr>KvInput_Op = 0, KvInput_Key = key, KvInput_Value = []\<rparr>
      | CkPut key v \<Rightarrow> \<lparr>KvInput_Op = 1, KvInput_Key = key, KvInput_Value = v\<rparr>
      | CkAppend key v \<Rightarrow> \<lparr>KvInput_Op = 2, KvInput_Key = key, KvInput_Value = v\<rparr>)"

definition op_record :: "clerk_op \<Rightarrow> string \<Rightarrow> nat \<Rightarrow> kv_operation" where
  "op_record ck v t =
     \<lparr>Operation_ClientId = op_client ck, Operation_Input = checker_input ck,
      Operation_Call = int (op_called ck), Operation_Output = \<lparr>KvOutput_Value = (if is_get ck then v else [])\<rparr>,
      Operation_Return = int t\<rparr>"

definition finished :: "clerk_op \<Rightarrow> bool" where
  "finished ck \<longleftrightarrow> op_answer ck \<noteq> None"

definition store_history :: "store \<Rightarrow> kv_operation list" where
  "store_history st =
     map (\<lambda>ck. case_prod (op_record ck) (the (op_answer ck))) (filter finished (clerk_ops st))"

lemma not_finished: "\<not> finished ck \<longleftrightarrow> op_answer ck = None"
  by (simp only: finished_def not_not)

lemma checker_input_request: "checker_input ck = kv_input (request_of ck)"
  by (simp add: checker_input_def kv_input_def request_of_def Get_op_def PutAppend_op_def get_args_def
      put_args_def Putt_def Appendd_def Gett_def split: clerk_call.split)

lemma is_update_request: "is_update (request_of ck) \<longleftrightarrow> \<not> is_get ck"
  by (simp add: is_update_def request_of_def is_get_def Get_op_def PutAppend_op_def put_args_def
      split: clerk_call.split)

section \<open>The linearization\<close>

text \<open>The operations of the history with their points: a finished one at the point of its answer, a put or
  append whose clerk still waits at the end of the log.\<close>

definition logged_op :: "Op list \<Rightarrow> nat \<Rightarrow> (clerk_op \<Rightarrow> nat) \<Rightarrow> clerk_op \<Rightarrow> (Op, KvInput, KvOutput) logged" where
  "logged_op rs now m ck =
     (case op_answer ck of
        None \<Rightarrow> \<lparr>lg_request = request_of ck, lg_point = length rs, lg_operation = op_record ck [] now\<rparr>
      | Some (v, t) \<Rightarrow> \<lparr>lg_request = request_of ck, lg_point = m ck, lg_operation = op_record ck v t\<rparr>)"

definition late :: "Op list \<Rightarrow> clerk_op \<Rightarrow> bool" where
  "late rs ck \<longleftrightarrow> \<not> finished ck \<and> \<not> is_get ck \<and> request_of ck \<in> set rs"

lemma lg_request_logged [simp]: "lg_request (logged_op rs now m ck) = request_of ck"
  by (simp add: logged_op_def split: option.splits prod.splits)

lemma logged_input: "Operation_Input (lg_operation (logged_op rs now m ck)) = kv_input (request_of ck)"
  "Operation_Call (lg_operation (logged_op rs now m ck)) = int (op_called ck)"
  by (simp_all add: logged_op_def op_record_def checker_input_request split: option.splits prod.splits)

text \<open>\<open>m\<close> gives every finished operation a point of its answer.\<close>

definition points_ok :: "Op list \<Rightarrow> clerk_op list \<Rightarrow> (clerk_op \<Rightarrow> nat) \<Rightarrow> bool" where
  "points_ok rs cks m \<longleftrightarrow> (\<forall>ck \<in> set cks. \<forall>v t. op_answer ck = Some (v, t) \<longrightarrow> answered_at rs ck v (m ck) \<and>
     (\<forall>ck' \<in> set cks. t < op_called ck' \<longrightarrow> \<not> kvlog.contains (take (m ck) rs) (request_of ck')))"

lemma points_exist:
  assumes "\<And>ck. ck \<in> set cks \<Longrightarrow> op_ok rs cks now ck"
  obtains m where "points_ok rs cks m"
proof -
  have "\<exists>m. \<forall>v t. op_answer ck = Some (v, t) \<longrightarrow> answered_at rs ck v m \<and>
    (\<forall>ck' \<in> set cks. t < op_called ck' \<longrightarrow> \<not> kvlog.contains (take m rs) (request_of ck'))"
    if "ck \<in> set cks" for ck
  proof (cases "op_answer ck")
    case (Some a)
    obtain v t where "a = (v, t)" by (cases a)
    with Some assms [OF that] obtain m where "answered_at rs ck v m"
      and "\<forall>ck' \<in> set cks. t < op_called ck' \<longrightarrow> \<not> kvlog.contains (take m rs) (request_of ck')"
      by (auto simp: op_ok_def)
    then show ?thesis unfolding Some \<open>a = (v, t)\<close> by (intro exI [of _ m]) simp
  qed simp
  then show ?thesis using that unfolding points_ok_def by metis
qed

lemma logged_answer:
  assumes m: "points_ok rs cks m" and ck: "ck \<in> set cks" "finished ck \<or> late rs ck"
  shows "lg_point (logged_op rs now m ck) \<le> length rs \<and>
    kvlog.contains (take (lg_point (logged_op rs now m ck)) rs) (request_of ck) \<and>
    (is_get ck \<longrightarrow> Operation_Output (lg_operation (logged_op rs now m ck)) =
       kv_answer (request_of ck) (kvlog.value_after (take (lg_point (logged_op rs now m ck)) rs)))"
proof (cases "op_answer ck")
  case None
  with ck have l: "request_of ck \<in> set rs" "\<not> is_get ck" by (auto simp: finished_def late_def)
  from l(1) have "kvlog.contains rs (request_of ck)" unfolding kvlog.contains_def by (rule imageI)
  with None l show ?thesis by (simp add: logged_op_def)
next
  case (Some a)
  obtain v t where "a = (v, t)" by (cases a)
  with Some m ck(1) show ?thesis
    by (auto simp: points_ok_def logged_op_def answered_at_def op_record_def kv_answer_def)
qed

lemma logged_time:
  assumes m: "points_ok rs cks m" and ops: "\<And>ck. ck \<in> set cks \<Longrightarrow> op_ok rs cks now ck"
    and ck: "ck \<in> set cks" "ck' \<in> set cks"
    and t: "Operation_Return (lg_operation (logged_op rs now m ck)) < int (op_called ck')"
  shows "\<not> kvlog.contains (take (lg_point (logged_op rs now m ck)) rs) (request_of ck')"
proof (cases "op_answer ck")
  case None
  with t ops [OF ck(2)] show ?thesis by (simp add: logged_op_def op_record_def op_ok_def)
next
  case (Some a)
  obtain v t where "a = (v, t)" by (cases a)
  with Some m ck t show ?thesis by (auto simp: points_ok_def logged_op_def op_record_def)
qed

lemma store_explained:
  assumes inv: "store_inv n p rs st"
  obtains m where "kvlog.explained rs (map (logged_op rs (clock st) m)
    (filter (\<lambda>ck. finished ck \<or> late rs ck) (clerk_ops st)))"
proof -
  let ?cks = "clerk_ops st" and ?now = "clock st"
  let ?L = "filter (\<lambda>ck. finished ck \<or> late rs ck) ?cks"
  have ok: "raft_ok n p rs ?cks (raft st)" and dist: "distinct (map op_tag ?cks)"
    and ops: "\<And>ck. ck \<in> set ?cks \<Longrightarrow> op_ok rs ?cks ?now ck"
    using inv by (simp_all add: store_inv_def)
  obtain m where m: "points_ok rs ?cks m" by (rule points_exist [OF ops])
  have same: "r = request_of ck" if "r \<in> set rs" "request_id r = op_tag ck" "ck \<in> set ?cks" for r ck
  proof -
    from log_requests [OF ok] that(1) obtain ck' where ck': "ck' \<in> set ?cks" "r = request_of ck'" by auto
    with that dist have "ck' = ck" by (auto simp: distinct_map dest: inj_onD)
    with ck' show ?thesis by simp
  qed
  have "kvlog.explained rs (map (logged_op rs ?now m) ?L)"
    unfolding kvlog.explained_def
  proof (intro conjI)
    show "distinct (map (\<lambda>x. request_id (lg_request x)) (map (logged_op rs ?now m) ?L))"
      using dist by (simp add: comp_def distinct_map_filter)
    show "\<forall>r \<in> set rs. is_update r \<longrightarrow> r \<in> lg_request ` set (map (logged_op rs ?now m) ?L)"
    proof (intro ballI impI)
      fix r assume r: "r \<in> set rs" "is_update r"
      with log_requests [OF ok] obtain ck where ck: "ck \<in> set ?cks" "r = request_of ck" by auto
      with r have "finished ck \<or> late rs ck" by (auto simp: late_def is_update_request)
      with ck show "r \<in> lg_request ` set (map (logged_op rs ?now m) ?L)" by (auto simp: image_image)
    qed
  qed (use logged_answer [OF m, of _ ?now] logged_time [OF m ops] same in
      \<open>auto simp: logged_input is_update_request\<close>)
  then show ?thesis by (rule that)
qed

lemma kv_view_empty: "kv_view Map.empty = (\<lambda>_. [])"
  by (rule ext) (simp add: kv_view_def)

lemma logged_history:
  "mset (map lg_operation (map (logged_op rs now m) (filter (\<lambda>ck. finished ck \<or> late rs ck) cks))) =
     mset (map (\<lambda>ck. case_prod (op_record ck) (the (op_answer ck))) (filter finished cks) @
       map (\<lambda>ck. op_record ck [] now) (filter (late rs) cks))"
  by (induction cks) (auto simp: logged_op_def finished_def late_def split: option.splits prod.splits)

lemma linearizable_mset: "mset xs = mset ys \<Longrightarrow> linearizable_history step st xs = linearizable_history step st ys"
  by (simp add: linearizable_history_def linearization_of_def)

lemma store_linearizable:
  assumes inv: "store_inv n p rs st"
  shows "kv_linearizable (store_history st @
    map (\<lambda>ck. op_record ck [] (clock st)) (filter (late rs) (clerk_ops st)))"
proof -
  obtain m where "kvlog.explained rs (map (logged_op rs (clock st) m)
      (filter (\<lambda>ck. finished ck \<or> late rs ck) (clerk_ops st)))"
    by (rule store_explained [OF inv])
  from kvlog.explained_linearizable [OF this] show ?thesis
    unfolding store_history_def kv_view_empty
    by (subst linearizable_mset [OF logged_history [symmetric]])
qed

lemma late_pending: "late rs ck \<Longrightarrow> op_answer ck = None \<and> \<not> is_get ck"
  by (simp add: late_def not_finished)

lemma store_history_proper:
  assumes inv: "store_inv n p rs st"
  shows "proper_times (store_history st)"
proof -
  have "op_called ck < t \<and> (\<forall>ck' \<in> set (clerk_ops st). op_called ck' \<noteq> t)"
    if "ck \<in> set (clerk_ops st)" "op_answer ck = Some (v, t)" for ck v t
    using inv that by (auto simp: store_inv_def op_ok_def dest!: bspec)
  then show ?thesis
    by (fastforce simp: proper_times_iff store_history_def op_record_def finished_def)
qed

section \<open>The store under a stable leader\<close>

lemma stable_history:
  assumes "stable_store n p st"
  shows "\<exists>pending. distinct pending \<and>
    (\<forall>ck \<in> set pending. ck \<in> set (clerk_ops st) \<and> op_answer ck = None \<and> \<not> is_get ck) \<and>
    kv_linearizable (store_history st @ map (\<lambda>ck. op_record ck [] (clock st)) pending)"
proof -
  obtain rs where inv: "store_inv n p rs st" using stable_store_inv [OF assms] by blast
  have "distinct (filter (late rs) (clerk_ops st))" using inv by (simp add: store_inv_def distinct_map)
  moreover have "\<forall>ck \<in> set (filter (late rs) (clerk_ops st)).
      ck \<in> set (clerk_ops st) \<and> op_answer ck = None \<and> \<not> is_get ck"
    unfolding set_filter using late_pending by blast
  ultimately show ?thesis using store_linearizable [OF inv] by blast
qed

text \<open>C1: The store is linearizable as long as one server campaigns: in every execution of clerks, RPC
  handlers, apply loops and the Raft cluster in which only \<open>p\<close> starts elections and no handler calls
  \<open>Start\<close> at another server that has been killed and calls itself a leader (\<open>only_candidate_in\<close>), with lost,
  delayed and reordered messages, failed and repeated RPCs, and kills, crashes and restarts of any server,
  there are some of the puts and appends whose clerks still wait such that the history of the finished
  calls with these is linearizable as a history of one map.\<close>

theorem stable_store_linearizable:
  assumes "stable_store n p st"
  shows "\<exists>pending. distinct pending \<and>
    (\<forall>ck \<in> set pending. ck \<in> set (clerk_ops st) \<and> op_answer ck = None \<and> \<not> is_get ck) \<and>
    kv_linearizable (store_history st @ map (\<lambda>ck. op_record ck [] (clock st)) pending)"
  using assms by (rule stable_history)

definition after_session :: "store \<Rightarrow> bool" where
  "after_session st \<longleftrightarrow> map (\<lambda>ck. (op_args ck, op_called ck, op_answer ck)) (clerk_ops st) =
     [(CkPut ''k'' ''a'', 0, Some ([], 1)), (CkGet ''k'', 2, Some (''a'', 3))]"

lemma session_reached: obtains st where "stable_store 3 0 st" and "after_session st"
  using session_run srun_stable [OF stable_store_init, of 0 3 "put_session @ get_session"]
  by (auto simp: after_session_def split: sum.splits)

lemma session_history:
  assumes "after_session st"
  shows "map (\<lambda>x. KvOutput_Value (Operation_Output x)) (store_history st) = [[], ''a'']"
    and "\<forall>ck \<in> set (clerk_ops st). op_answer ck \<noteq> None"
    and "map op_key (store_history st) = [''k'', ''k'']" and "length (clerk_ops st) = 2"
  using assms
  by (auto simp: after_session_def store_history_def op_record_def finished_def is_get_def map_eq_Cons_conv
      op_key_def checker_input_def)

theorem stable_store_linearizable_witness:
  "\<exists>st. map (\<lambda>x. KvOutput_Value (Operation_Output x)) (store_history st) = [[], ''a''] \<and>
     kv_linearizable (store_history st)"
proof -
  obtain st where st: "stable_store 3 0 st" and s: "after_session st" by (rule session_reached)
  from stable_store_linearizable [OF st] obtain pending where
    "\<forall>ck \<in> set pending. ck \<in> set (clerk_ops st) \<and> op_answer ck = None"
    and l: "kv_linearizable (store_history st @ map (\<lambda>ck. op_record ck [] (clock st)) pending)" by blast
  with session_history(2) [OF s] have "pending = []" by (cases pending) auto
  with l have "kv_linearizable (store_history st)" by simp
  with session_history(1) [OF s] show ?thesis by (intro exI [of _ st]) simp
qed

text \<open>C13: The checker accepts what a stable store answers: in the executions with one candidate, when at least one call
  has been made and every call of every clerk has returned,
  \<open>CheckOperations\<close> on the recorded history returns \<open>true\<close>, in whatever order its searches finish.\<close>

theorem checker_accepts_stable_store:
  assumes "stable_store n p st" and "clerk_ops st \<noteq> []" and "\<forall>ck \<in> set (clerk_ops st). op_answer ck \<noteq> None"
    and "sorts_by_time srt" and "int (length (clerk_ops st)) < 2 ^ 62"
    and "history_fuel (length (clerk_ops st)) \<le> fuel"
    and "distinct order" and "set order = {..<length (kv_Partition (store_history st))}"
  shows "CheckOperations fuel srt KvModel (store_history st) order = Some (Inr True)"
proof -
  obtain rs where inv: "store_inv n p rs st" using stable_store_inv [OF assms(1)] by blast
  have all: "filter finished (clerk_ops st) = clerk_ops st"
    using assms(3) by (simp add: finished_def filter_id_conv)
  then have len: "length (store_history st) = length (clerk_ops st)" by (simp add: store_history_def)
  have "filter (late rs) (clerk_ops st) = []"
    using assms(3) late_pending unfolding filter_empty_conv by blast
  with store_linearizable [OF inv] have "kv_linearizable (store_history st)" by simp
  moreover have "CheckOperations fuel srt KvModel (store_history st) order =
      Some (Inr (kv_linearizable (store_history st)))"
    using assms(2,5,6) len store_history_proper [OF inv]
    by (intro CheckOperations_kv assms(4,7,8)) auto
  ultimately show ?thesis by simp
qed

theorem checker_accepts_stable_store_witness:
  "\<exists>st. length (store_history st) = 2 \<and>
     CheckOperations (history_fuel 2) (sort_key entry_time) KvModel (store_history st) [0] = Some (Inr True)"
proof -
  obtain st where st: "stable_store 3 0 st" and s: "after_session st" by (rule session_reached)
  have "kv_keys (store_history st) = [''k'']" using session_history(3) [OF s] by (simp add: kv_keys_def)
  then have o: "set [0] = {..<length (kv_Partition (store_history st))}"
    by (simp add: kv_Partition_filter lessThan_Suc)
  have ne: "clerk_ops st \<noteq> []" using session_history(4) [OF s] by auto
  have "CheckOperations (history_fuel 2) (sort_key entry_time) KvModel (store_history st) [0] = Some (Inr True)"
    by (rule checker_accepts_stable_store [OF st ne session_history(2) [OF s] sort_by_time _ _ _ o])
      (simp_all add: session_history(4) [OF s])
  moreover have "length (store_history st) = 2"
    using arg_cong [OF session_history(3) [OF s], of length] by simp
  ultimately show ?thesis by blast
qed

end
