(* ===== verification/Store_Lost.thy ===== *)
theory Store_Lost
  imports Store_Linear
begin

text \<open>
  The store without the restriction to one candidate: a session of clerks, handlers, apply loops and
  cluster in which an append that was answered OK is lost, so that the recorded history of three calls,
  each made after the one before has returned, is not linearizable.
\<close>

section \<open>Runs of the store\<close>

fun store_run :: "store \<Rightarrow> store_event list \<Rightarrow> store go" where
  "store_run st [] = Inr st"
| "store_run st (e # es) = go_bind (sstep st e) (\<lambda>st1. store_run st1 es)"

section \<open>The session\<close>

text \<open>Server 0 is elected and finds both other servers alive.\<close>

definition lost_election :: "store_event list" where
  "lost_election = map Net (elect_0 @ [Run 2, Run 3, Run 4, DrainHB 1, Run 4, Run 4, Run 5, Run 5, Run 5])"

text \<open>A clerk puts 1. The request to server 1 (thread 8) is delayed; server 2 acknowledges, and the call
  returns.\<close>

definition lost_put :: "store_event list" where
  "lost_put =
     [Invoke 1 10 (CkPut ''k'' ''1''), Send 0, Handle 0, Handle 0, Net (StartAppend 0)] @
     map Net [Run 8, Run 8, Run 8, Run 8, Run 9, Run 9, Run 9, Run 9, DrainHB 2, Run 9, Run 9, StartReturn 0] @
     [Handle 0, Consume 0, Handle 0, Handle 0, Receive 0]"

text \<open>The clerk appends 2. Server 1 acknowledges both entries, and the call returns.\<close>

definition lost_append :: "store_event list" where
  "lost_append =
     [Invoke 1 20 (CkAppend ''k'' ''2''), Send 1, Handle 1, Handle 1, Net (StartAppend 1)] @
     map Net [Run 10, Run 10, Run 10, Run 10, DrainHB 1, Run 10, Run 10, StartReturn 1] @
     [Handle 1, Consume 0, Handle 1, Handle 1, Receive 1]"

text \<open>The delayed request cuts the log of server 1 after the first entry; server 1 is elected with the vote of
  server 2 and finds it alive.\<close>

definition lost_second_leader :: "store_event list" where
  "lost_second_leader =
     map Net [DrainHB 1, Run 8, Tick 1, Campaign 1, DrainHB 2, Run 13, Run 13, Decide 1, TakeResult 1,
       Run 14, Run 14, Run 15, Run 17, DrainHB 2, Run 17, Run 17]"

text \<open>Another clerk gets the key: its first RPC, to server 0, fails, and server 1 answers.\<close>

definition lost_get :: "store_event list" where
  "lost_get =
     [Invoke 2 30 (CkGet ''k''), Send 2, RpcFails 2, Send 2, Handle 3, Handle 3, Net (StartAppend 2)] @
     map Net [Run 20, Run 20, Run 20, Run 20, DrainHB 2, Run 20, Run 20, StartReturn 2] @
     [Handle 3, Consume 1, Consume 1, Handle 3, Handle 3, Handle 3, Receive 2]"

definition lost_session :: "store_event list" where
  "lost_session = lost_election @ lost_put @ lost_append @ lost_second_leader @ lost_get"

lemma lost_run:
  "case store_run (initial_store 3) lost_session of
     Inr st \<Rightarrow> map (\<lambda>ck. (op_client ck, op_args ck, op_called ck, op_answer ck)) (clerk_ops st) =
       [(1, CkPut ''k'' ''1'', 0, Some ([], 1)), (1, CkAppend ''k'' ''2'', 2, Some ([], 3)),
        (2, CkGet ''k'', 4, Some (''1'', 5))]
   | Inl _ \<Rightarrow> False"
  by (simp add: lost_session_def lost_election_def lost_put_def lost_append_def lost_second_leader_def
      lost_get_def elect_0_def store_defs ev_RpcFails_def run_simps cong: step_congs)

text \<open>Operations that follow one another have only their own order.\<close>

lemma sequential_history:
  assumes "mset xs = mset history" and "respects_time xs" 
    and "sorted_wrt (\<lambda>x y. Operation_Return x < Operation_Call y) history"
    and "\<forall>x \<in> set history. Operation_Call x < Operation_Return x"
  shows "xs = history"
proof -
  have s: "sorted_wrt (\<lambda>x y. Operation_Call x < Operation_Call y) history"
    by (rule sorted_wrt_mono_rel [OF _ assms(3)]) (use assms(4) in fastforce)
  have "sorted_wrt (\<lambda>x y. Operation_Call x \<le> Operation_Call y) xs"
  proof -
    have sub: "set xs = set history" using assms(1) by (rule mset_eq_setD)
    have tri: "x = y \<or> Operation_Return x < Operation_Call y \<or> Operation_Return y < Operation_Call x"
      if "x \<in> set history" "y \<in> set history" for x y
      using that assms(3) by (metis in_set_conv_nth linorder_neqE_nat sorted_wrt_iff_nth_less)
    show ?thesis
    proof (rule sorted_wrt_mono_rel [OF _ assms(2) [unfolded respects_time_def]])
      fix x y assume "x \<in> set xs" "y \<in> set xs" "\<not> Operation_Return y < Operation_Call x"
      with tri [of x y] sub assms(4) show "Operation_Call x \<le> Operation_Call y" by fastforce
    qed
  qed
  then have "sorted (map Operation_Call xs)" by (simp add: sorted_wrt_map)
  moreover have "sorted_wrt (<) (map Operation_Call history)" using s by (simp add: sorted_wrt_map)
  then have "sorted (map Operation_Call history)" "distinct (map Operation_Call history)"
    unfolding strict_sorted_iff by blast+
  moreover have "inj_on Operation_Call (set history)"
    using \<open>distinct (map Operation_Call history)\<close> by (simp add: distinct_map)
  ultimately show ?thesis
    using assms(1) mset_eq_setD [OF assms(1)] by (intro map_sorted_distinct_set_unique [of Operation_Call])
      (auto simp: distinct_map dest: mset_eq_imp_distinct_iff)
qed

lemma lost_history:
  assumes "map (\<lambda>ck. (op_client ck, op_args ck, op_called ck, op_answer ck)) (clerk_ops st) =
    [(1, CkPut ''k'' ''1'', 0, Some ([], 1)), (1, CkAppend ''k'' ''2'', 2, Some ([], 3)),
     (2, CkGet ''k'', 4, Some (''1'', 5))]"
  shows "store_history st =
    [\<lparr>Operation_ClientId = 1, Operation_Input = \<lparr>KvInput_Op = 1, KvInput_Key = ''k'', KvInput_Value = ''1''\<rparr>,
      Operation_Call = 0, Operation_Output = \<lparr>KvOutput_Value = []\<rparr>, Operation_Return = 1\<rparr>,
     \<lparr>Operation_ClientId = 1, Operation_Input = \<lparr>KvInput_Op = 2, KvInput_Key = ''k'', KvInput_Value = ''2''\<rparr>,
      Operation_Call = 2, Operation_Output = \<lparr>KvOutput_Value = []\<rparr>, Operation_Return = 3\<rparr>,
     \<lparr>Operation_ClientId = 2, Operation_Input = \<lparr>KvInput_Op = 0, KvInput_Key = ''k'', KvInput_Value = []\<rparr>,
      Operation_Call = 4, Operation_Output = \<lparr>KvOutput_Value = ''1''\<rparr>, Operation_Return = 5\<rparr>]"
  using assms
  by (auto simp: store_history_def op_record_def finished_def is_get_def checker_input_def map_eq_Cons_conv)

lemma lost_not_linearizable:
  assumes h: "store_history st =
    [\<lparr>Operation_ClientId = c1, Operation_Input = \<lparr>KvInput_Op = 1, KvInput_Key = ''k'', KvInput_Value = ''1''\<rparr>,
      Operation_Call = 0, Operation_Output = \<lparr>KvOutput_Value = []\<rparr>, Operation_Return = 1\<rparr>,
     \<lparr>Operation_ClientId = c2, Operation_Input = \<lparr>KvInput_Op = 2, KvInput_Key = ''k'', KvInput_Value = ''2''\<rparr>,
      Operation_Call = 2, Operation_Output = \<lparr>KvOutput_Value = []\<rparr>, Operation_Return = 3\<rparr>,
     \<lparr>Operation_ClientId = c3, Operation_Input = \<lparr>KvInput_Op = 0, KvInput_Key = ''k'', KvInput_Value = []\<rparr>,
      Operation_Call = 4, Operation_Output = \<lparr>KvOutput_Value = ''1''\<rparr>, Operation_Return = 5\<rparr>]"
  shows "\<not> kv_linearizable (store_history st)"
proof -
  have "\<not> linearization_of (store_step KvInput_Key kv_Step) (\<lambda>_. []) (store_history st) xs" for xs
  proof
    assume l: "linearization_of (store_step KvInput_Key kv_Step) (\<lambda>_. []) (store_history st) xs"
    then have "xs = store_history st"
      by (intro sequential_history) (simp_all add: linearization_of_def h)
    with l show False by (simp add: linearization_of_def h store_step_def kv_Step_def)
  qed
  then show ?thesis by (simp add: linearizable_history_def)
qed

text \<open>C16: Without the restriction to one candidate the store is not linearizable. There is an execution of
  clerks, handlers, apply loops and cluster of three servers in which a clerk's put of 1 returns OK, then
  its append of 2 to the same key returns OK, and then another clerk's get returns 1: the acknowledged
  append is lost. Each call is made after the one before has returned, no other call is open, and no order
  of the recorded calls explains the answers.\<close>

theorem acknowledged_append_lost:
  "\<exists>st. store_run (initial_store 3) lost_session = Inr st \<and>
     map (\<lambda>ck. (op_client ck, op_args ck, op_called ck, op_answer ck)) (clerk_ops st) =
       [(1, CkPut ''k'' ''1'', 0, Some ([], 1)), (1, CkAppend ''k'' ''2'', 2, Some ([], 3)),
        (2, CkGet ''k'', 4, Some (''1'', 5))] \<and>
     \<not> kv_linearizable (store_history st)"
proof -
  obtain st where st: "store_run (initial_store 3) lost_session = Inr st"
    "map (\<lambda>ck. (op_client ck, op_args ck, op_called ck, op_answer ck)) (clerk_ops st) =
       [(1, CkPut ''k'' ''1'', 0, Some ([], 1)), (1, CkAppend ''k'' ''2'', 2, Some ([], 3)),
        (2, CkGet ''k'', 4, Some (''1'', 5))]"
    using lost_run by (auto split: sum.splits)
  have "\<not> kv_linearizable (store_history st)"
    by (rule lost_not_linearizable [OF lost_history [OF st(2)]])
  with st show ?thesis by (intro exI [of _ st] conjI)
qed

end
