(* ===== verification/Store_Progress.thy ===== *)
theory Store_Progress
  imports Store_Linear Raft_Progress
begin

text \<open>
  A clerk gets its answer: in an execution of the store with one candidate, when the candidate leads and a
  majority is up, the RPC of a clerk to the leader can run from its arrival to an answer OK. The handler, the
  cluster and the apply loop take turns; the cluster does what \<open>Raft_Progress\<close> shows of it.
\<close>

section \<open>Runs of the store\<close>

text \<open>Handlers, the apply loop, the cluster and clerks take their turns; nothing fails.\<close>

fun smooth :: "store_event \<Rightarrow> bool" where
  "smooth (Net e) = calm e"
| "smooth (Handle j) = True"
| "smooth (Consume s) = True"
| "smooth (Send k) = True"
| "smooth (Receive k) = True"
| "smooth _ = False"

definition serves :: "nat \<Rightarrow> store \<Rightarrow> store \<Rightarrow> bool" where
  "serves p st st' \<longleftrightarrow> (\<exists>es. list_all smooth es \<and> srun p st es = Inr st')"

lemma srun_append: "srun p st (es @ fs) = go_bind (srun p st es) (\<lambda>st1. srun p st1 fs)"
proof (induction es arbitrary: st)
  case (Cons e es)
  then show ?case by (cases "sstep st e") simp_all
qed simp

lemma serves_refl [simp]: "serves p st st"
  unfolding serves_def by (intro exI [of _ "[]"]) simp

lemma serves_trans [trans]:
  assumes "serves p st st1" and "serves p st1 st2"
  shows "serves p st st2"
proof -
  from assms obtain es fs where "list_all smooth (es @ fs)" "srun p st es = Inr st1" "srun p st1 fs = Inr st2"
    by (auto simp: serves_def)
  then show ?thesis unfolding serves_def by (intro exI [of _ "es @ fs"]) (simp add: srun_append)
qed

lemma serves_stable: "stable_store n p st \<Longrightarrow> serves p st st' \<Longrightarrow> stable_store n p st'"
  by (auto simp: serves_def intro: srun_stable)

lemma serves_step:
  assumes "sstep st e = Inr st'" and "smooth e" and "\<And>e'. e \<noteq> Net e'"
    and "\<And>j. e = Handle j \<Longrightarrow> h_stage (handlers st ! j) = Leading \<Longrightarrow> h_server (handlers st ! j) = p"
  shows "serves p st st'"
proof -
  have "only_candidate_in p st e"
    using assms(3,4) by (auto simp: only_candidate_in_def only_candidate_def split: store_event.splits)
  with assms(1,2) show ?thesis unfolding serves_def by (intro exI [of _ "[e]"]) simp
qed

text \<open>A calm run of the cluster is a run of the store.\<close>

lemma calm_own: "calm e \<Longrightarrow> own_step e \<and> only_candidate p c e"
  by (cases e) (simp_all add: own_step_def only_candidate_def)

lemma serves_raft:
  assumes "runs_to (raft st) c"
  shows "serves p st (st\<lparr>raft := c\<rparr>)"
proof -
  obtain es where "list_all calm es" "cluster_run (raft st) es = Inr c" using assms by (auto simp: runs_to_def)
  then have "srun p st (map Net es) = Inr (st\<lparr>raft := c\<rparr>) \<and> list_all smooth (map Net es)"
  proof (induction es arbitrary: st)
    case (Cons e es)
    then obtain c1 where c1: "cstep (raft st) e = Inr c1" "cluster_run c1 es = Inr c" by (auto simp: go_simps)
    have e: "own_step e" "only_candidate p (raft st) e" using Cons.prems(1) calm_own [of e] by simp_all
    have "sstep st (Net e) = Inr (st\<lparr>raft := c1\<rparr>)" using e(1) c1(1) by (simp add: go_guard_def)
    moreover have "srun p (st\<lparr>raft := c1\<rparr>) (map Net es) = Inr (st\<lparr>raft := c\<rparr>) \<and> list_all smooth (map Net es)"
      using Cons.IH [of "st\<lparr>raft := c1\<rparr>"] Cons.prems(1) c1(2) by simp
    ultimately show ?case using Cons.prems(1) e(2) by (simp add: only_candidate_in_def)
  qed simp
  then show ?thesis unfolding serves_def by blast
qed

section \<open>The apply loop catches up\<close>

lemma delivered_request:
  assumes inv: "store_inv n p rs st" and i: "i < length (ApplyChan (srv (raft st) s))"
  shows "i < length rs \<and> ApplyMsg_Command (ApplyChan (srv (raft st) s) ! i) = Some (rs ! i)"
proof -
  have ok: "raft_ok n p rs (clerk_ops st) (raft st)" using inv by (simp add: store_inv_def)
  then have "tracks (commands (srv (raft st) p)) (srv (raft st) s)"
    unfolding raft_ok_def by (intro follows_tracks [OF stable_inv_srv [OF stable_invariant]]) blast
  then have pre: "prefix (applied (srv (raft st) s)) (map Some rs)" using ok by (simp add: tracks_def raft_ok_def)
  then have "length (applied (srv (raft st) s)) \<le> length rs" using prefix_length_le by fastforce
  moreover have "applied (srv (raft st) s) ! i = map Some rs ! i"
    using pre i by (auto simp: prefix_def nth_append applied_def)
  ultimately show ?thesis using i by (simp add: applied_def)
qed

lemma catch_up:
  assumes "stable_store n p st" and "\<not> kv_dead (kvs st s)"
  shows "\<exists>kv. serves p st (st\<lparr>kvs := (kvs st)(s := kv)\<rparr>) \<and> applyCh kv = length (ApplyChan (srv (raft st) s))"
  using assms
proof (induction "length (ApplyChan (srv (raft st) s)) - applyCh (kvs st s)" arbitrary: st)
  case 0
  obtain rs where "store_inv n p rs st" using stable_store_inv [OF 0(2)] by blast
  then have "kv_ok rs (length (ApplyChan (srv (raft st) s))) (kvs st s)" by (simp add: store_inv_def)
  with 0(1) have "applyCh (kvs st s) = length (ApplyChan (srv (raft st) s))" by (simp add: kv_ok_def)
  moreover have "st\<lparr>kvs := (kvs st)(s := kvs st s)\<rparr> = st" by simp
  ultimately show ?case by (intro exI [of _ "kvs st s"]) simp
next
  case (Suc d)
  let ?ms = "ApplyChan (srv (raft st) s)" and ?m = "applyCh (kvs st s)"
  obtain rs where inv: "store_inv n p rs st" using stable_store_inv [OF Suc.prems(1)] by blast
  have m: "?m < length ?ms" using Suc.hyps(2) by simp
  have cmd: "ApplyMsg_Command (?ms ! ?m) = Some (rs ! ?m)" using delivered_request [OF inv m] by simp
  define kv where "kv = (applyOp (kv_now st s) (rs ! ?m))\<lparr>applyCh := ?m + 1\<rparr>"
  let ?st = "st\<lparr>kvs := (kvs st)(s := kv)\<rparr>"
  have now: "applyCh (kv_now st s) = ?m" "kv_dead (kv_now st s) = kv_dead (kvs st s)" by (simp_all add: kv_now_def)
  have "sstep st (Consume s) = Inr ?st"
    using m cmd Suc.prems(2) now by (simp add: ev_Consume_def go_guard_def Let_def kv_def)
  then have one: "serves p st ?st" by (rule serves_step) simp_all
  have "d = length (ApplyChan (srv (raft ?st) s)) - applyCh (kvs ?st s)" using Suc.hyps(2) by (simp add: kv_def)
  moreover have "\<not> kv_dead (kvs ?st s)" using Suc.prems(2) now by (simp add: kv_def)
  ultimately obtain kv' where "serves p ?st (?st\<lparr>kvs := (kvs ?st)(s := kv')\<rparr>)" "applyCh kv' = length ?ms"
    using Suc.hyps(1) serves_stable [OF Suc.prems(1) one] by fastforce
  with serves_trans [OF one] show ?case by (intro exI [of _ kv']) simp
qed

section \<open>What the handler finds\<close>

text \<open>A put or an append that has been executed has left its key in the store.\<close>

lemma key_present:
  assumes inv: "store_inv n p rs st" and ck: "ck \<in> set (clerk_ops st)" "\<not> is_get ck"
    and seen: "op_tag ck \<in> ids (kvs st s)"
  shows "existKey (kv_now st s) (Op_Key (request_of ck))"
proof -
  let ?xs = "take (applyCh (kvs st s)) rs" and ?kv = "StartKVServer 0 0 MakePersister 0"
  have kv: "storage (kvs st s) = kvlog.value_after ?xs" "ids (kvs st s) = request_id ` set ?xs"
    using inv by (simp_all add: store_inv_def kv_ok_def)
  have "raft_ok n p rs (clerk_ops st) (raft st)" using inv by (simp add: store_inv_def)
  then have sent: "set rs \<subseteq> request_of ` set (clerk_ops st)" by (rule log_requests)
  have "OpTask r \<in> {Putt, Appendd} \<and> Op_Key r = Op_Key (request_of ck)"
    if r: "r \<in> set ?xs" "request_id r = request_id (request_of ck)" for r
  proof -
    obtain ck' where ck': "ck' \<in> set (clerk_ops st)" "r = request_of ck'"
      using r(1) sent set_take_subset by fastforce
    have "distinct (map op_tag (clerk_ops st))" using inv by (simp add: store_inv_def)
    then have "ck' = ck" using ck(1) ck' r(2) by (auto simp: distinct_map inj_on_def)
    with ck(2) ck'(2) show ?thesis
      by (auto simp: request_of_def is_get_def PutAppend_op_def put_args_def split: clerk_call.splits)
  qed
  moreover have "request_id (request_of ck) \<in> request_id ` set ?xs" using seen kv(2) by simp
  ultimately have "Op_Key (request_of ck) \<in> dom (storage (foldl applyOp ?kv ?xs))"
    by (intro applied_key_exists) simp_all
  then show ?thesis
    using kv(1) by (simp add: existKey_iff kv_now_def kv.value_run kvlog.value_after_def)
qed

section \<open>One RPC\<close>

text \<open>Operation \<open>k\<close> is \<open>ck\<close>, and its handler \<open>j\<close> at server \<open>p\<close> is at \<open>stage\<close>.\<close>

definition serving :: "store \<Rightarrow> nat \<Rightarrow> nat \<Rightarrow> nat \<Rightarrow> clerk_op \<Rightarrow> handler_stage \<Rightarrow> bool" where
  "serving st p k j ck stage \<longleftrightarrow> k < length (clerk_ops st) \<and> clerk_ops st ! k = ck \<and>
     j < length (handlers st) \<and> handlers st ! j = \<lparr>h_op = k, h_server = p, h_stage = stage\<rparr>"

lemma set_stage_fields [simp]:
  "raft (set_stage st j stage) = raft st" "kvs (set_stage st j stage) = kvs st"
  "clerk_ops (set_stage st j stage) = clerk_ops st" "clock (set_stage st j stage) = clock st"
  "kv_now (set_stage st j stage) s = kv_now st s"
  by (simp_all add: set_stage_def kv_now_def)

lemma serving_set_stage:
  "serving st p k j ck stage \<Longrightarrow> serving (set_stage st j stage') p k j ck stage'"
  by (simp add: serving_def set_stage_def)

lemma handle_local_step:
  assumes "serving st p k j ck stage" and "handler_local ck (kv_now st p) stage = Some stage'"
  shows "serves q st (set_stage st j stage')"
proof -
  have "sstep st (Handle j) = Inr (set_stage st j stage')"
    using assms by (cases stage) (simp_all add: serving_def ev_Handle_def go_guard_def)
  then show ?thesis by (rule serves_step) (use assms in \<open>auto simp: serving_def\<close>)
qed

text \<open>The handler has submitted the request, and call \<open>i\<close> of \<open>Start\<close> is committed and applied at \<open>p\<close>.\<close>

lemma committed_answered:
  assumes r: "stable_store n p st" and h: "serving st p k j ck (Submitted i)"
    and c: "committed_at (raft st) p i m (Some (request_of ck)) t" and alive: "\<not> kv_dead (kvs st p)"
  shows "\<exists>st' v. serves p st st' \<and> serving st' p k j ck (Replied OK v) \<and> clock st' = clock st"
proof -
  have "sstep st (Handle j) = Inr (set_stage st j (Polling 10))"
    using h c by (simp add: serving_def committed_at_def ev_Handle_def go_guard_def)
  then have p1: "serves p st (set_stage st j (Polling 10))"
    by (rule serves_step) (use h in \<open>auto simp: serving_def\<close>)
  let ?st1 = "set_stage st j (Polling 10)"
  have h1: "serving ?st1 p k j ck (Polling 10)" using h by (rule serving_set_stage)
  have s1: "stable_store n p ?st1" using r p1 by (rule serves_stable)
  obtain kv where p2: "serves p ?st1 (?st1\<lparr>kvs := (kvs ?st1)(p := kv)\<rparr>)"
    and kv: "applyCh kv = length (ApplyChan (srv (raft st) p))"
    using catch_up [OF s1, of p] alive by auto
  let ?st2 = "?st1\<lparr>kvs := (kvs ?st1)(p := kv)\<rparr>"
  have s2: "stable_store n p ?st2" using s1 p2 by (rule serves_stable)
  have h2: "serving ?st2 p k j ck (Polling 10)" using h1 by (simp add: serving_def)
  obtain rs where inv: "store_inv n p rs ?st2" using stable_store_inv [OF s2] by blast
  have m: "m < length (ApplyChan (srv (raft ?st2) p))"
    "ApplyMsg_Command (ApplyChan (srv (raft ?st2) p) ! m) = Some (request_of ck)"
    using c by (auto simp: committed_at_def applied_def)
  from delivered_request [OF inv m(1)] m(2) have rs: "m < length rs" "rs ! m = request_of ck" by simp_all
  have "kv_ok rs (length (ApplyChan (srv (raft ?st2) p))) (kvs ?st2 p)"
    using inv unfolding store_inv_def by blast
  then have "ids kv = request_id ` set (take (applyCh kv) rs)" by (simp add: kv_ok_def)
  moreover have "request_of ck \<in> set (take (applyCh kv) rs)"
    using m(1) rs kv by (auto simp: in_set_conv_nth intro!: exI [of _ m])
  ultimately have seen: "op_tag ck \<in> ids (kvs ?st2 p)" by (auto simp: image_iff intro: bexI [of _ "request_of ck"])
  have p3: "serves p ?st2 (set_stage ?st2 j Committed)"
    using seen by (intro handle_local_step [OF h2]) (simp add: existId_now)
  let ?st3 = "set_stage ?st2 j Committed"
  have h3: "serving ?st3 p k j ck Committed" using h2 by (rule serving_set_stage)
  have ck: "ck \<in> set (clerk_ops ?st2)" using h2 by (auto simp: serving_def)
  have key: "existKey (kv_now ?st3 p) (Op_Key (request_of ck))" if "\<not> is_get ck"
    using key_present [OF inv ck that seen] by simp
  have through: "serves p st ?st3" using p1 p2 p3 by (blast intro: serves_trans)
  consider (read) "is_get ck" "existKey (kv_now ?st3 p) (Op_Key (request_of ck))"
    | (answer) "handler_local ck (kv_now ?st3 p) Committed = Some (Replied OK [])"
    using key by fastforce
  then show ?thesis
  proof cases
    case read
    then have p4: "serves p ?st3 (set_stage ?st3 j Reading)" by (intro handle_local_step [OF h3]) simp
    let ?st4 = "set_stage ?st3 j Reading"
    have h4: "serving ?st4 p k j ck Reading" using h3 by (rule serving_set_stage)
    have "serves p ?st4 (set_stage ?st4 j (Replied OK (go_get [] (storage (kv_now ?st4 p)) (Op_Key (request_of ck)))))"
      by (intro handle_local_step [OF h4]) simp
    with through p4 serving_set_stage [OF h4] show ?thesis
      by (intro exI [of _ "set_stage ?st4 j _"] exI conjI) (blast intro: serves_trans, blast, simp)
  next
    case answer
    from handle_local_step [OF h3 this] through serving_set_stage [OF h3] show ?thesis
      by (intro exI [of _ "set_stage ?st3 j _"] exI conjI) (blast intro: serves_trans, blast, simp)
  qed
qed

section \<open>A call of a clerk\<close>

text \<open>
  The store is available: the candidate leads and runs its heart beats, its commit index lies within its
  log, its key-value server has not been killed, and \<open>V\<close> is a set of followers that are up and make a
  majority together with it.
\<close>

definition available :: "nat \<Rightarrow> nat set \<Rightarrow> store \<Rightarrow> bool" where
  "available p V st \<longleftrightarrow> leads (raft st) p \<and> LeaderLoop p \<in> set (threads (raft st)) \<and>
     0 \<le> CommitIndex (srv (raft st) p) \<and> CommitIndex (srv (raft st) p) \<le> int (length (Log (srv (raft st) p))) \<and>
     V \<noteq> {} \<and> servers (raft st) div 2 \<le> card V \<and> (\<forall>v \<in> V. peer_up (raft st) p v) \<and> \<not> kv_dead (kvs st p)"

text \<open>A clerk that is about to send its request to \<open>p\<close>.\<close>

definition about_to_ask :: "store \<Rightarrow> nat \<Rightarrow> nat \<Rightarrow> bool" where
  "about_to_ask st k p \<longleftrightarrow> k < length (clerk_ops st) \<and> op_answer (clerk_ops st ! k) = None \<and>
     op_rpc (clerk_ops st ! k) = None \<and> op_server (clerk_ops st ! k) = p"

lemma stable_store_cluster: "stable_store n p st \<Longrightarrow> stable_cluster n p (raft st)"
  using stable_store_inv by (fastforce simp: store_inv_def raft_ok_def)

lemma available_can_lead:
  assumes "stable_store n p st" and "available p V st"
  shows "can_lead (raft st) p V"
proof -
  let ?rf = "srv (raft st) p"
  have sc: "stable_cluster n p (raft st)" using assms(1) by (rule stable_store_cluster)
  have log: "holds_log (commands ?rf) ?rf" by (rule stable_inv_leader [OF stable_invariant [OF sc]])
  then have "prefix (applied ?rf) (commands ?rf)" by (simp add: holds_log_def tracks_def)
  then have "length (applied ?rf) \<le> length (Log ?rf)" using prefix_length_le by fastforce
  then have "LastApply ?rf \<le> int (length (Log ?rf))"
    using applied_length [OF server_ok_of [OF stable_ok [OF sc]], of p] by simp
  then show ?thesis
    using assms(2) matchOf_bound [OF log] by (simp add: can_lead_def available_def peer_known_def)
qed

lemma submitted:
  assumes r: "stable_store n p st" and av: "available p V st" and V: "finite V"
    and h: "serving st p k j ck Leading"
  shows "\<exists>st' i m t. serves p st st' \<and> serving st' p k j ck (Submitted i) \<and>
    committed_at (raft st') p i m (Some (request_of ck)) t \<and> \<not> kv_dead (kvs st' p) \<and> clock st' = clock st"
proof -
  let ?i = "length (starts (raft st))"
  obtain c0 c m t where c0: "cstep (raft st) (ClientStart p (Some (request_of ck))) = Inr c0" "runs_to c0 c"
    "committed_at c p ?i m (Some (request_of ck)) t"
    using call_progress [OF stable_reachable [OF stable_store_cluster [OF r]] available_can_lead [OF r av] V] by blast
  let ?st1 = "set_stage (st\<lparr>raft := c0\<rparr>) j (Submitted ?i)"
  have "sstep st (Handle j) = Inr ?st1" using h c0(1) by (simp add: serving_def ev_Handle_def go_guard_def)
  then have p1: "serves p st ?st1" by (rule serves_step) (use h in \<open>auto simp: serving_def\<close>)
  moreover have "serves p ?st1 (?st1\<lparr>raft := c\<rparr>)" using c0(2) by (intro serves_raft) simp
  ultimately have "serves p st (?st1\<lparr>raft := c\<rparr>)" by (rule serves_trans)
  moreover have "serving (?st1\<lparr>raft := c\<rparr>) p k j ck (Submitted ?i)" using h by (simp add: serving_def set_stage_def)
  moreover have "\<not> kv_dead (kvs (?st1\<lparr>raft := c\<rparr>) p)" using av by (simp add: available_def)
  moreover have "clock (?st1\<lparr>raft := c\<rparr>) = clock st" by simp
  ultimately show ?thesis using c0(3) by (intro exI [of _ "?st1\<lparr>raft := c\<rparr>"]) auto
qed

lemma asked:
  assumes k: "about_to_ask st k p" and av: "available p V st"
  shows "\<exists>st' j ck. serves p st st' \<and> serving st' p k j ck Called \<and> op_rpc ck = Some j \<and> available p V st' \<and>
    clock st' = clock st"
proof -
  let ?j = "length (handlers st)" and ?ck = "clerk_ops st ! k"
  let ?ck' = "?ck\<lparr>op_rpc := Some ?j, op_server := (p + 1) mod servers (raft st)\<rparr>"
  let ?st = "(set_op st k ?ck')\<lparr>handlers := handlers st @ [\<lparr>h_op = k, h_server = p, h_stage = Called\<rparr>]\<rparr>"
  have "sstep st (Send k) = Inr ?st"
    using k av by (simp add: about_to_ask_def available_def leads_def ev_Send_def go_guard_def)
  then have "serves p st ?st" by (rule serves_step) simp_all
  moreover have "serving ?st p k ?j ?ck' Called" using k by (simp add: about_to_ask_def serving_def set_op_def)
  moreover have "available p V ?st" using av by (simp add: available_def set_op_def)
  ultimately show ?thesis by (intro exI [of _ ?st] exI [of _ ?j] exI [of _ ?ck']) (simp add: set_op_def)
qed

lemma clerk_served:
  assumes r: "stable_store n p st" and av: "available p V st" and V: "finite V" and k: "about_to_ask st k p"
  shows "\<exists>st' v. serves p st st' \<and> op_answer (clerk_ops st' ! k) = Some (v, clock st)"
proof -
  obtain st1 j ck where st1: "serves p st st1" "serving st1 p k j ck Called" "op_rpc ck = Some j"
    "available p V st1" "clock st1 = clock st"
    using asked [OF k av] by blast
  have s1: "stable_store n p st1" using r st1(1) by (rule serves_stable)
  have "IsLeader (srv (raft st1) p)"
    using st1(4) server_ok_of [OF stable_ok [OF stable_store_cluster [OF s1]], of p]
    by (auto simp: available_def leads_def server_ok_def role_ok_def)
  then have p2: "serves p st1 (set_stage st1 j Leading)"
    by (intro handle_local_step [OF st1(2)]) (simp add: isLeader_def GetState_def kv_now_def)
  let ?st2 = "set_stage st1 j Leading"
  have s2: "stable_store n p ?st2" using s1 p2 by (rule serves_stable)
  have "available p V ?st2" using st1(4) by (simp add: available_def)
  then obtain st3 i m t where st3: "serves p ?st2 st3" "serving st3 p k j ck (Submitted i)"
    "committed_at (raft st3) p i m (Some (request_of ck)) t" "\<not> kv_dead (kvs st3 p)" "clock st3 = clock ?st2"
    using submitted [OF s2 _ V serving_set_stage [OF st1(2)]] by blast
  have s3: "stable_store n p st3" using s2 st3(1) by (rule serves_stable)
  obtain st4 v where st4: "serves p st3 st4" "serving st4 p k j ck (Replied OK v)" "clock st4 = clock st3"
    using committed_answered [OF s3 st3(2-4)] by blast
  let ?st5 = "(set_op st4 k (ck\<lparr>op_rpc := None, op_answer := Some (v, clock st4)\<rparr>))\<lparr>clock := clock st4 + 1\<rparr>"
  have "sstep st4 (Receive k) = Inr ?st5"
    using st4(2) st1(3) by (simp add: serving_def ev_Receive_def go_guard_def)
  then have "serves p st4 ?st5" by (rule serves_step) simp_all
  then have "serves p st ?st5" using st1(1) p2 st3(1) st4(1) by (blast intro: serves_trans)
  moreover have "op_answer (clerk_ops ?st5 ! k) = Some (v, clock st)"
    using st4(2,3) st3(5) st1(5) by (simp add: serving_def set_op_def)
  ultimately show ?thesis by blast
qed

section \<open>The store answers\<close>

text \<open>Server 0 has just been elected; a clerk calls \<open>Put\<close>.\<close>

definition first_call :: "store_event list" where
  "first_call = map Net elect_0 @ [Invoke 1 7 (CkPut ''k'' ''a'')]"

lemma first_call_run:
  "case srun 0 (initial_store 3) first_call of
     Inr st \<Rightarrow> available 0 {1} st \<and> about_to_ask st 0 0 \<and> op_args (clerk_ops st ! 0) = CkPut ''k'' ''a''
   | Inl _ \<Rightarrow> False"
  by (simp add: first_call_def elect_0_def store_defs available_def about_to_ask_def leads_def peer_up_def
      follower_up_def run_simps cong: step_congs)

text \<open>C2: The store answers, and correctly. In every execution with one candidate \<open>p\<close> (\<open>stable_store\<close>, whatever kills,
  crashes, losses and retries it had), if \<open>p\<close> is alive, leads and runs its heart beats, its commit index
  lies within its log, its key-value server is alive, at least one other server and at least half of all
  servers (rounded down) are followers that are up (so the cluster has two servers or more), and a clerk
  that has not been answered is about to send its request to \<open>p\<close>, then there is a run without failures,
  timers or other calls (the RPC is sent, the handler asks \<open>isLeader\<close>, calls \<open>Start\<close> and polls, the cluster
  commits, the apply loop executes the log, the reply is received) at whose end the call of the clerk has
  returned, and the history at that end, with some of the puts and appends whose clerks still wait, is
  linearizable.\<close>

theorem store_answers:
  assumes "stable_store n p st" and "available p V st" and "finite V" and "about_to_ask st k p"
  shows "\<exists>st' v. serves p st st' \<and> stable_store n p st' \<and>
    op_answer (clerk_ops st' ! k) = Some (v, clock st) \<and> (\<exists>pending. distinct pending \<and>
    (\<forall>ck \<in> set pending. ck \<in> set (clerk_ops st') \<and> op_answer ck = None \<and> \<not> is_get ck) \<and>
    kv_linearizable (store_history st' @ map (\<lambda>ck. op_record ck [] (clock st')) pending))"
proof -
  obtain st' v where st': "serves p st st'" "op_answer (clerk_ops st' ! k) = Some (v, clock st)"
    using clerk_served [OF assms] by blast
  have "stable_store n p st'" using assms(1) st'(1) by (rule serves_stable)
  with st' stable_history [OF this] show ?thesis by blast
qed

theorem store_answers_witness:
  "\<exists>st st' v. stable_store 3 0 st \<and> op_args (clerk_ops st ! 0) = CkPut ''k'' ''a'' \<and>
     op_answer (clerk_ops st ! 0) = None \<and> serves 0 st st' \<and> op_answer (clerk_ops st' ! 0) = Some (v, clock st)"
proof -
  obtain st where st: "srun 0 (initial_store 3) first_call = Inr st" "available 0 {1} st" "about_to_ask st 0 0"
    "op_args (clerk_ops st ! 0) = CkPut ''k'' ''a''"
    using first_call_run by (auto split: sum.splits)
  have r: "stable_store 3 0 st" using stable_store_init st(1) by (rule srun_stable)
  obtain st' v where "serves 0 st st'" "op_answer (clerk_ops st' ! 0) = Some (v, clock st)"
    using store_answers [OF r st(2) _ st(3)] by auto
  with r st(3,4) show ?thesis by (auto simp: about_to_ask_def)
qed

end
