(* ===== verification/Labrpc.thy ===== *)
theory Labrpc
  imports Go_Prelude "HOL-Library.Word"
begin

text \<open>
  \<open>labrpc/labrpc.go\<close>: the simulated network the tests run on. Names of end points and of servers are any
  values; a server object is known by its address. The random choices and the moments at which a
  goroutine looks at the network are arguments: \<open>processReq\<close> gets the network as it is at each of its
  locks. Ending the program with \<open>log.Fatalf\<close> is a panic.
\<close>

section \<open>Services and servers\<close>

text \<open>
  What reflection tells of a method, and the method itself: on encoded arguments and the receiver's
  state it gives the new state and the encoded reply.
\<close>

record ('b, 'w) Method =
  m_name :: string
  m_exported :: bool
  m_numIn :: int
  m_in2_ptr :: bool
  m_numOut :: int
  m_func :: "'b \<Rightarrow> 'w \<Rightarrow> 'w \<times> 'b"

record ('b, 'w) Service =
  svc_name :: string
  svc_methods :: "string \<rightharpoonup> ('b, 'w) Method"

definition suitable :: "('b, 'w) Method \<Rightarrow> bool" where
  "suitable m \<longleftrightarrow> \<not> (\<not> m_exported m \<or> m_numIn m \<noteq> 3 \<or> \<not> m_in2_ptr m \<or> m_numOut m \<noteq> 0)"

definition MakeService :: "string \<Rightarrow> ('b, 'w) Method list \<Rightarrow> ('b, 'w) Service" where
  "MakeService name ms = \<lparr>svc_name = name,
     svc_methods = foldl (\<lambda>t m. if suitable m then t(m_name m \<mapsto> m) else t) Map.empty ms\<rparr>"

record 'b replyMsg =
  rep_ok :: bool
  rep_reply :: "'b option"

record ('e, 'b) reqMsg =
  req_endname :: 'e
  req_svcMeth :: string
  req_args :: 'b

definition failed :: "'b replyMsg" where
  "failed = \<lparr>rep_ok = False, rep_reply = None\<rparr>"

definition Service_dispatch ::
  "('b, 'w) Service \<Rightarrow> string \<Rightarrow> ('e, 'b) reqMsg \<Rightarrow> 'w \<Rightarrow> ('w \<times> 'b replyMsg) go" where
  "Service_dispatch svc methname req w =
     (case svc_methods svc methname of
        None \<Rightarrow> Inl Panic
      | Some method \<Rightarrow> (case m_func method (req_args req) w of (w', r) \<Rightarrow>
          Inr (w', \<lparr>rep_ok = True, rep_reply = Some r\<rparr>)))"

record ('b, 'w) Server =
  services :: "string \<rightharpoonup> ('b, 'w) Service"
  srv_count :: int

definition MakeServer :: "('b, 'w) Server" where
  "MakeServer = \<lparr>services = Map.empty, srv_count = 0\<rparr>"

definition AddService :: "('b, 'w) Server \<Rightarrow> ('b, 'w) Service \<Rightarrow> ('b, 'w) Server" where
  "AddService rs svc = rs\<lparr>services := (services rs)(svc_name svc \<mapsto> svc)\<rparr>"

text \<open>\<open>strings.LastIndex(s, ".")\<close>.\<close>

fun last_dot :: "string \<Rightarrow> int" where
  "last_dot [] = -1"
| "last_dot (ch # s) =
     (if last_dot s \<ge> 0 then last_dot s + 1 else if ch = CHR ''.'' then 0 else -1)"

text \<open>The counter and the dispatch; the receiver's state goes through the method.\<close>

definition Server_dispatch ::
  "('b, 'w) Server \<Rightarrow> ('e, 'b) reqMsg \<Rightarrow> 'w \<Rightarrow> (('b, 'w) Server \<times> 'w \<times> 'b replyMsg) go" where
  "Server_dispatch rs req w =
     (let rs1 = rs\<lparr>srv_count := srv_count rs + 1\<rparr>; dot = last_dot (req_svcMeth req) in
      go_bind (go_slice_to (req_svcMeth req) dot) (\<lambda>serviceName.
      go_bind (go_slice_from (req_svcMeth req) (dot + 1)) (\<lambda>methodName.
        case services rs1 serviceName of
          None \<Rightarrow> Inl Panic
        | Some service \<Rightarrow> go_bind (Service_dispatch service methodName req w)
            (\<lambda>(w', reply). Inr (rs1, w', reply)))))"

definition Server_GetCount :: "('b, 'w) Server \<Rightarrow> int" where
  "Server_GetCount rs = srv_count rs"

section \<open>The network\<close>

text \<open>\<open>objects\<close> are the server objects by address; a missing or nil entry of \<open>servers\<close> or \<open>connections\<close> is
  \<open>None\<close>.\<close>

record 'e ClientEnd =
  endname :: 'e

record ('e, 's, 'b, 'w) Network =
  reliable :: bool
  longDelays :: bool
  longReordering :: bool
  ends :: "'e \<rightharpoonup> 'e ClientEnd"
  enabled :: "'e \<rightharpoonup> bool"
  servers :: "'s \<rightharpoonup> nat option"
  connections :: "'e \<rightharpoonup> 's option"
  net_count :: "32 word"
  net_bytes :: "64 word"
  net_done :: bool
  objects :: "nat \<rightharpoonup> ('b, 'w) Server"

definition MakeNetwork :: "('e, 's, 'b, 'w) Network" where
  "MakeNetwork = \<lparr>reliable = True, longDelays = False, longReordering = False, ends = Map.empty,
     enabled = Map.empty, servers = Map.empty, connections = Map.empty, net_count = 0, net_bytes = 0,
     net_done = False, objects = Map.empty\<rparr>"

text \<open>The goroutine of \<open>MakeNetwork\<close> accepts one request whose arguments have \<open>n\<close> bytes.\<close>

definition net_accept :: "('e, 's, 'b, 'w) Network \<Rightarrow> nat \<Rightarrow> ('e, 's, 'b, 'w) Network" where
  "net_accept rn n = rn\<lparr>net_count := net_count rn + 1, net_bytes := net_bytes rn + of_nat n\<rparr>"

text \<open>Closing a closed channel panics.\<close>

definition Cleanup :: "('e, 's, 'b, 'w) Network \<Rightarrow> ('e, 's, 'b, 'w) Network go" where
  "Cleanup rn = (if net_done rn then Inl Panic else Inr (rn\<lparr>net_done := True\<rparr>))"

definition Reliable :: "('e, 's, 'b, 'w) Network \<Rightarrow> bool \<Rightarrow> ('e, 's, 'b, 'w) Network" where
  "Reliable rn yes = rn\<lparr>reliable := yes\<rparr>"

definition LongReordering :: "('e, 's, 'b, 'w) Network \<Rightarrow> bool \<Rightarrow> ('e, 's, 'b, 'w) Network" where
  "LongReordering rn yes = rn\<lparr>longReordering := yes\<rparr>"

definition LongDelays :: "('e, 's, 'b, 'w) Network \<Rightarrow> bool \<Rightarrow> ('e, 's, 'b, 'w) Network" where
  "LongDelays rn yes = rn\<lparr>longDelays := yes\<rparr>"

definition readEndnameInfo ::
  "('e, 's, 'b, 'w) Network \<Rightarrow> 'e \<Rightarrow> bool \<times> 's option \<times> nat option \<times> bool \<times> bool" where
  "readEndnameInfo rn e =
     (let servername = go_get None (connections rn) e;
          server = (case servername of None \<Rightarrow> None | Some sn \<Rightarrow> go_get None (servers rn) sn)
      in (go_get False (enabled rn) e, servername, server, reliable rn, longReordering rn))"

definition isServerDead :: "('e, 's, 'b, 'w) Network \<Rightarrow> 'e \<Rightarrow> 's \<Rightarrow> nat option \<Rightarrow> bool" where
  "isServerDead rn e servername server \<longleftrightarrow>
     go_get False (enabled rn) e = False \<or> go_get None (servers rn) servername \<noteq> server"

definition MakeEnd ::
  "('e, 's, 'b, 'w) Network \<Rightarrow> 'e \<Rightarrow> (('e, 's, 'b, 'w) Network \<times> 'e ClientEnd) go" where
  "MakeEnd rn e =
     (case ends rn e of
        Some _ \<Rightarrow> Inl Panic
      | None \<Rightarrow> Inr (rn\<lparr>ends := (ends rn)(e \<mapsto> \<lparr>endname = e\<rparr>), enabled := (enabled rn)(e \<mapsto> False),
          connections := (connections rn)(e \<mapsto> None)\<rparr>, \<lparr>endname = e\<rparr>))"

definition AddServer :: "('e, 's, 'b, 'w) Network \<Rightarrow> 's \<Rightarrow> nat \<Rightarrow> ('e, 's, 'b, 'w) Network" where
  "AddServer rn sn rs = rn\<lparr>servers := (servers rn)(sn \<mapsto> Some rs)\<rparr>"

definition DeleteServer :: "('e, 's, 'b, 'w) Network \<Rightarrow> 's \<Rightarrow> ('e, 's, 'b, 'w) Network" where
  "DeleteServer rn sn = rn\<lparr>servers := (servers rn)(sn \<mapsto> None)\<rparr>"

definition net_Connect :: "('e, 's, 'b, 'w) Network \<Rightarrow> 'e \<Rightarrow> 's \<Rightarrow> ('e, 's, 'b, 'w) Network" where
  "net_Connect rn e sn = rn\<lparr>connections := (connections rn)(e \<mapsto> Some sn)\<rparr>"

definition net_Enable :: "('e, 's, 'b, 'w) Network \<Rightarrow> 'e \<Rightarrow> bool \<Rightarrow> ('e, 's, 'b, 'w) Network" where
  "net_Enable rn e yes = rn\<lparr>enabled := (enabled rn)(e \<mapsto> yes)\<rparr>"

text \<open>\<open>GetCount\<close> locks the server it finds, so a nil server is a panic.\<close>

definition net_GetCount :: "('e, 's, 'b, 'w) Network \<Rightarrow> 's \<Rightarrow> int go" where
  "net_GetCount rn sn =
     (case go_get None (servers rn) sn of
        None \<Rightarrow> Inl Panic
      | Some a \<Rightarrow> (case objects rn a of None \<Rightarrow> Inl Panic | Some rs \<Rightarrow> Inr (Server_GetCount rs)))"

definition GetTotalCount :: "('e, 's, 'b, 'w) Network \<Rightarrow> int" where
  "GetTotalCount rn = sint (net_count rn)"

definition GetTotalBytes :: "('e, 's, 'b, 'w) Network \<Rightarrow> int" where
  "GetTotalBytes rn = sint (net_bytes rn)"

section \<open>One request\<close>

text \<open>
  The loop that waits for the handler: the handler's reply arrives, or 100 ms pass and the network is
  looked at. \<open>None\<close>: still waiting. The result is the reply, if there is one.
\<close>

datatype ('e, 's, 'b, 'w) wait = HandlerReturned "'b replyMsg" | Elapsed "('e, 's, 'b, 'w) Network"

fun wait_handler ::
  "'e \<Rightarrow> 's \<Rightarrow> nat option \<Rightarrow> ('e, 's, 'b, 'w) wait list \<Rightarrow> 'b replyMsg option option" where
  "wait_handler e sn server [] = None"
| "wait_handler e sn server (HandlerReturned r # ws) = Some (Some r)"
| "wait_handler e sn server (Elapsed rn # ws) =
     (if isServerDead rn e sn server then Some None else wait_handler e sn server ws)"

text \<open>
  \<open>rn0\<close> and \<open>rn1\<close> are the network when the request is taken and when the reply is about to be sent;
  \<open>dropReq\<close> and \<open>dropRep\<close> are the two random decisions. A delayed reply is the same reply. \<open>None\<close> is a
  request that gets no reply because its handler does not return.
\<close>

definition processReq ::
  "('e, 's, 'b, 'w) Network \<Rightarrow> ('e, 'b) reqMsg \<Rightarrow> bool \<Rightarrow> ('e, 's, 'b, 'w) wait list \<Rightarrow>
     ('e, 's, 'b, 'w) Network \<Rightarrow> bool \<Rightarrow> 'b replyMsg option" where
  "processReq rn0 req dropReq ws rn1 dropRep =
     (case readEndnameInfo rn0 (req_endname req) of (enbl, servername, server, relbl, longreordering) \<Rightarrow>
        if enbl \<and> servername \<noteq> None \<and> server \<noteq> None then
          if relbl = False \<and> dropReq then Some failed
          else (case wait_handler (req_endname req) (the servername) server ws of
                  None \<Rightarrow> None
                | Some reply \<Rightarrow>
                    if reply = None \<or> isServerDead rn1 (req_endname req) (the servername) server
                    then Some failed
                    else if relbl = False \<and> dropRep then Some failed
                    else reply)
        else Some failed)"

text \<open>\<open>Call\<close>: \<open>sent\<close> says which case of the select was taken. The result is the decoded reply.\<close>

definition Call :: "bool \<Rightarrow> 'b replyMsg option \<Rightarrow> (bool \<times> 'b option) option" where
  "Call sent rep =
     (if \<not> sent then Some (False, None)
      else (case rep of
              None \<Rightarrow> None
            | Some r \<Rightarrow> Some (if rep_ok r then (True, rep_reply r) else (False, None))))"

section \<open>The wiring of end points\<close>

text \<open>What the tests rely on when they wire, cut and restart servers.\<close>

locale wiring =
  fixes target :: "'n \<Rightarrow> 'e \<Rightarrow> nat option"
    and lookup :: "'n \<Rightarrow> 's \<Rightarrow> nat option"
    and plug :: "'n \<Rightarrow> 'e \<Rightarrow> 's \<Rightarrow> 'n"
    and switch :: "'n \<Rightarrow> 'e \<Rightarrow> bool \<Rightarrow> 'n"
    and install :: "'n \<Rightarrow> 's \<Rightarrow> nat \<Rightarrow> 'n"
    and uninstall :: "'n \<Rightarrow> 's \<Rightarrow> 'n"
  assumes wired: "target (switch (plug n e s) e True) e = lookup n s"
    and switched_off: "target (switch n e False) e = None"
    and lookup_install: "lookup (install n s a) s = Some a"
    and lookup_uninstall: "lookup (uninstall n s) s = None"
    and lookup_plug: "lookup (plug n e s') s = lookup n s"
    and lookup_switch: "lookup (switch n e b) s = lookup n s"
    and other_end: "e' \<noteq> e \<Longrightarrow> target (switch n e b) e' = target n e' \<and> target (plug n e s) e' = target n e'"
begin

definition wire :: "'s \<Rightarrow> 'n \<Rightarrow> 'e \<Rightarrow> 'n" where
  "wire s n e = switch (plug n e s) e True"

lemma lookup_wires: "lookup (foldl (wire s) n es) s' = lookup n s'"
  by (induction es arbitrary: n) (simp_all add: wire_def lookup_plug lookup_switch)

lemma wires_others: "e \<notin> set es \<Longrightarrow> target (foldl (wire s) n es) e = target n e"
  by (induction es arbitrary: n) (auto simp: wire_def other_end)

text \<open>Every end point of a list that is wired to a server reaches what the server's name stands for.\<close>

lemma wires_reach:
  assumes "e \<in> set es"
  shows "target (foldl (wire s) n es) e = lookup n s"
proof -
  from split_list_last [OF assms] obtain xs ys where es: "es = xs @ e # ys" and y: "e \<notin> set ys" by blast
  then have "target (foldl (wire s) n es) e = target (wire s (foldl (wire s) n xs) e) e"
    by (simp add: wires_others)
  then show ?thesis by (simp add: wire_def wired lookup_wires)
qed

end

definition net_target :: "('e, 's, 'b, 'w) Network \<Rightarrow> 'e \<Rightarrow> nat option" where
  "net_target rn e = (case readEndnameInfo rn e of (enbl, _, server, _, _) \<Rightarrow> if enbl then server else None)"

definition net_lookup :: "('e, 's, 'b, 'w) Network \<Rightarrow> 's \<Rightarrow> nat option" where
  "net_lookup rn sn = go_get None (servers rn) sn"

lemmas wiring_defs = net_target_def net_lookup_def readEndnameInfo_def net_Enable_def net_Connect_def
  AddServer_def DeleteServer_def Let_def

interpretation net: wiring net_target net_lookup net_Connect net_Enable AddServer DeleteServer
  by unfold_locales (simp_all add: wiring_defs split: option.split)

section \<open>Properties of the network\<close>

text \<open>The clients of a name all reach the server object installed under it: after end points are
  connected to the name and enabled, each of them is served by that object, by a new one when the
  name is installed again (a restart), by none when it is deleted, and a disabled end point by none.\<close>

theorem end_points_reach_installed_server:
  assumes "e \<in> set es"
  shows "net_target (foldl (\<lambda>n e. net_Enable (net_Connect n e s) e True) (AddServer rn s a) es) e = Some a \<and>
    net_target (foldl (\<lambda>n e. net_Enable (net_Connect n e s) e True) (DeleteServer rn s) es) e = None \<and>
    net_target (net_Enable rn' e False) e = None"
proof -
  have w: "(\<lambda>n e. net_Enable (net_Connect n e s) e True) = net.wire s"
    by (simp add: net.wire_def fun_eq_iff)
  show ?thesis unfolding w
    by (simp add: net.wires_reach [OF assms] net.lookup_install net.lookup_uninstall net.switched_off)
qed

theorem end_points_reach_installed_server_witness:
  "net_target (foldl (\<lambda>n e. net_Enable (net_Connect n e ''s'') e True)
     (AddServer (MakeNetwork :: (nat, string, nat, nat) Network) ''s'' 7) [1, 2]) 2 = Some 7"
  by (rule end_points_reach_installed_server [THEN conjunct1]) simp

lemma wait_handler_reply:
  "wait_handler e sn server ws = Some (Some r) \<Longrightarrow> HandlerReturned r \<in> set ws"
  by (induction ws) (auto split: wait.splits if_splits elim: wait_handler.elims)

lemma positive_reply:
  assumes "Call sent (processReq rn0 req dropReq ws rn1 dropRep) = Some (True, r)"
  shows "sent \<and> (\<exists>sn a. go_get False (enabled rn0) (req_endname req) \<and>
      go_get None (connections rn0) (req_endname req) = Some sn \<and>
      net_lookup rn0 sn = Some a \<and> HandlerReturned \<lparr>rep_ok = True, rep_reply = r\<rparr> \<in> set ws \<and>
      go_get False (enabled rn1) (req_endname req) \<and> net_lookup rn1 sn = Some a)"
proof -
  let ?e = "req_endname req"
  from assms obtain m where sent: sent and p: "processReq rn0 req dropReq ws rn1 dropRep = Some m"
    and m: "rep_ok m" "r = rep_reply m"
    by (auto simp: Call_def split: option.splits if_splits)
  have nf: "m \<noteq> failed" using m(1) by (auto simp: failed_def)
  obtain enbl sno server rel lr where i: "readEndnameInfo rn0 ?e = (enbl, sno, server, rel, lr)"
    by (cases "readEndnameInfo rn0 ?e")
  from p nf i have e: enbl and "sno \<noteq> None" "server \<noteq> None"
    by (auto simp: processReq_def split: if_splits)
  then obtain sn a where s: "sno = Some sn" "server = Some a" by auto
  from p nf i e s obtain reply where w: "wait_handler ?e sn (Some a) ws = Some (Some reply)"
    and "m = reply" and d: "\<not> isServerDead rn1 ?e sn (Some a)"
    by (auto simp: processReq_def split: if_splits option.splits)
  have "HandlerReturned \<lparr>rep_ok = True, rep_reply = r\<rparr> \<in> set ws"
    using wait_handler_reply [OF w] m \<open>m = reply\<close> by (cases reply) simp
  moreover have "go_get False (enabled rn0) ?e" "go_get None (connections rn0) ?e = Some sn"
    "net_lookup rn0 sn = Some a"
    using i e s by (auto simp: readEndnameInfo_def Let_def net_lookup_def)
  moreover have "go_get False (enabled rn1) ?e" "net_lookup rn1 sn = Some a"
    using d by (auto simp: isServerDead_def net_lookup_def)
  ultimately show ?thesis using sent by blast
qed

text \<open>A call succeeds only with the reply its handler returned, from the server object the end point was
  connected to when the request was taken; and only if the end point is still enabled, and the name
  still stands for that object, when the reply is sent. A server that was deleted or replaced while it
  worked cannot answer.\<close>

theorem positive_reply_is_the_handlers:
  assumes "Call sent (processReq rn0 req dropReq ws rn1 dropRep) = Some (True, r)"
  shows "sent \<and> (\<exists>sn a. go_get False (enabled rn0) (req_endname req) \<and>
      go_get None (connections rn0) (req_endname req) = Some sn \<and>
      net_lookup rn0 sn = Some a \<and> HandlerReturned \<lparr>rep_ok = True, rep_reply = r\<rparr> \<in> set ws \<and>
      go_get False (enabled rn1) (req_endname req) \<and> net_lookup rn1 sn = Some a)"
  using assms by (rule positive_reply)

text \<open>A network on which end point 1 is connected to a server.\<close>

definition wired_net :: "(nat, string, nat, nat) Network" where
  "wired_net = net_Enable (net_Connect (AddServer MakeNetwork ''s'' 7) 1 ''s'') 1 True"

definition a_request :: "(nat, nat) reqMsg" where
  "a_request = \<lparr>req_endname = 1, req_svcMeth = ''Raft.Vote'', req_args = 5\<rparr>"

theorem positive_reply_is_the_handlers_witness:
  "Call True (processReq wired_net a_request False [HandlerReturned \<lparr>rep_ok = True, rep_reply = Some 9\<rparr>]
     wired_net False) = Some (True, Some 9) \<and> net_lookup wired_net ''s'' = Some 7"
proof -
  have c: "Call True (processReq wired_net a_request False
      [HandlerReturned \<lparr>rep_ok = True, rep_reply = Some 9\<rparr>] wired_net False) = Some (True, Some 9)"
    by (simp add: Call_def processReq_def wired_net_def a_request_def MakeNetwork_def wiring_defs
        isServerDead_def)
  from positive_reply_is_the_handlers [OF c] have "\<exists>sn a. go_get None (connections wired_net) 1 = Some sn \<and>
      net_lookup wired_net sn = Some a" by (auto simp: a_request_def)
  with c show ?thesis by (simp add: wired_net_def MakeNetwork_def wiring_defs)
qed

lemma isServerDead_cong:
  "enabled rn' = enabled rn \<Longrightarrow> servers rn' = servers rn \<Longrightarrow>
     isServerDead rn' e sn a = isServerDead rn e sn a"
  by (simp add: isServerDead_def)

text \<open>A reliable network loses nothing: if the end point is wired to a server and nothing is rewired
  while the handler works, the call returns true with the handler's reply.\<close>

theorem reliable_call_succeeds:
  assumes "reliable rn" and "net_target rn (req_endname req) = Some a"
    and "list_all (\<lambda>w. case w of Elapsed rn' \<Rightarrow> enabled rn' = enabled rn \<and> servers rn' = servers rn
      | HandlerReturned r \<Rightarrow> False) idle"
  shows "Call True (processReq rn req dropReq (idle @ HandlerReturned \<lparr>rep_ok = True, rep_reply = r\<rparr> # ws)
    rn dropRep) = Some (True, r)"
proof -
  let ?e = "req_endname req"
  from assms(2) obtain sn where i: "readEndnameInfo rn ?e = (True, Some sn, Some a, True, longReordering rn)"
    and live: "\<not> isServerDead rn ?e sn (Some a)"
    using assms(1)
    by (auto simp: net_target_def readEndnameInfo_def Let_def isServerDead_def split: option.splits if_splits)
  have "wait_handler ?e sn (Some a) (idle @ HandlerReturned m # ws) = Some (Some m)" for m
    using assms(3) by (induction idle) (auto simp: live isServerDead_cong split: wait.splits)
  with i live show ?thesis by (simp add: Call_def processReq_def)
qed

theorem reliable_call_succeeds_witness:
  "Call True (processReq wired_net a_request True
     ([Elapsed wired_net] @ HandlerReturned \<lparr>rep_ok = True, rep_reply = Some 9\<rparr> # []) wired_net True) =
   Some (True, Some 9)"
  by (rule reliable_call_succeeds [where a = 7])
    (simp_all add: wired_net_def a_request_def MakeNetwork_def wiring_defs)

lemma last_dot_none: "CHR ''.'' \<notin> set s \<Longrightarrow> last_dot s = -1"
  by (induction s) auto

lemma last_dot_at: "CHR ''.'' \<notin> set m \<Longrightarrow> last_dot (s @ CHR ''.'' # m) = int (length s)"
  by (induction s) (auto simp: last_dot_none)

text \<open>Dispatch calls exactly the named method of the named service, on the arguments of the request, and
  counts the request; a name without a dot, an unknown service and an unknown method end the program.\<close>

theorem dispatch_calls_the_named_method:
  assumes "CHR ''.'' \<notin> set mname"
  shows "Server_dispatch rs (req\<lparr>req_svcMeth := sname @ CHR ''.'' # mname\<rparr>) w =
    (case services rs sname of
       None \<Rightarrow> Inl Panic
     | Some svc \<Rightarrow> (case svc_methods svc mname of
         None \<Rightarrow> Inl Panic
       | Some m \<Rightarrow> (case m_func m (req_args req) w of (w', r) \<Rightarrow>
           Inr (rs\<lparr>srv_count := srv_count rs + 1\<rparr>, w', \<lparr>rep_ok = True, rep_reply = Some r\<rparr>))))"
  using assms
  by (simp add: Server_dispatch_def Service_dispatch_def last_dot_at go_slice_to_def go_slice_from_def
      Let_def nat_add_distrib split: option.split prod.split)

definition raft_service :: "(nat, nat) Service" where
  "raft_service = MakeService ''Raft''
     [\<lparr>m_name = ''Vote'', m_exported = True, m_numIn = 3, m_in2_ptr = True, m_numOut = 0,
       m_func = (\<lambda>a w. (w + a, 2 * a))\<rparr>]"

theorem dispatch_calls_the_named_method_witness:
  "Server_dispatch (AddService MakeServer raft_service) (a_request\<lparr>req_svcMeth := ''Raft'' @ CHR ''.'' # ''Vote''\<rparr>) 1 =
     Inr ((AddService MakeServer raft_service)\<lparr>srv_count := 1\<rparr>, 6, \<lparr>rep_ok = True, rep_reply = Some 10\<rparr>)"
  by (subst dispatch_calls_the_named_method)
    (simp_all add: AddService_def MakeServer_def raft_service_def MakeService_def suitable_def a_request_def)

end
