(* ===== verification/Net_Steps.thy ===== *)
theory Net_Steps
  imports Labrpc Raft_Cluster
begin

text \<open>
  The cluster on the simulated network: the goroutines of \<open>raft.go\<close> send their RPCs through end points of
  \<open>labrpc\<close>. A request is encoded, accepted by the network, processed by \<open>processReq\<close>, dispatched by name to
  the server object the end point was connected to, and answered; the caller goes on with the decoded
  reply. Servers are deleted and started again as \<open>config.go\<close> of the tests does it.
\<close>

section \<open>Messages and services\<close>

text \<open>The values the RPCs carry, and the library's encoding of them, which is an argument.\<close>

datatype 'c message =
    VoteArgs RequestVoteArgs | VoteReply RequestVoteReply
  | AppendArgs "'c AppendEntriesArgs" | AppendReply AppendEntriesReply

record ('c, 'b) gob_codec =
  gob_enc :: "'c message \<Rightarrow> 'b"
  gob_dec :: "'b \<Rightarrow> 'c message option"
  gob_size :: "'b \<Rightarrow> nat"

text \<open>What is relied on: a value that was encoded is decoded to itself.\<close>

definition reads_back :: "('c, 'b) gob_codec \<Rightarrow> bool" where
  "reads_back cd \<longleftrightarrow> (\<forall>m. gob_dec cd (gob_enc cd m) = Some m)"

definition zero_RequestVoteArgs :: RequestVoteArgs where
  "zero_RequestVoteArgs = \<lparr>RV_PeerId = 0, RV_Term = 0, RV_LastLogIndex = 0, RV_LastLogTerm = 0\<rparr>"

text \<open>The zero of \<open>Job\<close> is none of the jobs, so the handler does for it what it does for \<open>HeartBeat\<close>.\<close>

definition zero_AppendEntriesArgs :: "'c AppendEntriesArgs" where
  "zero_AppendEntriesArgs = \<lparr>AE_Job = HeartBeat, AE_Term = 0, AE_LeaderId = 0, AE_Entries = [],
     AE_PrevLogIndex = 0, AE_PrevLogTerm = 0, AE_LeaderCommit = 0\<rparr>"

text \<open>
  The methods of \<open>*Raft\<close> that are suitable for RPCs. The receiver's state is a Raft server, or the fault
  with which its handler stopped. Dispatch ignores an error of the decoder, which leaves the zero value.
\<close>

definition vote_method :: "('c, 'b) gob_codec \<Rightarrow> ('b, 'c Raft go) Method" where
  "vote_method cd = \<lparr>m_name = ''HandleRequestVote'', m_exported = True, m_numIn = 3, m_in2_ptr = True,
     m_numOut = 0,
     m_func = (\<lambda>b w.
       let args = (case gob_dec cd b of Some (VoteArgs a) \<Rightarrow> a | _ \<Rightarrow> zero_RequestVoteArgs) in
       case go_bind w (\<lambda>rf. HandleRequestVote rf args) of
         Inl e \<Rightarrow> (Inl e, b)
       | Inr (rf', reply) \<Rightarrow> (Inr rf', gob_enc cd (VoteReply reply)))\<rparr>"

definition append_method :: "('c, 'b) gob_codec \<Rightarrow> ('b, 'c Raft go) Method" where
  "append_method cd = \<lparr>m_name = ''HandleAppendEntries'', m_exported = True, m_numIn = 3, m_in2_ptr = True,
     m_numOut = 0,
     m_func = (\<lambda>b w.
       let args = (case gob_dec cd b of Some (AppendArgs a) \<Rightarrow> a | _ \<Rightarrow> zero_AppendEntriesArgs) in
       case go_bind w (\<lambda>rf. HandleAppendEntries rf args) of
         Inl e \<Rightarrow> (Inl e, b)
       | Inr (rf', reply) \<Rightarrow> (Inr rf', gob_enc cd (AppendReply reply)))\<rparr>"

definition raft_object :: "('c, 'b) gob_codec \<Rightarrow> ('b, 'c Raft go) Server" where
  "raft_object cd = AddService MakeServer (MakeService ''Raft'' [vote_method cd, append_method cd])"

section \<open>Requests and callers\<close>

text \<open>\<open>sendRequestVote\<close> and \<open>sendAppendEntries\<close>: the method called, the server asked and the arguments.\<close>

fun svc_meth :: "'c message \<Rightarrow> string" where
  "svc_meth (VoteArgs a) = ''Raft.HandleRequestVote''"
| "svc_meth (AppendArgs a) = ''Raft.HandleAppendEntries''"
| "svc_meth _ = []"

fun request_in :: "'c thread \<Rightarrow> (nat \<times> 'c message) option" where
  "request_in (VoteReq k v a) = Some (v, VoteArgs a)"
| "request_in (VoteOrphan v a) = Some (v, VoteArgs a)"
| "request_in (BeatReq s v a) = Some (v, AppendArgs a)"
| "request_in (AppReq s v a w) = Some (v, AppendArgs a)"
| "request_in (AppOrphan v a) = Some (v, AppendArgs a)"
| "request_in _ = None"

text \<open>A thread whose request has been handled, and whose reply is on its way.\<close>

fun reply_in :: "'c thread \<Rightarrow> 'c message option" where
  "reply_in (VoteRep k v r) = Some (VoteReply r)"
| "reply_in (BeatRep s v r) = Some (AppendReply r)"
| "reply_in (AppRep s v a r w) = Some (AppendReply r)"
| "reply_in _ = None"

fun handled :: "'c thread \<Rightarrow> 'c message \<Rightarrow> 'c thread" where
  "handled (VoteReq k v a) (VoteReply r) = VoteRep k v r"
| "handled (BeatReq s v a) (AppendReply r) = BeatRep s v r"
| "handled (AppReq s v a w) (AppendReply r) = AppRep s v a r w"
| "handled _ _ = Finished"

text \<open>The server whose goroutine waits in \<open>Call\<close>, and the goroutine after the call has returned.\<close>

fun waiting_at :: "candidacy list \<Rightarrow> 'c thread \<Rightarrow> nat option" where
  "waiting_at cs (VoteReq k v a) = Some (cand_owner (cs ! k))"
| "waiting_at cs (VoteRep k v r) = Some (cand_owner (cs ! k))"
| "waiting_at cs (BeatReq s v a) = Some s"
| "waiting_at cs (BeatRep s v r) = Some s"
| "waiting_at cs (AppReq s v a w) = Some s"
| "waiting_at cs (AppRep s v a r w) = Some s"
| "waiting_at cs _ = None"

fun vote_of :: "'c message option \<Rightarrow> RequestVoteReply option" where
  "vote_of (Some (VoteReply r)) = Some r"
| "vote_of _ = None"

fun append_of :: "'c message option \<Rightarrow> AppendEntriesReply option" where
  "append_of (Some (AppendReply r)) = Some r"
| "append_of _ = None"

fun resume :: "'c cluster \<Rightarrow> nat \<Rightarrow> 'c thread \<Rightarrow> 'c message option \<Rightarrow> 'c cluster go" where
  "resume c j (VoteReq k v a) m = count_vote c j k v (vote_of m)"
| "resume c j (VoteRep k v r) m = count_vote c j k v (vote_of m)"
| "resume c j (BeatReq s v a) m = beat_reply c j s v (append_of m)"
| "resume c j (BeatRep s v r) m = beat_reply c j s v (append_of m)"
| "resume c j (AppReq s v a w) m = app_reply c j s v a (append_of m) w"
| "resume c j (AppRep s v a r w) m = app_reply c j s v a (append_of m) w"
| "resume c j _ m = Inl Disabled"

text \<open>What stays on the network when the caller of a request that was not handled goes on.\<close>

fun left_behind :: "'c thread \<Rightarrow> 'c thread list" where
  "left_behind (VoteReq k v a) = [VoteOrphan v a]"
| "left_behind (BeatReq s v a) = [AppOrphan v a]"
| "left_behind (AppReq s v a w) = [AppOrphan v a]"
| "left_behind _ = []"

section \<open>The state\<close>

text \<open>
  An end point is named by the object of its owner and the server it leads to. A call in progress: the
  thread it belongs to, its request, what \<open>processReq\<close> saw and drew when it took the request, the events
  of its waiting loop, the result of the handler, the answer of \<open>processReq\<close>, and whether the caller waits.
\<close>

type_synonym ('c, 'b) raft_network = "(nat \<times> nat, nat, 'b, 'c Raft go) Network"

record ('c, 'b) flight =
  fl_thread :: nat
  fl_req :: "(nat \<times> nat, 'b) reqMsg"
  fl_taken :: "(('c, 'b) raft_network \<times> bool) option"
  fl_waits :: "(nat \<times> nat, nat, 'b, 'c Raft go) wait list"
  fl_result :: "'b replyMsg option"
  fl_answer :: "'b replyMsg option"
  fl_open :: bool

text \<open>\<open>address s\<close> is the object of server \<open>s\<close>; \<open>old\<close> are the Raft servers of objects that were replaced.\<close>

record ('c, 'b) raft_net =
  nodes :: "'c cluster"
  wires :: "('c, 'b) raft_network"
  address :: "nat \<Rightarrow> nat"
  fresh :: nat
  old :: "nat \<Rightarrow> 'c Raft"
  flights :: "('c, 'b) flight list"

definition set_flight :: "('c, 'b) raft_net \<Rightarrow> nat \<Rightarrow> ('c, 'b) flight \<Rightarrow> ('c, 'b) raft_net" where
  "set_flight st i f = st\<lparr>flights := (flights st)[i := f]\<rparr>"

section \<open>Starting servers\<close>

text \<open>\<open>start1\<close> of \<open>config.go\<close>: fresh end points to all servers, then the server object.\<close>

fun make_ends :: "('c, 'b) raft_network \<Rightarrow> nat \<Rightarrow> nat list \<Rightarrow> ('c, 'b) raft_network go" where
  "make_ends rn a [] = Inr rn"
| "make_ends rn a (v # vs) =
     go_bind (MakeEnd rn (a, v)) (\<lambda>(rn1, _). make_ends (net_Connect rn1 (a, v) v) a vs)"

definition start_server ::
  "('c, 'b) gob_codec \<Rightarrow> nat \<Rightarrow> ('c, 'b) raft_network \<Rightarrow> nat \<Rightarrow> nat \<Rightarrow> ('c, 'b) raft_network go" where
  "start_server cd n rn s a =
     go_bind (make_ends rn a [0..<n]) (\<lambda>rn1.
       Inr (AddServer (rn1\<lparr>objects := (objects rn1)(a \<mapsto> raft_object cd)\<rparr>) s a))"

fun start_servers ::
  "('c, 'b) gob_codec \<Rightarrow> nat \<Rightarrow> ('c, 'b) raft_network \<Rightarrow> nat list \<Rightarrow> ('c, 'b) raft_network go" where
  "start_servers cd n rn [] = Inr rn"
| "start_servers cd n rn (s # ss) = go_bind (start_server cd n rn s s) (\<lambda>rn1. start_servers cd n rn1 ss)"

definition initial_net :: "('c, 'b) gob_codec \<Rightarrow> nat \<Rightarrow> ('c, 'b) raft_net go" where
  "initial_net cd n = go_bind (start_servers cd n MakeNetwork [0..<n]) (\<lambda>rn.
     Inr \<lparr>nodes = initial_cluster n, wires = rn, address = (\<lambda>s. s), fresh = n,
       old = (\<lambda>a. Make 0 0 MakePersister), flights = []\<rparr>)"

section \<open>The steps of a call\<close>

text \<open>\<open>Call\<close> encodes the arguments and the network accepts the request.\<close>

definition ev_CallRpc :: "('c, 'b) gob_codec \<Rightarrow> ('c, 'b) raft_net \<Rightarrow> nat \<Rightarrow> ('c, 'b) raft_net go" where
  "ev_CallRpc cd st j = go_guard (j < length (threads (nodes st)) \<and>
       list_all (\<lambda>f. fl_open f \<longrightarrow> fl_thread f \<noteq> j) (flights st))
     (case (request_in (threads (nodes st) ! j), waiting_at (cands (nodes st)) (threads (nodes st) ! j)) of
        (Some (v, m), Some s) \<Rightarrow>
          (let b = gob_enc cd m in
           Inr (st\<lparr>wires := net_accept (wires st) (gob_size cd b),
             flights := flights st @ [\<lparr>fl_thread = j,
               fl_req = \<lparr>req_endname = (address st s, v), req_svcMeth = svc_meth m, req_args = b\<rparr>,
               fl_taken = None, fl_waits = [], fl_result = None, fl_answer = None, fl_open = True\<rparr>]\<rparr>))
      | _ \<Rightarrow> Inl Disabled)"

text \<open>The network has been destroyed: the call returns false.\<close>

definition ev_Refused :: "('c, 'b) raft_net \<Rightarrow> nat \<Rightarrow> ('c, 'b) raft_net go" where
  "ev_Refused st j = go_guard (j < length (threads (nodes st)) \<and> net_done (wires st) \<and>
       list_all (\<lambda>f. fl_open f \<longrightarrow> fl_thread f \<noteq> j) (flights st) \<and>
       request_in (threads (nodes st) ! j) \<noteq> None)
     (let t = threads (nodes st) ! j in
      go_bind (resume (nodes st) j t None) (\<lambda>c. Inr (st\<lparr>nodes := spawn c (left_behind t)\<rparr>)))"

text \<open>\<open>processReq\<close> reads what it needs of the end point and draws whether the request is dropped.\<close>

definition ev_Take :: "('c, 'b) raft_net \<Rightarrow> nat \<Rightarrow> bool \<Rightarrow> ('c, 'b) raft_net go" where
  "ev_Take st i dropReq = go_guard (i < length (flights st) \<and> fl_taken (flights st ! i) = None)
     (Inr (set_flight st i ((flights st ! i)\<lparr>fl_taken := Some (wires st, dropReq)\<rparr>)))"

text \<open>The server and the object to which a request goes, when it is dispatched.\<close>

definition forwarded :: "('c, 'b) raft_network \<Rightarrow> nat \<times> nat \<Rightarrow> bool \<Rightarrow> (nat \<times> nat) option" where
  "forwarded rn e dropReq =
     (case readEndnameInfo rn e of
        (enbl, Some v, Some a, relbl, _) \<Rightarrow> if enbl \<and> \<not> (relbl = False \<and> dropReq) then Some (v, a) else None
      | _ \<Rightarrow> None)"

text \<open>The goroutine that runs the handler. \<open>votes_cast\<close> is the history variable of the cluster.\<close>

fun note_vote :: "'c cluster \<Rightarrow> nat \<Rightarrow> 'c message option \<Rightarrow> 'c message option \<Rightarrow> 'c cluster" where
  "note_vote c v (Some (VoteArgs a)) (Some (VoteReply r)) =
     c\<lparr>votes_cast := (if RVR_VoteGranted r
       then insert (v, RVR_Term r, nat (RV_PeerId a)) (votes_cast c) else votes_cast c)\<rparr>"
| "note_vote c v _ _ = c"

definition after_handler ::
  "('c, 'b) gob_codec \<Rightarrow> 'c cluster \<Rightarrow> nat \<Rightarrow> nat \<Rightarrow> 'c Raft \<Rightarrow> 'b \<Rightarrow> 'b replyMsg \<Rightarrow> 'c cluster" where
  "after_handler cd c v j rf' b r =
     (let reply = Option.bind (rep_reply r) (gob_dec cd) in
      set_thread (note_vote (set_srv c v rf') v (gob_dec cd b) reply) j
        (case reply of Some m \<Rightarrow> handled (threads c ! j) m | None \<Rightarrow> Finished))"

definition ev_Dispatch :: "('c, 'b) gob_codec \<Rightarrow> ('c, 'b) raft_net \<Rightarrow> nat \<Rightarrow> ('c, 'b) raft_net go" where
  "ev_Dispatch cd st i = go_guard (i < length (flights st) \<and> fl_result (flights st ! i) = None)
     (let f = flights st ! i in
      case fl_taken f of
        None \<Rightarrow> Inl Disabled
      | Some (rn0, dropReq) \<Rightarrow>
          (case forwarded rn0 (req_endname (fl_req f)) dropReq of
             None \<Rightarrow> Inl Disabled
           | Some (v, a) \<Rightarrow>
               (case objects (wires st) a of
                  None \<Rightarrow> Inl Disabled
                | Some obj \<Rightarrow>
                    go_bind (Server_dispatch obj (fl_req f)
                        (Inr (if address st v = a then srv (nodes st) v else old st a)))
                      (\<lambda>(obj', w, r). go_bind w (\<lambda>rf'.
                        let st1 = (set_flight st i (f\<lparr>fl_result := Some r\<rparr>))
                              \<lparr>wires := (wires st)\<lparr>objects := (objects (wires st))(a \<mapsto> obj')\<rparr>\<rparr>
                        in Inr (if address st v = a
                          then st1\<lparr>nodes := after_handler cd (nodes st) v (fl_thread f) rf'
                            (req_args (fl_req f)) r\<rparr>
                          else st1\<lparr>old := (old st)(a := rf')\<rparr>))))))"

text \<open>The waiting loop receives the reply, or 100 ms pass and it looks at the network.\<close>

definition ev_HandlerDone :: "('c, 'b) raft_net \<Rightarrow> nat \<Rightarrow> ('c, 'b) raft_net go" where
  "ev_HandlerDone st i = go_guard (i < length (flights st))
     (case fl_result (flights st ! i) of
        None \<Rightarrow> Inl Disabled
      | Some r \<Rightarrow> Inr (set_flight st i ((flights st ! i)
          \<lparr>fl_waits := fl_waits (flights st ! i) @ [HandlerReturned r]\<rparr>)))"

definition ev_Elapse :: "('c, 'b) raft_net \<Rightarrow> nat \<Rightarrow> ('c, 'b) raft_net go" where
  "ev_Elapse st i = go_guard (i < length (flights st) \<and> fl_taken (flights st ! i) \<noteq> None)
     (Inr (set_flight st i ((flights st ! i)
       \<lparr>fl_waits := fl_waits (flights st ! i) @ [Elapsed (wires st)]\<rparr>)))"

text \<open>\<open>processReq\<close> comes to its answer; sending it may take a while.\<close>

definition ev_Answer :: "('c, 'b) gob_codec \<Rightarrow> ('c, 'b) raft_net \<Rightarrow> nat \<Rightarrow> bool \<Rightarrow> ('c, 'b) raft_net go" where
  "ev_Answer cd st i dropRep = go_guard (i < length (flights st) \<and> fl_answer (flights st ! i) = None)
     (let f = flights st ! i in
      case fl_taken f of
        None \<Rightarrow> Inl Disabled
      | Some (rn0, dropReq) \<Rightarrow>
          (case processReq rn0 (fl_req f) dropReq (fl_waits f) (wires st) dropRep of
             None \<Rightarrow> Inl Disabled
           | Some m \<Rightarrow> Inr ((set_flight st i (f\<lparr>fl_answer := Some m\<rparr>))
               \<lparr>wires := (wires st)\<lparr>net_bytes := net_bytes (wires st) +
                 (case rep_reply m of Some b \<Rightarrow> of_nat (gob_size cd b) | None \<Rightarrow> 0)\<rparr>\<rparr>)))"

text \<open>The caller receives the answer, decodes it and goes on.\<close>

definition ev_Return :: "('c, 'b) gob_codec \<Rightarrow> ('c, 'b) raft_net \<Rightarrow> nat \<Rightarrow> ('c, 'b) raft_net go" where
  "ev_Return cd st i = go_guard (i < length (flights st) \<and> fl_open (flights st ! i) \<and>
       fl_answer (flights st ! i) \<noteq> None)
     (let f = flights st ! i; j = fl_thread f; t = threads (nodes st) ! j in
      case Call True (fl_answer f) of
        Some (True, Some b) \<Rightarrow>
          (case gob_dec cd b of
             None \<Rightarrow> Inl Panic
           | Some m \<Rightarrow> go_bind (resume (nodes st) j t (Some m)) (\<lambda>c.
               Inr ((set_flight st i (f\<lparr>fl_open := False\<rparr>))\<lparr>nodes := c\<rparr>)))
      | _ \<Rightarrow> go_bind (resume (nodes st) j t None) (\<lambda>c.
          Inr ((set_flight st i (f\<lparr>fl_open := False,
              fl_thread := (if left_behind t = [] then j else length (threads c))\<rparr>))
            \<lparr>nodes := spawn c (left_behind t)\<rparr>)))"

section \<open>Crashes\<close>

text \<open>
  Server \<open>s\<close> crashes and is started again as a new object from a copy of its persister. Its goroutines
  are gone: their end points stay disabled, and nobody receives their replies.
\<close>

definition ev_Restart :: "('c, 'b) gob_codec \<Rightarrow> ('c, 'b) raft_net \<Rightarrow> nat \<Rightarrow> ('c, 'b) raft_net go" where
  "ev_Restart cd st s =
     go_bind (ev_Crash (nodes st) s) (\<lambda>c.
     go_bind (start_server cd (cluster.servers c) (DeleteServer (wires st) s) s (fresh st)) (\<lambda>rn.
       Inr (st\<lparr>nodes := c, wires := rn, address := (address st)(s := fresh st), fresh := fresh st + 1,
         old := (old st)(address st s := (srv (nodes st) s)\<lparr>dead := True\<rparr>),
         flights := map (\<lambda>f. if waiting_at (cands (nodes st)) (threads (nodes st) ! fl_thread f) = Some s
           then f\<lparr>fl_open := False\<rparr> else f) (flights st)\<rparr>)))"

section \<open>The step function\<close>

text \<open>\<open>Local e\<close> is a step of the cluster that is no message and no crash.\<close>

datatype 'c net_event =
    Local "'c event" | CallRpc nat | Refused nat | Take nat bool | Dispatch nat | HandlerDone nat
  | Elapse nat | Answer nat bool | Return nat | Restart nat
  | Uninstall nat | Switch "nat \<times> nat" bool | SetReliable bool | SetReordering bool | SetDelays bool | Close

fun local_step :: "'c cluster \<Rightarrow> 'c event \<Rightarrow> bool" where
  "local_step c (Run j) \<longleftrightarrow> j < length (threads c) \<and> request_in (threads c ! j) = None \<and>
     reply_in (threads c ! j) = None"
| "local_step c (Fail j) \<longleftrightarrow> False"
| "local_step c (Crash s) \<longleftrightarrow> False"
| "local_step c _ \<longleftrightarrow> True"

fun nstep :: "('c, 'b) gob_codec \<Rightarrow> ('c, 'b) raft_net \<Rightarrow> 'c net_event \<Rightarrow> ('c, 'b) raft_net go" where
  "nstep cd st (Local e) = go_guard (local_step (nodes st) e)
     (go_bind (cstep (nodes st) e) (\<lambda>c. Inr (st\<lparr>nodes := c\<rparr>)))"
| "nstep cd st (CallRpc j) = ev_CallRpc cd st j"
| "nstep cd st (Refused j) = ev_Refused st j"
| "nstep cd st (Take i dropReq) = ev_Take st i dropReq"
| "nstep cd st (Dispatch i) = ev_Dispatch cd st i"
| "nstep cd st (HandlerDone i) = ev_HandlerDone st i"
| "nstep cd st (Elapse i) = ev_Elapse st i"
| "nstep cd st (Answer i dropRep) = ev_Answer cd st i dropRep"
| "nstep cd st (Return i) = ev_Return cd st i"
| "nstep cd st (Restart s) = ev_Restart cd st s"
| "nstep cd st (Uninstall s) = Inr (st\<lparr>wires := DeleteServer (wires st) s\<rparr>)"
| "nstep cd st (Switch e yes) = Inr (st\<lparr>wires := net_Enable (wires st) e yes\<rparr>)"
| "nstep cd st (SetReliable yes) = Inr (st\<lparr>wires := Reliable (wires st) yes\<rparr>)"
| "nstep cd st (SetReordering yes) = Inr (st\<lparr>wires := LongReordering (wires st) yes\<rparr>)"
| "nstep cd st (SetDelays yes) = Inr (st\<lparr>wires := LongDelays (wires st) yes\<rparr>)"
| "nstep cd st Close = go_bind (Cleanup (wires st)) (\<lambda>rn. Inr (st\<lparr>wires := rn\<rparr>))"

inductive net_reachable :: "('c, 'b) gob_codec \<Rightarrow> nat \<Rightarrow> ('c, 'b) raft_net \<Rightarrow> bool"
  for cd :: "('c, 'b) gob_codec" and n :: nat where
  net_init: "initial_net cd n = Inr st \<Longrightarrow> net_reachable cd n st"
| net_step: "net_reachable cd n st \<Longrightarrow> nstep cd st e = Inr st' \<Longrightarrow> net_reachable cd n st'"

end
