(* ===== verification/Net_Invariant.thy ===== *)
theory Net_Invariant
  imports Net_Steps Raft_Stable
begin

text \<open>
  The invariant of the cluster on the simulated network, and the steps of a call against it. It says of
  every call in progress which server object it goes to, that its encoded request is the one its thread
  sent, and that a positive answer holds the reply that the handler computed for this request.
\<close>

section \<open>Handlers behind the dispatcher\<close>

lemma reads_backD: "reads_back cd \<Longrightarrow> gob_dec cd (gob_enc cd m) = Some m"
  by (simp add: reads_back_def)

text \<open>The handler of a message, as the cluster runs it.\<close>

fun handle :: "'c Raft \<Rightarrow> 'c message \<Rightarrow> ('c Raft \<times> 'c message) go" where
  "handle rf (VoteArgs a) = go_bind (HandleRequestVote rf a) (\<lambda>(rf', r). Inr (rf', VoteReply r))"
| "handle rf (AppendArgs a) = go_bind (HandleAppendEntries rf a) (\<lambda>(rf', r). Inr (rf', AppendReply r))"
| "handle rf _ = Inl Disabled"

lemma dispatch_one:
  assumes "services obj sn = Some svc" and "svc_methods svc name = Some mt" and "CHR ''.'' \<notin> set name"
    and "req_svcMeth req = sn @ CHR ''.'' # name" and "Server_dispatch obj req w = Inr (obj', w', r)"
  shows "\<exists>b. m_func mt (req_args req) w = (w', b) \<and> r = \<lparr>rep_ok = True, rep_reply = Some b\<rparr> \<and>
    services obj' = services obj"
proof -
  have "req\<lparr>req_svcMeth := sn @ CHR ''.'' # name\<rparr> = req" using assms(4) [symmetric] by simp
  with dispatch_calls_the_named_method [OF assms(3), where rs = obj and req = req and sname = sn and w = w] assms(1,2,5) show ?thesis
    by (auto split: prod.splits)
qed

lemma raft_methods:
  "svc_methods (MakeService ''Raft'' [vote_method cd, append_method cd]) =
     [''HandleRequestVote'' \<mapsto> vote_method cd, ''HandleAppendEntries'' \<mapsto> append_method cd]"
  by (simp add: MakeService_def suitable_def vote_method_def append_method_def)

lemma dispatch_raft:
  assumes rb: "reads_back cd" and obj: "services obj = services (raft_object cd)"
    and req: "req_svcMeth req = svc_meth m" "req_args req = gob_enc cd m" and t: "request_in t = Some (v, m)"
    and d: "Server_dispatch obj req (Inr rf) = Inr (obj', Inr rf', r)"
  shows "\<exists>reply. handle rf m = Inr (rf', reply) \<and> r = \<lparr>rep_ok = True, rep_reply = Some (gob_enc cd reply)\<rparr> \<and>
    services obj' = services obj"
proof -
  have s: "services obj ''Raft'' = Some (MakeService ''Raft'' [vote_method cd, append_method cd])"
    by (simp add: obj raft_object_def AddService_def MakeServer_def MakeService_def)
  consider a where "m = VoteArgs a" | a where "m = AppendArgs a" using t by (cases t) auto
  then show ?thesis
  proof cases
    case (1 a)
    from dispatch_one [OF s _ _ _ d, where name = "''HandleRequestVote''" and mt = "vote_method cd"] 1 req
    have "\<exists>b. m_func (vote_method cd) (gob_enc cd m) (Inr rf) = (Inr rf', b) \<and>
        r = \<lparr>rep_ok = True, rep_reply = Some b\<rparr> \<and> services obj' = services obj"
      by (simp add: raft_methods)
    then show ?thesis
      by (auto simp: vote_method_def 1 reads_backD [OF rb] split: sum.splits prod.splits)
  next
    case (2 a)
    from dispatch_one [OF s _ _ _ d, where name = "''HandleAppendEntries''" and mt = "append_method cd"] 2 req
    have "\<exists>b. m_func (append_method cd) (gob_enc cd m) (Inr rf) = (Inr rf', b) \<and>
        r = \<lparr>rep_ok = True, rep_reply = Some b\<rparr> \<and> services obj' = services obj"
      by (simp add: raft_methods)
    then show ?thesis
      by (auto simp: append_method_def 2 reads_backD [OF rb] split: sum.splits prod.splits)
  qed
qed

text \<open>A handled request is a step of the cluster, and so is a call that returns.\<close>

lemma run_request:
  assumes "request_in t = Some (v, m)" and "handle (srv c v) m = Inr (rf', reply)"
  shows "run_thread c j t = Inr (set_thread (note_vote (set_srv c v rf') v (Some m) (Some reply)) j (handled t reply))"
  using assms
  by (cases t) (auto simp: vote_at_def append_at_def set_srv_def set_thread_def elim!: go_bindE)

lemma run_reply: "reply_in t = Some m \<Longrightarrow> resume c j t (Some m) = run_thread c j t"
  by (cases t) auto

lemma spawn_Nil: "spawn c [] = c"
  by (simp add: spawn_def)

lemma go_bind_Inr: "go_bind m Inr = m"
  by (cases m) simp_all

lemma fail_waiting:
  "waiting_at cs t \<noteq> None \<Longrightarrow> go_bind (resume c j t None) (\<lambda>c1. Inr (spawn c1 (left_behind t))) = fail_thread c j t"
  by (cases t) (auto simp: spawn_Nil go_bind_Inr)

section \<open>The invariant of calls in progress\<close>

definition caller :: "'c thread \<Rightarrow> bool" where
  "caller t \<longleftrightarrow> waiting_at [] t \<noteq> None"

lemma caller_waits: "waiting_at cs t \<noteq> None \<longleftrightarrow> caller t"
  unfolding caller_def by (cases t) simp_all

lemma caller_network: "caller t \<Longrightarrow> request_in t \<noteq> None \<or> reply_in t \<noteq> None"
  by (cases t) (simp_all add: caller_def)

lemma request_no_reply: "request_in t = Some x \<Longrightarrow> reply_in t = None"
  by (cases t) simp_all

lemma handled_caller:
  "request_in t = Some (v, m) \<Longrightarrow> handle rf m = Inr (rf', reply) \<Longrightarrow> caller t \<Longrightarrow>
     reply_in (handled t reply) = Some reply \<and> caller (handled t reply)"
  by (cases t) (auto simp: caller_def elim!: go_bindE)

lemma left_behind_request:
  "request_in t = Some (v, m) \<Longrightarrow> caller t \<Longrightarrow>
     \<exists>t'. left_behind t = [t'] \<and> request_in t' = Some (v, m) \<and> \<not> caller t'"
  by (cases t) (simp_all add: caller_def)

lemma orphan_other:
  "waiting_at cs t \<noteq> Some s \<Longrightarrow> request_in t \<noteq> None \<or> reply_in t \<noteq> None \<Longrightarrow> orphan cs s t = t"
  by (cases t) auto

lemma orphan_own:
  "waiting_at cs t = Some s \<Longrightarrow> request_in t = Some x \<Longrightarrow>
     request_in (orphan cs s t) = Some x \<and> \<not> caller (orphan cs s t)"
  by (cases t) (auto simp: caller_def)

definition wires_ok :: "('c, 'b) gob_codec \<Rightarrow> ('c, 'b) raft_network \<Rightarrow> (nat \<Rightarrow> nat) \<Rightarrow> nat \<Rightarrow> bool" where
  "wires_ok cd rn addr fr \<longleftrightarrow> (\<forall>v a. net_lookup rn v = Some a \<longrightarrow> a = addr v \<and> a < fr) \<and>
     (\<forall>e v. go_get None (connections rn) e = Some v \<longrightarrow> v = snd e) \<and>
     (\<forall>a obj. objects rn a = Some obj \<longrightarrow> services obj = services (raft_object cd))"

definition destination :: "('c, 'b) flight \<Rightarrow> (nat \<times> nat) option" where
  "destination f = (case fl_taken f of None \<Rightarrow> None
     | Some (rn0, dropReq) \<Rightarrow> forwarded rn0 (req_endname (fl_req f)) dropReq)"

definition thread_of :: "('c, 'b) raft_net \<Rightarrow> ('c, 'b) flight \<Rightarrow> 'c thread" where
  "thread_of st f = threads (nodes st) ! fl_thread f"

text \<open>A call that is still connected with a thread: its caller waits, or its request may be handled.\<close>

definition live :: "('c, 'b) flight \<Rightarrow> bool" where
  "live f \<longleftrightarrow> fl_open f \<or> fl_result f = None"

definition stale :: "('c, 'b) raft_net \<Rightarrow> ('c, 'b) flight \<Rightarrow> bool" where
  "stale st f \<longleftrightarrow> (\<exists>v a. destination f = Some (v, a) \<and> a \<noteq> address st v)"

definition sent_by :: "('c, 'b) gob_codec \<Rightarrow> ('c, 'b) flight \<Rightarrow> 'c thread \<Rightarrow> bool" where
  "sent_by cd f t \<longleftrightarrow> (\<exists>m. request_in t = Some (snd (req_endname (fl_req f)), m) \<and>
     req_svcMeth (fl_req f) = svc_meth m \<and> req_args (fl_req f) = gob_enc cd m)"

definition replied_in :: "('c, 'b) gob_codec \<Rightarrow> 'b replyMsg option \<Rightarrow> 'c thread \<Rightarrow> bool" where
  "replied_in cd r t \<longleftrightarrow> (\<exists>m. reply_in t = Some m \<and> r = Some \<lparr>rep_ok = True, rep_reply = Some (gob_enc cd m)\<rparr>)"

definition flight_ok :: "('c, 'b) gob_codec \<Rightarrow> ('c, 'b) raft_net \<Rightarrow> ('c, 'b) flight \<Rightarrow> bool" where
  "flight_ok cd st f \<longleftrightarrow>
     (\<forall>v a. destination f = Some (v, a) \<longrightarrow> v = snd (req_endname (fl_req f)) \<and> a < fresh st) \<and>
     (\<forall>r. HandlerReturned r \<in> set (fl_waits f) \<longrightarrow> fl_result f = Some r) \<and>
     (live f \<longrightarrow> fl_thread f < length (threads (nodes st)) \<and> (caller (thread_of st f) \<longleftrightarrow> fl_open f)) \<and>
     (fl_result f = None \<longrightarrow> sent_by cd f (thread_of st f)) \<and>
     (fl_open f \<and> fl_result f \<noteq> None \<longrightarrow> stale st f \<or> replied_in cd (fl_result f) (thread_of st f)) \<and>
     (\<forall>m. fl_open f \<and> fl_answer f = Some m \<and> rep_ok m \<longrightarrow> replied_in cd (Some m) (thread_of st f))"

definition one_call :: "('c, 'b) flight list \<Rightarrow> bool" where
  "one_call fs \<longleftrightarrow> (\<forall>i k. i < length fs \<longrightarrow> k < length fs \<longrightarrow> i \<noteq> k \<longrightarrow> live (fs ! i) \<longrightarrow> live (fs ! k) \<longrightarrow>
     fl_thread (fs ! i) \<noteq> fl_thread (fs ! k))"

definition net_inv :: "('c, 'b) gob_codec \<Rightarrow> ('c, 'b) raft_net \<Rightarrow> bool" where
  "net_inv cd st \<longleftrightarrow> reads_back cd \<and> wires_ok cd (wires st) (address st) (fresh st) \<and>
     (\<forall>f \<in> set (flights st). flight_ok cd st f) \<and> one_call (flights st)"

lemma flight_upd [simp]:
  "destination (f\<lparr>fl_waits := ws\<rparr>) = destination f"
  "destination (f\<lparr>fl_result := r\<rparr>) = destination f"
  "destination (f\<lparr>fl_answer := m\<rparr>) = destination f"
  "destination (f\<lparr>fl_open := b\<rparr>) = destination f"
  "destination (f\<lparr>fl_thread := j\<rparr>) = destination f"
  "stale st (f\<lparr>fl_waits := ws\<rparr>) = stale st f"
  "stale st (f\<lparr>fl_result := r\<rparr>) = stale st f"
  "stale st (f\<lparr>fl_answer := m\<rparr>) = stale st f"
  "stale st (f\<lparr>fl_open := b\<rparr>) = stale st f"
  "stale st (f\<lparr>fl_thread := j\<rparr>) = stale st f"
  "sent_by cd (f\<lparr>fl_waits := ws\<rparr>) t = sent_by cd f t"
  "sent_by cd (f\<lparr>fl_result := r\<rparr>) t = sent_by cd f t"
  "sent_by cd (f\<lparr>fl_answer := m\<rparr>) t = sent_by cd f t"
  "sent_by cd (f\<lparr>fl_open := b\<rparr>) t = sent_by cd f t"
  "sent_by cd (f\<lparr>fl_thread := j\<rparr>) t = sent_by cd f t"
  "thread_of st (f\<lparr>fl_waits := ws\<rparr>) = thread_of st f"
  "thread_of st (f\<lparr>fl_result := r\<rparr>) = thread_of st f"
  "thread_of st (f\<lparr>fl_answer := m\<rparr>) = thread_of st f"
  "thread_of st (f\<lparr>fl_open := b\<rparr>) = thread_of st f"
  by (simp_all add: destination_def stale_def sent_by_def thread_of_def cong: option.case_cong)

lemma net_inv_flight: "net_inv cd st \<Longrightarrow> i < length (flights st) \<Longrightarrow> flight_ok cd st (flights st ! i)"
  by (simp add: net_inv_def)

lemma live_network:
  assumes "flight_ok cd st f" and "live f"
  shows "request_in (thread_of st f) \<noteq> None \<or> reply_in (thread_of st f) \<noteq> None"
  using assms caller_network [of "thread_of st f"] by (auto simp: flight_ok_def live_def sent_by_def)

text \<open>Objects only change to fresh ones, and a step that leaves the threads of live calls alone keeps them.\<close>

definition address_moves :: "('c, 'b) raft_net \<Rightarrow> ('c, 'b) raft_net \<Rightarrow> bool" where
  "address_moves st st' \<longleftrightarrow> fresh st \<le> fresh st' \<and>
     (\<forall>v. address st' v = address st v \<or> fresh st \<le> address st' v)"

definition keeps_thread :: "('c, 'b) raft_net \<Rightarrow> ('c, 'b) raft_net \<Rightarrow> ('c, 'b) flight \<Rightarrow> bool" where
  "keeps_thread st st' f \<longleftrightarrow> fl_thread f < length (threads (nodes st')) \<and> thread_of st' f = thread_of st f"

lemma address_moves_same: "address st' = address st \<Longrightarrow> fresh st' = fresh st \<Longrightarrow> address_moves st st'"
  by (simp add: address_moves_def)

lemma keeps_thread_same: "flight_ok cd st f \<Longrightarrow> live f \<Longrightarrow> threads (nodes st') = threads (nodes st) \<Longrightarrow> keeps_thread st st' f"
  by (simp add: keeps_thread_def thread_of_def flight_ok_def)

lemma stale_moves:
  assumes "stale st f" and "flight_ok cd st f" and "address_moves st st'"
  shows "stale st' f"
proof -
  from assms(1) obtain v a where d: "destination f = Some (v, a)" "a \<noteq> address st v" by (auto simp: stale_def)
  with assms(2) have "a < fresh st" by (simp add: flight_ok_def)
  with d assms(3) have "a \<noteq> address st' v" by (metis address_moves_def leD)
  with d(1) show ?thesis by (auto simp: stale_def)
qed

lemma flight_ok_frame:
  assumes "flight_ok cd st f" and "address_moves st st'" and "live f \<Longrightarrow> keeps_thread st st' f"
  shows "flight_ok cd st' f"
proof -
  have fr: "a < fresh st \<Longrightarrow> a < fresh st'" for a using assms(2) by (auto simp: address_moves_def)
  show ?thesis
    using assms(1,3) fr stale_moves [OF _ assms(1,2)]
    by (auto simp: flight_ok_def keeps_thread_def live_def)
qed

section \<open>The steps keep the invariant\<close>

text \<open>A step that replaces one call and leaves the threads of the other live ones alone.\<close>

lemma net_inv_update:
  assumes inv: "net_inv cd st" and i: "i < length (flights st)"
    and fs: "flights st' = (flights st)[i := f']" and w: "wires_ok cd (wires st') (address st') (fresh st')"
    and a: "address_moves st st'"
    and others: "\<And>k. k < length (flights st) \<Longrightarrow> k \<noteq> i \<Longrightarrow> live (flights st ! k) \<Longrightarrow>
      keeps_thread st st' (flights st ! k)"
    and f': "flight_ok cd st' f'"
    and place: "live f' \<Longrightarrow> live (flights st ! i) \<and> fl_thread f' = fl_thread (flights st ! i) \<or>
      length (threads (nodes st)) \<le> fl_thread f'"
  shows "net_inv cd st'"
proof -
  have "flight_ok cd st' (flights st' ! k)" if "k < length (flights st)" for k
    using that f' flight_ok_frame [OF net_inv_flight [OF inv that] a others [OF that]] i
    by (cases "k = i") (simp_all add: fs)
  then have "\<forall>f \<in> set (flights st'). flight_ok cd st' f" by (auto simp: fs in_set_conv_nth)
  moreover have far: "fl_thread (flights st ! k) < length (threads (nodes st))"
    if "k < length (flights st)" "live (flights st ! k)" for k
    using net_inv_flight [OF inv that(1)] that(2) by (simp add: flight_ok_def)
  have new: "fl_thread f' \<noteq> fl_thread (flights st ! k)"
    if "k < length (flights st)" "live (flights st ! k)" "k \<noteq> i" "live f'" for k
    using place [OF that(4)] far [OF that(1,2)] inv i that by (auto simp: net_inv_def one_call_def)
  have "one_call (flights st')"
    unfolding one_call_def fs
  proof (intro allI impI)
    fix k l assume kl: "k < length ((flights st)[i := f'])" "l < length ((flights st)[i := f'])" "k \<noteq> l"
      and live: "live ((flights st)[i := f'] ! k)" "live ((flights st)[i := f'] ! l)"
    consider "k = i" | "l = i" | "k \<noteq> i" "l \<noteq> i" by blast
    then show "fl_thread ((flights st)[i := f'] ! k) \<noteq> fl_thread ((flights st)[i := f'] ! l)"
    proof cases
      case 1
      with kl live new [of l] show ?thesis by auto
    next
      case 2
      with kl live new [of k] show ?thesis by auto
    next
      case 3
      with kl live inv show ?thesis by (auto simp: net_inv_def one_call_def)
    qed
  qed
  ultimately show ?thesis using inv w by (simp add: net_inv_def)
qed

lemma net_inv_set_flight:
  assumes inv: "net_inv cd st" and i: "i < length (flights st)"
    and st': "flights st' = (flights st)[i := f']" "threads (nodes st') = threads (nodes st)"
      "address st' = address st" "fresh st' = fresh st"
    and w: "wires_ok cd (wires st') (address st) (fresh st)"
    and f': "flight_ok cd st f'" and place: "live f' \<Longrightarrow> live (flights st ! i)"
      "fl_thread f' = fl_thread (flights st ! i)"
  shows "net_inv cd st'"
proof (rule net_inv_update [OF inv i st'(1)])
  show "wires_ok cd (wires st') (address st') (fresh st')" using w st' by simp
  show a: "address_moves st st'" using st' by (simp add: address_moves_same)
  show "keeps_thread st st' (flights st ! k)" if "k < length (flights st)" "k \<noteq> i" "live (flights st ! k)" for k
    using keeps_thread_same [OF net_inv_flight [OF inv that(1)] that(3) st'(2)] .
  show "flight_ok cd st' f'" by (rule flight_ok_frame [OF f' a]) (rule keeps_thread_same [OF f' _ st'(2)])
qed (use place in auto)

lemma net_inv_nodes:
  assumes inv: "net_inv cd st"
    and same: "flights st' = flights st" "address st' = address st" "fresh st' = fresh st"
    and w: "wires_ok cd (wires st') (address st) (fresh st)"
    and keeps: "\<And>f. f \<in> set (flights st) \<Longrightarrow> live f \<Longrightarrow> keeps_thread st st' f"
  shows "net_inv cd st'"
proof -
  have "flight_ok cd st' f" if "f \<in> set (flights st)" for f
    using inv that flight_ok_frame [OF _ address_moves_same [OF same(2,3)] keeps [OF that]]
    by (simp add: net_inv_def)
  with inv same w show ?thesis by (simp add: net_inv_def)
qed

lemma wires_ok_same:
  "wires_ok cd rn addr fr \<Longrightarrow> Network.servers rn' = Network.servers rn \<Longrightarrow> connections rn' = connections rn \<Longrightarrow>
     objects rn' = objects rn \<Longrightarrow> wires_ok cd rn' addr fr"
  by (simp add: wires_ok_def net_lookup_def)

text \<open>The threads of calls are not touched by the steps of other threads.\<close>

lemma threads_finish_append: "threads (finish_append c j w) = (threads c)[j := Finished]"
  by (simp add: finish_append_def set_thread_def set_start_def Let_def split: option.split start_stage.split)

lemma threads_prims:
  "threads (set_srv c s rf) = threads c" "threads (set_cand c k cd) = threads c"
  "threads (set_start c i x) = threads c" "threads (set_thread c j t) = (threads c)[j := t]"
  "threads (spawn c ts) = threads c @ ts"
  by (simp_all add: set_srv_def set_cand_def set_start_def set_thread_def spawn_def)

lemma threads_note_vote [simp]: "threads (note_vote c v x y) = threads c"
  by (cases "(c, v, x, y)" rule: note_vote.cases) simp_all

definition leaves :: "'c cluster \<Rightarrow> 'c cluster \<Rightarrow> nat \<Rightarrow> bool" where
  "leaves c c' i \<longleftrightarrow> i < length (threads c') \<and> threads c' ! i = threads c ! i"

lemma resume_leaves:
  assumes "resume c j t m = Inr c'" and "i < length (threads c)" and "i \<noteq> j"
  shows "leaves c c' i"
  using assms
  by (cases t) (auto simp: leaves_def count_vote_def beat_reply_def app_reply_def Let_def go_simps
      threads_prims threads_finish_append nth_append split: option.splits if_splits prod.splits)

lemma resume_length:
  "resume c j t m = Inr c' \<Longrightarrow> length (threads c) \<le> length (threads c')"
  by (cases t) (auto simp: count_vote_def beat_reply_def app_reply_def Let_def go_simps threads_prims
      threads_finish_append split: option.splits if_splits prod.splits)

lemma local_leaves:
  assumes loc: "local_step c e" and st: "cstep c e = Inr c'" and i: "i < length (threads c)"
    and net: "request_in (threads c ! i) \<noteq> None \<or> reply_in (threads c ! i) \<noteq> None"
  shows "leaves c c' i"
proof (cases "\<exists>j. e = Run j")
  case True
  then obtain j where e: "e = Run j" by blast
  with loc net have "i \<noteq> j" by auto
  with e loc st i show ?thesis
    by (cases "threads c ! j") (auto simp: leaves_def go_simps ev_LeaderSetup_def ev_LeaderTurn_def
        ev_BeatCheck_def ev_BeatBuild_def ev_AppInit_def ev_AppBuild_def ev_AppLoop_def ev_AppSend_def
        threads_prims threads_finish_append nth_append split: if_splits)
next
  case False
  with loc st i show ?thesis
    by (cases e) (auto simp: leaves_def go_simps Let_def ev_Tick_def ev_DrainHB_def ev_TakeResult_def ev_LoopExit_def
        ev_DrainBecome_def ev_Campaign_def ev_Expire_def ev_Decide_def ev_Start_def ev_StartAppend_def
        ev_StartReturn_def ev_Kill_def threads_prims nth_append
        split: cand_stage.splits election_result.splits start_stage.splits prod.splits)
qed

text \<open>What a step of a call or a restart is to the cluster: a message, a crash, or nothing.\<close>

fun message_or_crash :: "'c event \<Rightarrow> bool" where
  "message_or_crash (Run j) \<longleftrightarrow> True"
| "message_or_crash (Fail j) \<longleftrightarrow> True"
| "message_or_crash (Crash s) \<longleftrightarrow> True"
| "message_or_crash _ \<longleftrightarrow> False"

definition simulated :: "'c cluster \<Rightarrow> 'c cluster \<Rightarrow> bool" where
  "simulated c c' \<longleftrightarrow> c' = c \<or> (\<exists>e. message_or_crash e \<and> cstep c e = Inr c')"

lemma simulatedI: "cstep c e = Inr c' \<Longrightarrow> message_or_crash e \<Longrightarrow> simulated c c'"
  by (auto simp: simulated_def)

lemma simulated_refl: "simulated c c"
  by (simp add: simulated_def)

lemma Local_step:
  assumes inv: "net_inv cd st" and st: "nstep cd st (Local e) = Inr st'"
  shows "net_inv cd st' \<and> cstep (nodes st) e = Inr (nodes st')"
proof -
  from st obtain c where c: "cstep (nodes st) e = Inr c" and l: "local_step (nodes st) e"
    and st': "st' = st\<lparr>nodes := c\<rparr>" by (auto simp: go_simps)
  have "keeps_thread st st' f" if f: "f \<in> set (flights st)" "live f" for f
  proof -
    have ok: "flight_ok cd st f" using inv f(1) by (simp add: net_inv_def)
    then have "fl_thread f < length (threads (nodes st))" using f(2) by (simp add: flight_ok_def)
    with local_leaves [OF l c] live_network [OF ok f(2)] show ?thesis
      by (simp add: keeps_thread_def thread_of_def leaves_def st')
  qed
  then have "net_inv cd st'"
    using inv by (intro net_inv_nodes [OF inv]) (simp_all add: st' net_inv_def)
  with c st' show ?thesis by simp
qed

lemma one_call_snoc:
  assumes "one_call fs" and "\<And>g. g \<in> set fs \<Longrightarrow> live g \<Longrightarrow> fl_thread g \<noteq> fl_thread f"
  shows "one_call (fs @ [f])"
proof -
  have new: "fl_thread (fs ! k) \<noteq> fl_thread f" if "k < length fs" "live (fs ! k)" for k
    using assms(2) [of "fs ! k"] that by simp
  show ?thesis
    unfolding one_call_def
  proof (intro allI impI)
    fix i k assume ik: "i < length (fs @ [f])" "k < length (fs @ [f])" "i \<noteq> k"
      and live: "live ((fs @ [f]) ! i)" "live ((fs @ [f]) ! k)"
    consider "i < length fs" "k < length fs" | "i < length fs" "k = length fs" | "i = length fs" "k < length fs"
      using ik by force
    then show "fl_thread ((fs @ [f]) ! i) \<noteq> fl_thread ((fs @ [f]) ! k)"
    proof cases
      case 1
      with assms(1) ik(3) live show ?thesis by (simp add: one_call_def nth_append)
    next
      case 2
      with new [of i] live show ?thesis by (simp add: nth_append)
    next
      case 3
      with new [of k] live show ?thesis by (force simp: nth_append)
    qed
  qed
qed

lemma one_call_map:
  "one_call fs \<Longrightarrow> (\<And>f. live (g f) \<Longrightarrow> live f) \<Longrightarrow> (\<And>f. fl_thread (g f) = fl_thread f) \<Longrightarrow> one_call (map g fs)"
  by (simp add: one_call_def)

lemma CallRpc_step:
  assumes inv: "net_inv cd st" and st: "ev_CallRpc cd st j = Inr st'"
  shows "net_inv cd st' \<and> simulated (nodes st) (nodes st')"
proof -
  let ?t = "threads (nodes st) ! j"
  from st obtain v m s where j: "j < length (threads (nodes st))" and r: "request_in ?t = Some (v, m)"
    and w: "waiting_at (cands (nodes st)) ?t = Some s"
    and free: "list_all (\<lambda>f. fl_open f \<longrightarrow> fl_thread f \<noteq> j) (flights st)"
    and st': "st' = st\<lparr>wires := net_accept (wires st) (gob_size cd (gob_enc cd m)),
      flights := flights st @ [\<lparr>fl_thread = j,
        fl_req = \<lparr>req_endname = (address st s, v), req_svcMeth = svc_meth m, req_args = gob_enc cd m\<rparr>,
        fl_taken = None, fl_waits = [], fl_result = None, fl_answer = None, fl_open = True\<rparr>]\<rparr>"
    by (auto simp: ev_CallRpc_def go_simps Let_def split: option.splits prod.splits)
  let ?f = "last (flights st')"
  have f: "?f = \<lparr>fl_thread = j,
        fl_req = \<lparr>req_endname = (address st s, v), req_svcMeth = svc_meth m, req_args = gob_enc cd m\<rparr>,
        fl_taken = None, fl_waits = [], fl_result = None, fl_answer = None, fl_open = True\<rparr>"
    and fs: "flights st' = flights st @ [?f]" and n: "nodes st' = nodes st" by (simp_all add: st')
  have c: "caller ?t" using w caller_waits [of "cands (nodes st)" ?t] by simp
  have new: "flight_ok cd st' ?f"
    unfolding f using j r c by (simp add: flight_ok_def destination_def thread_of_def sent_by_def st')
  have old: "flight_ok cd st' g" if "g \<in> set (flights st)" for g
  proof -
    have ok: "flight_ok cd st g" using inv that by (simp add: net_inv_def)
    show ?thesis
      by (rule flight_ok_frame [OF ok address_moves_same keeps_thread_same [OF ok]]) (simp_all add: st')
  qed
  have other: "fl_thread g \<noteq> j" if "g \<in> set (flights st)" "live g" for g
  proof
    assume g: "fl_thread g = j"
    with free that(1) have "\<not> fl_open g" by (auto simp: list_all_iff)
    with inv that g c show False by (auto simp: net_inv_def flight_ok_def thread_of_def)
  qed
  have "one_call (flights st @ [?f])"
    using inv other by (intro one_call_snoc) (simp_all add: net_inv_def f)
  moreover have "wires_ok cd (wires st') (address st') (fresh st')"
    using inv by (auto simp: net_inv_def st' net_accept_def intro: wires_ok_same)
  moreover have "set (flights st') = insert ?f (set (flights st))" using arg_cong [OF fs, of set] by simp
  ultimately have "net_inv cd st'" using inv new old fs by (simp add: net_inv_def)
  with n show ?thesis by (simp add: simulated_refl)
qed

lemma Refused_step:
  assumes inv: "net_inv cd st" and st: "ev_Refused st j = Inr st'"
  shows "net_inv cd st' \<and> simulated (nodes st) (nodes st')"
proof -
  let ?t = "threads (nodes st) ! j"
  from st obtain c where j: "j < length (threads (nodes st))" and r: "request_in ?t \<noteq> None"
    and free: "list_all (\<lambda>f. fl_open f \<longrightarrow> fl_thread f \<noteq> j) (flights st)"
    and c: "resume (nodes st) j ?t None = Inr c" and st': "st' = st\<lparr>nodes := spawn c (left_behind ?t)\<rparr>"
    by (auto simp: ev_Refused_def go_simps Let_def)
  have w: "caller ?t" using c by (cases ?t) (simp_all add: caller_def)
  then have "fail_thread (nodes st) j ?t = Inr (nodes st')"
    using fail_waiting [of "[]" ?t "nodes st" j] c by (simp add: caller_def st')
  with j have "cstep (nodes st) (Fail j) = Inr (nodes st')" by (simp add: go_simps)
  then have "simulated (nodes st) (nodes st')" by (rule simulatedI) simp
  moreover have "keeps_thread st st' f" if f: "f \<in> set (flights st)" "live f" for f
  proof -
    have ok: "flight_ok cd st f" using inv f(1) by (simp add: net_inv_def)
    then have k: "fl_thread f < length (threads (nodes st))" "caller (thread_of st f) \<longleftrightarrow> fl_open f"
      using f(2) by (simp_all add: flight_ok_def)
    then have "fl_thread f \<noteq> j" using free f(1) w by (auto simp: list_all_iff thread_of_def)
    with resume_leaves [OF c k(1)] show ?thesis
      by (simp add: keeps_thread_def thread_of_def leaves_def st' threads_prims nth_append)
  qed
  then have "net_inv cd st'" using inv by (intro net_inv_nodes [OF inv]) (simp_all add: st' net_inv_def)
  ultimately show ?thesis by simp
qed

lemma forwarded_wired:
  "forwarded rn e d = Some (v, a) \<Longrightarrow> go_get None (connections rn) e = Some v \<and> net_lookup rn v = Some a"
  by (auto simp: forwarded_def readEndnameInfo_def net_lookup_def Let_def split: option.splits if_splits)

lemma Take_step:
  assumes inv: "net_inv cd st" and st: "ev_Take st i d = Inr st'"
  shows "net_inv cd st' \<and> simulated (nodes st) (nodes st')"
proof -
  let ?f = "flights st ! i"
  from st have i: "i < length (flights st)" and t: "fl_taken ?f = None"
    and st': "st' = set_flight st i (?f\<lparr>fl_taken := Some (wires st, d)\<rparr>)"
    by (auto simp: ev_Take_def go_simps)
  have w: "wires_ok cd (wires st) (address st) (fresh st)" using inv by (simp add: net_inv_def)
  have ok: "flight_ok cd st ?f" by (rule net_inv_flight [OF inv i])
  have "v = snd (req_endname (fl_req ?f)) \<and> a < fresh st"
    if "forwarded (wires st) (req_endname (fl_req ?f)) d = Some (v, a)" for v a
    using forwarded_wired [OF that] w unfolding wires_ok_def by blast
  with ok t have ok': "flight_ok cd st (?f\<lparr>fl_taken := Some (wires st, d)\<rparr>)"
    by (auto simp: flight_ok_def destination_def stale_def live_def thread_of_def sent_by_def)
  have "net_inv cd st'"
    by (rule net_inv_set_flight [OF inv i _ _ _ _ _ ok']) (simp_all add: st' set_flight_def w live_def)
  then show ?thesis by (simp add: st' set_flight_def simulated_refl)
qed

lemma HandlerDone_step:
  assumes inv: "net_inv cd st" and st: "ev_HandlerDone st i = Inr st'"
  shows "net_inv cd st' \<and> simulated (nodes st) (nodes st')"
proof -
  let ?f = "flights st ! i"
  from st obtain r where i: "i < length (flights st)" and r: "fl_result ?f = Some r"
    and st': "st' = set_flight st i (?f\<lparr>fl_waits := fl_waits ?f @ [HandlerReturned r]\<rparr>)"
    by (auto simp: ev_HandlerDone_def go_simps split: option.splits)
  have ok': "flight_ok cd st (?f\<lparr>fl_waits := fl_waits ?f @ [HandlerReturned r]\<rparr>)"
    using net_inv_flight [OF inv i] r
    by (auto simp: flight_ok_def live_def)
  have "net_inv cd st'"
    by (rule net_inv_set_flight [OF inv i _ _ _ _ _ ok'])
      (use inv in \<open>simp_all add: st' set_flight_def net_inv_def live_def\<close>)
  then show ?thesis by (simp add: st' set_flight_def simulated_refl)
qed

lemma Elapse_step:
  assumes inv: "net_inv cd st" and st: "ev_Elapse st i = Inr st'"
  shows "net_inv cd st' \<and> simulated (nodes st) (nodes st')"
proof -
  let ?f = "flights st ! i"
  from st have i: "i < length (flights st)"
    and st': "st' = set_flight st i (?f\<lparr>fl_waits := fl_waits ?f @ [Elapsed (wires st)]\<rparr>)"
    by (auto simp: ev_Elapse_def go_simps)
  have ok': "flight_ok cd st (?f\<lparr>fl_waits := fl_waits ?f @ [Elapsed (wires st)]\<rparr>)"
    using net_inv_flight [OF inv i]
    by (auto simp: flight_ok_def live_def)
  have "net_inv cd st'"
    by (rule net_inv_set_flight [OF inv i _ _ _ _ _ ok'])
      (use inv in \<open>simp_all add: st' set_flight_def net_inv_def live_def\<close>)
  then show ?thesis by (simp add: st' set_flight_def simulated_refl)
qed

lemma Dispatch_step:
  assumes inv: "net_inv cd st" and st: "ev_Dispatch cd st i = Inr st'"
  shows "net_inv cd st' \<and> simulated (nodes st) (nodes st')"
proof -
  let ?f = "flights st ! i" and ?j = "fl_thread (flights st ! i)"
  from st obtain rn0 d v a obj obj' rf' r where i: "i < length (flights st)" and none: "fl_result ?f = None"
    and t: "fl_taken ?f = Some (rn0, d)" and fw: "forwarded rn0 (req_endname (fl_req ?f)) d = Some (v, a)"
    and obj: "objects (wires st) a = Some obj"
    and disp: "Server_dispatch obj (fl_req ?f) (Inr (if address st v = a then srv (nodes st) v else old st a)) =
      Inr (obj', Inr rf', r)"
    and st': "st' = (let st1 = (set_flight st i (?f\<lparr>fl_result := Some r\<rparr>))
        \<lparr>wires := (wires st)\<lparr>objects := (objects (wires st))(a \<mapsto> obj')\<rparr>\<rparr>
      in (if address st v = a
        then st1\<lparr>nodes := after_handler cd (nodes st) v ?j rf' (req_args (fl_req ?f)) r\<rparr>
        else st1\<lparr>old := (old st)(a := rf')\<rparr>))"
    by (auto simp: ev_Dispatch_def go_simps Let_def split: option.splits prod.splits)
  have rb: "reads_back cd" and w: "wires_ok cd (wires st) (address st) (fresh st)"
    using inv by (simp_all add: net_inv_def)
  have ok: "flight_ok cd st ?f" by (rule net_inv_flight [OF inv i])
  have live: "live ?f" using none by (simp add: live_def)
  have dest: "destination ?f = Some (v, a)" by (simp add: destination_def t fw)
  then have v: "snd (req_endname (fl_req ?f)) = v" using ok by (simp add: flight_ok_def)
  from ok none v obtain m where m: "request_in (thread_of st ?f) = Some (v, m)"
    "req_svcMeth (fl_req ?f) = svc_meth m" "req_args (fl_req ?f) = gob_enc cd m"
    by (auto simp: flight_ok_def sent_by_def)
  have so: "services obj = services (raft_object cd)" using w obj by (simp add: wires_ok_def)
  from dispatch_raft [OF rb so m(2,3,1) disp] obtain reply where
    h: "handle (if address st v = a then srv (nodes st) v else old st a) m = Inr (rf', reply)"
    and r: "r = \<lparr>rep_ok = True, rep_reply = Some (gob_enc cd reply)\<rparr>" and so': "services obj' = services obj"
    by blast
  have w': "wires_ok cd ((wires st)\<lparr>objects := (objects (wires st))(a \<mapsto> obj')\<rparr>) (address st) (fresh st)"
    using w so so' by (simp add: wires_ok_def net_lookup_def)
  have quiet: "\<not> (HandlerReturned x \<in> set (fl_waits ?f))" for x using ok none by (auto simp: flight_ok_def)
  have jl: "?j < length (threads (nodes st))" and cl: "caller (thread_of st ?f) \<longleftrightarrow> fl_open ?f"
    using ok live by (simp_all add: flight_ok_def)
  have no_answer: "\<not> (fl_open ?f \<and> fl_answer ?f = Some x \<and> rep_ok x)" for x
    using ok request_no_reply [OF m(1)] by (auto simp: flight_ok_def replied_in_def)
  show ?thesis
  proof (cases "address st v = a")
    case False
    then have st2: "st' = (set_flight st i (?f\<lparr>fl_result := Some r\<rparr>))
        \<lparr>wires := (wires st)\<lparr>objects := (objects (wires st))(a \<mapsto> obj')\<rparr>, old := (old st)(a := rf')\<rparr>"
      by (simp add: st')
    have "stale st ?f" using dest False by (auto simp: stale_def)
    with ok live quiet no_answer have ok': "flight_ok cd st (?f\<lparr>fl_result := Some r\<rparr>)"
      by (auto simp: flight_ok_def live_def)
    have "net_inv cd st'"
      by (rule net_inv_set_flight [OF inv i _ _ _ _ _ ok']) (simp_all add: st2 set_flight_def w' live)
    then show ?thesis by (simp add: st2 simulated_def set_flight_def)
  next
    case True
    let ?t = "thread_of st ?f"
    let ?c = "set_thread (note_vote (set_srv (nodes st) v rf') v (Some m) (Some reply)) ?j (handled ?t reply)"
    have "after_handler cd (nodes st) v ?j rf' (req_args (fl_req ?f)) r = ?c"
      by (simp add: after_handler_def r m(3) reads_backD [OF rb] thread_of_def)
    then have st2: "st' = (set_flight st i (?f\<lparr>fl_result := Some r\<rparr>))
        \<lparr>wires := (wires st)\<lparr>objects := (objects (wires st))(a \<mapsto> obj')\<rparr>, nodes := ?c\<rparr>"
      using True by (simp add: st')
    have "run_thread (nodes st) ?j ?t = Inr ?c" using m(1) h True by (simp add: run_request)
    then have step: "cstep (nodes st) (Run ?j) = Inr ?c" using jl by (simp add: thread_of_def go_guard_def)
    have th: "threads ?c = (threads (nodes st))[?j := handled ?t reply]"
      by (simp add: threads_prims)
    have "net_inv cd st'"
    proof (rule net_inv_update [OF inv i])
      show "flights st' = (flights st)[i := ?f\<lparr>fl_result := Some r\<rparr>]" by (simp add: st2 set_flight_def)
      show "wires_ok cd (wires st') (address st') (fresh st')" using w' by (simp add: st2 set_flight_def)
      show "address_moves st st'" by (rule address_moves_same) (simp_all add: st2 set_flight_def)
      show "keeps_thread st st' (flights st ! k)"
        if k: "k < length (flights st)" "k \<noteq> i" "live (flights st ! k)" for k
      proof -
        have "fl_thread (flights st ! k) \<noteq> ?j" using inv k i live by (simp add: net_inv_def one_call_def)
        moreover have "fl_thread (flights st ! k) < length (threads (nodes st))"
          using net_inv_flight [OF inv k(1)] k(3) by (simp add: flight_ok_def)
        ultimately show ?thesis by (simp add: keeps_thread_def thread_of_def st2 th)
      qed
      have t': "thread_of st' (?f\<lparr>fl_result := Some r\<rparr>) = handled ?t reply"
        using jl by (simp add: thread_of_def st2 th)
      have "replied_in cd (Some r) (handled ?t reply) \<and> caller (handled ?t reply)" if "fl_open ?f"
        using handled_caller [OF m(1) h] cl that by (simp add: replied_in_def r)
      then show "flight_ok cd st' (?f\<lparr>fl_result := Some r\<rparr>)"
        using ok quiet no_answer jl unfolding flight_ok_def t'
        by (auto simp: live_def st2 th set_flight_def)
    qed (simp_all add: live)
    with simulatedI [OF step] show ?thesis by (simp add: st2)
  qed
qed

lemma Answer_step:
  assumes inv: "net_inv cd st" and st: "ev_Answer cd st i dropRep = Inr st'"
  shows "net_inv cd st' \<and> simulated (nodes st) (nodes st')"
proof -
  let ?f = "flights st ! i"
  from st obtain rn0 d m where i: "i < length (flights st)" and t: "fl_taken ?f = Some (rn0, d)"
    and p: "processReq rn0 (fl_req ?f) d (fl_waits ?f) (wires st) dropRep = Some m"
    and st': "st' = (set_flight st i (?f\<lparr>fl_answer := Some m\<rparr>))\<lparr>wires := (wires st)\<lparr>net_bytes := net_bytes (wires st) +
                 (case rep_reply m of Some b \<Rightarrow> of_nat (gob_size cd b) | None \<Rightarrow> 0)\<rparr>\<rparr>"
    by (auto simp: ev_Answer_def go_simps Let_def split: option.splits)
  have ok: "flight_ok cd st ?f" by (rule net_inv_flight [OF inv i])
  have w: "wires_ok cd (wires st) (address st) (fresh st)" using inv by (simp add: net_inv_def)
  have "replied_in cd (Some m) (thread_of st ?f)" if o: "fl_open ?f" and m: "rep_ok m"
  proof -
    have "Call True (processReq rn0 (fl_req ?f) d (fl_waits ?f) (wires st) dropRep) = Some (True, rep_reply m)"
      using p m by (simp add: Call_def)
    from positive_reply [OF this] obtain sn a where
      "go_get None (connections rn0) (req_endname (fl_req ?f)) = Some sn" "net_lookup rn0 sn = Some a"
      and ret: "HandlerReturned \<lparr>rep_ok = True, rep_reply = rep_reply m\<rparr> \<in> set (fl_waits ?f)"
      and now: "net_lookup (wires st) sn = Some a" by blast
    moreover from now w have "a = address st sn" by (simp add: wires_ok_def)
    ultimately have "\<not> stale st ?f"
      using forwarded_wired [of rn0 "req_endname (fl_req ?f)" d] by (auto simp: stale_def destination_def t)
    moreover have "fl_result ?f = Some m" using ok ret m by (simp add: flight_ok_def)
    ultimately show ?thesis using ok o by (simp add: flight_ok_def)
  qed
  with ok have ok': "flight_ok cd st (?f\<lparr>fl_answer := Some m\<rparr>)" by (simp add: flight_ok_def live_def)
  have w': "wires_ok cd (wires st') (address st) (fresh st)"
    by (rule wires_ok_same [OF w]) (simp_all add: st' set_flight_def)
  have "net_inv cd st'"
    by (rule net_inv_set_flight [OF inv i _ _ _ _ w' ok']) (simp_all add: st' set_flight_def live_def)
  then show ?thesis by (simp add: st' set_flight_def simulated_refl)
qed

lemma failed_reply: "rep_ok m \<Longrightarrow> replied_in cd (Some m) t \<Longrightarrow> \<exists>msg. m = \<lparr>rep_ok = True, rep_reply = Some (gob_enc cd msg)\<rparr>"
  by (auto simp: replied_in_def)

text \<open>A call that returns: the flight is closed, and its request may stay behind as an orphan.\<close>

lemma closed_flight:
  assumes inv: "net_inv cd st" and i: "i < length (flights st)" and open_i: "fl_open (flights st ! i)"
    and c: "resume (nodes st) (fl_thread (flights st ! i)) (thread_of st (flights st ! i)) m = Inr c"
    and f': "f' = (flights st ! i)\<lparr>fl_open := False, fl_thread := j'\<rparr>"
    and st': "st' = (set_flight st i f')\<lparr>nodes := spawn c ts\<rparr>"
    and left: "fl_result (flights st ! i) = None \<Longrightarrow>
      \<exists>t'. ts = [t'] \<and> j' = length (threads c) \<and> sent_by cd (flights st ! i) t' \<and> \<not> caller t'"
  shows "net_inv cd st'"
proof (rule net_inv_update [OF inv i])
  let ?f = "flights st ! i"
  have live: "live ?f" using open_i by (simp add: live_def)
  show "flights st' = (flights st)[i := f']" by (simp add: st' set_flight_def)
  show "wires_ok cd (wires st') (address st') (fresh st')" using inv by (simp add: st' set_flight_def net_inv_def)
  show "address_moves st st'" by (rule address_moves_same) (simp_all add: st' set_flight_def)
  have jl: "fl_thread ?f < length (threads (nodes st))"
    using net_inv_flight [OF inv i] live by (simp add: flight_ok_def)
  have len: "length (threads (nodes st)) \<le> length (threads c)" by (rule resume_length [OF c])
  have keep: "l < length (threads (nodes st)) \<Longrightarrow> l \<noteq> fl_thread ?f \<Longrightarrow>
      l < length (threads (nodes st')) \<and> threads (nodes st') ! l = threads (nodes st) ! l" for l
    using resume_leaves [OF c, of l] len by (simp add: leaves_def st' threads_prims nth_append)
  show "keeps_thread st st' (flights st ! k)" if k: "k < length (flights st)" "k \<noteq> i" "live (flights st ! k)" for k
  proof -
    have "fl_thread (flights st ! k) \<noteq> fl_thread ?f" using inv k i live by (simp add: net_inv_def one_call_def)
    moreover have "fl_thread (flights st ! k) < length (threads (nodes st))"
      using net_inv_flight [OF inv k(1)] k(3) by (simp add: flight_ok_def)
    ultimately show ?thesis using keep by (simp add: keeps_thread_def thread_of_def)
  qed
  show "flight_ok cd st' f'"
    using net_inv_flight [OF inv i] left
    by (auto simp: flight_ok_def f' live_def st' set_flight_def thread_of_def threads_prims)
  show "live f' \<Longrightarrow> live ?f \<and> fl_thread f' = fl_thread ?f \<or> length (threads (nodes st)) \<le> fl_thread f'"
    using left len by (auto simp: f' live_def)
qed

lemma Return_step:
  assumes inv: "net_inv cd st" and st: "ev_Return cd st i = Inr st'"
  shows "net_inv cd st' \<and> simulated (nodes st) (nodes st')"
proof -
  let ?f = "flights st ! i" and ?j = "fl_thread (flights st ! i)" and ?t = "thread_of st (flights st ! i)"
  from st obtain m where i: "i < length (flights st)" and o: "fl_open ?f" and m: "fl_answer ?f = Some m"
    by (auto simp: ev_Return_def go_simps)
  have ok: "flight_ok cd st ?f" by (rule net_inv_flight [OF inv i])
  have jl: "?j < length (threads (nodes st))" and cl: "caller ?t"
    using ok o by (simp_all add: flight_ok_def live_def)
  show ?thesis
  proof (cases "rep_ok m")
    case True
    with ok o m obtain msg where msg: "reply_in ?t = Some msg" "m = \<lparr>rep_ok = True, rep_reply = Some (gob_enc cd msg)\<rparr>"
      by (auto simp: flight_ok_def replied_in_def)
    have "gob_dec cd (gob_enc cd msg) = Some msg" using inv by (simp add: net_inv_def reads_backD)
    with st msg(2) m obtain c where c: "resume (nodes st) ?j ?t (Some msg) = Inr c"
      and st': "st' = (set_flight st i (?f\<lparr>fl_open := False\<rparr>))\<lparr>nodes := c\<rparr>"
      by (auto simp: ev_Return_def go_simps Let_def Call_def thread_of_def)
    have some: "fl_result ?f \<noteq> None" using ok msg(1) request_no_reply by (fastforce simp: flight_ok_def sent_by_def)
    have "net_inv cd st'"
    proof (rule closed_flight [OF inv i o c])
      show "?f\<lparr>fl_open := False\<rparr> = ?f\<lparr>fl_open := False, fl_thread := ?j\<rparr>" by simp
      show "st' = (set_flight st i (?f\<lparr>fl_open := False\<rparr>))\<lparr>nodes := spawn c []\<rparr>" by (simp add: st' spawn_Nil)
    qed (use some in simp)
    moreover have "cstep (nodes st) (Run ?j) = Inr c"
      using c jl run_reply [OF msg(1)] by (simp add: thread_of_def go_guard_def)
    then have "simulated (nodes st) c" by (rule simulatedI) simp
    ultimately show ?thesis by (simp add: st')
  next
    case False
    then have "Call True (fl_answer ?f) = Some (False, None)" by (simp add: m Call_def)
    with st obtain c where c: "resume (nodes st) ?j ?t None = Inr c"
      and st': "st' = (set_flight st i (?f\<lparr>fl_open := False,
          fl_thread := (if left_behind ?t = [] then ?j else length (threads c))\<rparr>))\<lparr>nodes := spawn c (left_behind ?t)\<rparr>"
      by (auto simp: ev_Return_def go_simps Let_def thread_of_def)
    have "net_inv cd st'"
    proof (rule closed_flight [OF inv i o c refl st'])
      assume "fl_result ?f = None"
      with ok have "sent_by cd ?f ?t" by (simp add: flight_ok_def)
      with left_behind_request [of ?t] cl
      show "\<exists>t'. left_behind ?t = [t'] \<and>
          (if left_behind ?t = [] then ?j else length (threads c)) = length (threads c) \<and> sent_by cd ?f t' \<and> \<not> caller t'"
        by (fastforce simp: sent_by_def)
    qed
    moreover have "fail_thread (nodes st) ?j ?t = Inr (nodes st')"
      using fail_waiting [of "[]" ?t "nodes st" ?j] c cl by (simp add: caller_def st')
    then have "cstep (nodes st) (Fail ?j) = Inr (nodes st')" using jl by (simp add: thread_of_def go_guard_def)
    then have "simulated (nodes st) (nodes st')" by (rule simulatedI) simp
    ultimately show ?thesis by simp
  qed
qed

end
