(* ===== verification/Refinement_Map.thy ===== *)
theory Refinement_Map
  imports Main
begin

text \<open>
  Refinement of one system by another: a map of states under which every step of the detailed system is
  a step of the abstract one, or leaves the abstract state alone.
\<close>

locale refinement_map =
  fixes start :: "'s \<Rightarrow> bool"
    and move :: "'s \<Rightarrow> 's \<Rightarrow> bool"
    and abs_start :: "'a \<Rightarrow> bool"
    and abs_move :: "'a \<Rightarrow> 'a \<Rightarrow> bool"
    and abs_of :: "'s \<Rightarrow> 'a"
    and inv :: "'s \<Rightarrow> bool"
  assumes start_inv: "start s \<Longrightarrow> inv s"
    and start_abs: "start s \<Longrightarrow> abs_start (abs_of s)"
    and move_inv: "inv s \<Longrightarrow> move s s' \<Longrightarrow> inv s'"
    and move_abs: "inv s \<Longrightarrow> move s s' \<Longrightarrow> abs_of s' = abs_of s \<or> abs_move (abs_of s) (abs_of s')"
begin

lemma moves_inv: "move\<^sup>*\<^sup>* s s' \<Longrightarrow> inv s \<Longrightarrow> inv s'"
  by (induction rule: rtranclp_induct) (auto intro: move_inv)

text \<open>Whatever holds at the start of the abstract system and is kept by its steps holds of the detailed one.\<close>

lemma abs_reached:
  assumes "start s" and "move\<^sup>*\<^sup>* s s'"
    and init: "\<And>a. abs_start a \<Longrightarrow> P a" and step: "\<And>a a'. P a \<Longrightarrow> abs_move a a' \<Longrightarrow> P a'"
  shows "P (abs_of s')"
  using assms(2)
proof (induction rule: rtranclp_induct)
  case base
  then show ?case by (rule init [OF start_abs [OF assms(1)]])
next
  case (step s1 s2)
  from moves_inv [OF step.hyps(1) start_inv [OF assms(1)]] step.hyps(2)
  have "abs_of s2 = abs_of s1 \<or> abs_move (abs_of s1) (abs_of s2)" by (rule move_abs)
  with step.IH assms(4) show ?case by auto
qed

end

end
