(* ===== verification/Net_Refines.thy ===== *)
theory Net_Refines
  imports Net_Invariant Refinement_Map
begin

text \<open>
  The cluster on the simulated network is a cluster as \<open>Raft_Cluster\<close> describes it: what \<open>labrpc\<close> does with
  a request is one of the things the network of the cluster may do. The reply a caller gets is the one
  the server installed at that moment computed for this request, and for no other.
\<close>

section \<open>Starting servers\<close>

lemma make_ends_wires:
  "make_ends rn a vs = Inr rn' \<Longrightarrow> wires_ok cd rn addr fr \<Longrightarrow> wires_ok cd rn' addr fr"
proof (induction vs arbitrary: rn)
  case Nil
  then show ?case by simp
next
  case (Cons v vs)
  then obtain rn1 e where m: "MakeEnd rn (a, v) = Inr (rn1, e)"
    and r: "make_ends (net_Connect rn1 (a, v) v) a vs = Inr rn'" by (auto elim!: go_bindE)
  have "wires_ok cd (net_Connect rn1 (a, v) v) addr fr"
    using m Cons.prems(2)
    by (auto simp: MakeEnd_def net_Connect_def wires_ok_def net_lookup_def split: option.splits if_splits)
  with r show ?case by (rule Cons.IH)
qed

lemma start_server_wires:
  assumes "start_server cd n rn s a = Inr rn'" and "wires_ok cd rn addr fr" and "a < fr'" and "fr \<le> fr'"
  shows "wires_ok cd rn' (addr(s := a)) fr'"
proof -
  from assms(1) obtain rn1 where "make_ends rn a [0..<n] = Inr rn1"
    and rn': "rn' = AddServer (rn1\<lparr>objects := (objects rn1)(a \<mapsto> raft_object cd)\<rparr>) s a"
    by (auto simp: start_server_def go_simps)
  from make_ends_wires [OF this(1) assms(2)] have "wires_ok cd rn1 addr fr" .
  with assms(3,4) show ?thesis
    by (fastforce simp: wires_ok_def rn' AddServer_def net_lookup_def split: if_splits)
qed

lemma start_servers_wires:
  "start_servers cd n rn ss = Inr rn' \<Longrightarrow> wires_ok cd rn (\<lambda>s. s) n \<Longrightarrow> set ss \<subseteq> {..<n} \<Longrightarrow> wires_ok cd rn' (\<lambda>s. s) n"
proof (induction ss arbitrary: rn)
  case Nil
  then show ?case by simp
next
  case (Cons s ss)
  then obtain rn1 where s: "start_server cd n rn s s = Inr rn1" and r: "start_servers cd n rn1 ss = Inr rn'"
    by (auto elim!: go_bindE)
  have "wires_ok cd rn1 ((\<lambda>s. s)(s := s)) n"
    using start_server_wires [OF s Cons.prems(2), of n] Cons.prems(3) by simp
  then have "wires_ok cd rn1 (\<lambda>s. s) n" by (simp add: fun_upd_idem)
  with r Cons.prems(3) show ?case by (intro Cons.IH) auto
qed

lemma initial_inv:
  assumes "reads_back cd" and "initial_net cd n = Inr st"
  shows "net_inv cd st \<and> nodes st = initial_cluster n"
proof -
  from assms(2) obtain rn where rn: "start_servers cd n MakeNetwork [0..<n] = Inr rn"
    and st: "st = \<lparr>nodes = initial_cluster n, wires = rn, address = (\<lambda>s. s), fresh = n,
       old = (\<lambda>a. Make 0 0 MakePersister), flights = []\<rparr>"
    by (auto simp: initial_net_def go_simps)
  have "wires_ok cd MakeNetwork (\<lambda>s. s) n" by (simp add: wires_ok_def MakeNetwork_def net_lookup_def)
  with rn have "wires_ok cd rn (\<lambda>s. s) n" by (rule start_servers_wires) auto
  with assms(1) show ?thesis by (simp add: st net_inv_def one_call_def)
qed

lemma Restart_step:
  assumes inv: "net_inv cd st" and st: "ev_Restart cd st s = Inr st'"
  shows "net_inv cd st' \<and> simulated (nodes st) (nodes st')"
proof -
  let ?cs = "cands (nodes st)"
  let ?shut = "\<lambda>f. if waiting_at ?cs (threads (nodes st) ! fl_thread f) = Some s then f\<lparr>fl_open := False\<rparr> else f"
  from st obtain c rn where c: "ev_Crash (nodes st) s = Inr c"
    and rn: "start_server cd (cluster.servers c) (DeleteServer (wires st) s) s (fresh st) = Inr rn"
    and st': "st' = st\<lparr>nodes := c, wires := rn, address := (address st)(s := fresh st), fresh := fresh st + 1,
         old := (old st)(address st s := (srv (nodes st) s)\<lparr>dead := True\<rparr>), flights := map ?shut (flights st)\<rparr>"
    by (auto simp: ev_Restart_def go_simps)
  have th: "threads c = map (orphan ?cs s) (threads (nodes st))"
    using c by (auto simp: ev_Crash_def go_simps)
  have "wires_ok cd (DeleteServer (wires st) s) (address st) (fresh st)"
    using inv by (auto simp: net_inv_def wires_ok_def DeleteServer_def net_lookup_def)
  from start_server_wires [OF rn this] have w: "wires_ok cd (wires st') (address st') (fresh st')" by (simp add: st')
  have a: "address_moves st st'" by (simp add: address_moves_def st')
  have "flight_ok cd st' (?shut f)" if f: "f \<in> set (flights st)" for f
  proof -
    have ok: "flight_ok cd st f" using inv f by (simp add: net_inv_def)
    have "request_in (thread_of st f) \<noteq> None \<or> reply_in (thread_of st f) \<noteq> None" if "live f"
      using live_network [OF ok that] .
    then have t': "live f \<Longrightarrow> fl_thread f < length (threads (nodes st')) \<and>
        thread_of st' f = orphan ?cs s (thread_of st f)"
      using ok by (simp add: flight_ok_def thread_of_def st' th)
    show ?thesis
    proof (cases "waiting_at ?cs (thread_of st f) = Some s")
      case False
      then have "live f \<Longrightarrow> keeps_thread st st' f"
        using t' orphan_other [OF False] live_network [OF ok] by (simp add: keeps_thread_def)
      from flight_ok_frame [OF ok a this] False show ?thesis by (simp add: thread_of_def)
    next
      case True
      have "sent_by cd f (orphan ?cs s (thread_of st f)) \<and> \<not> caller (orphan ?cs s (thread_of st f))"
        if "fl_result f = None"
        using ok that orphan_own [OF True] by (auto simp: flight_ok_def sent_by_def)
      then have "flight_ok cd st' (f\<lparr>fl_open := False\<rparr>)"
        using ok t' by (auto simp: flight_ok_def live_def st')
      with True show ?thesis by (simp add: thread_of_def)
    qed
  qed
  then have "\<forall>f \<in> set (map ?shut (flights st)). flight_ok cd st' f" unfolding set_map by blast
  moreover have "one_call (map ?shut (flights st))"
  proof -
    have "live (?shut f) \<Longrightarrow> live f" "fl_thread (?shut f) = fl_thread f" for f by (auto simp: live_def split: if_splits)
    with inv show ?thesis by (intro one_call_map) (simp_all add: net_inv_def)
  qed
  moreover have "flights st' = map ?shut (flights st)" by (simp add: st')
  ultimately have "net_inv cd st'" using inv w unfolding net_inv_def by (simp only:)
  moreover have "cstep (nodes st) (Crash s) = Inr c" using c by simp
  then have "simulated (nodes st) c" by (rule simulatedI) simp
  ultimately show ?thesis by (simp add: st')
qed

section \<open>Refinement\<close>

lemma nstep_simulated:
  assumes inv: "net_inv cd st" and st: "nstep cd st e = Inr st'"
  shows "net_inv cd st' \<and> (simulated (nodes st) (nodes st') \<or>
    (\<exists>e'. e = Local e' \<and> cstep (nodes st) e' = Inr (nodes st')))"
proof -
  have wires: "net_inv cd (st\<lparr>wires := rn\<rparr>)" if "wires_ok cd rn (address st) (fresh st)" for rn
    using inv that by (intro net_inv_nodes [OF inv])
      (auto simp: net_inv_def intro!: keeps_thread_same [of cd])
  have same: "wires_ok cd rn (address st) (fresh st)"
    if "Network.servers rn = Network.servers (wires st)" "connections rn = connections (wires st)"
      "objects rn = objects (wires st)" for rn
    using inv that wires_ok_same unfolding net_inv_def by blast
  show ?thesis
  proof (cases e)
    case (Local e')
    with Local_step [OF inv] st show ?thesis by simp
  next
    case (Uninstall s)
    have "wires_ok cd (DeleteServer (wires st) s) (address st) (fresh st)"
      using inv by (auto simp: net_inv_def wires_ok_def DeleteServer_def net_lookup_def)
    with Uninstall st wires show ?thesis by (auto simp: simulated_refl)
  qed (use st CallRpc_step [OF inv] Refused_step [OF inv] Take_step [OF inv] Dispatch_step [OF inv]
      HandlerDone_step [OF inv] Elapse_step [OF inv] Answer_step [OF inv] Return_step [OF inv]
      Restart_step [OF inv] in
      \<open>auto simp: simulated_refl Cleanup_def net_Enable_def Reliable_def LongReordering_def LongDelays_def
        intro!: wires same split: if_splits\<close>)
qed

interpretation labrpc: refinement_map "\<lambda>st. reads_back cd \<and> initial_net cd n = Inr st"
  "\<lambda>st st'. \<exists>e. nstep cd st e = Inr st'" "\<lambda>c. c = initial_cluster n" "\<lambda>c c'. \<exists>e. cstep c e = Inr c'"
  nodes "net_inv cd" for cd :: "('c, 'b) gob_codec" and n :: nat
  by unfold_locales (use initial_inv nstep_simulated in \<open>fastforce simp: simulated_def\<close>)+

lemma net_reachable_moves:
  "net_reachable cd n st \<Longrightarrow> \<exists>st0. initial_net cd n = Inr st0 \<and> (\<lambda>st st'. \<exists>e. nstep cd st e = Inr st')\<^sup>*\<^sup>* st0 st"
proof (induction rule: net_reachable.induct)
  case (net_init st)
  then show ?case by blast
next
  case (net_step st e st')
  then obtain st0 where "initial_net cd n = Inr st0" and "(\<lambda>st st'. \<exists>e. nstep cd st e = Inr st')\<^sup>*\<^sup>* st0 st"
    by blast
  moreover from this(2) have "(\<lambda>st st'. \<exists>e. nstep cd st e = Inr st')\<^sup>*\<^sup>* st0 st'"
    by (rule rtranclp.rtrancl_into_rtrancl) (use net_step.hyps(2) in blast)
  ultimately show ?case by blast
qed

section \<open>A run over the network\<close>

fun net_run :: "('c, 'b) gob_codec \<Rightarrow> ('c, 'b) raft_net \<Rightarrow> 'c net_event list \<Rightarrow> ('c, 'b) raft_net go" where
  "net_run cd st [] = Inr st"
| "net_run cd st (e # es) = go_bind (nstep cd st e) (\<lambda>st1. net_run cd st1 es)"

lemma net_run_reachable: "net_reachable cd n st \<Longrightarrow> net_run cd st es = Inr st' \<Longrightarrow> net_reachable cd n st'"
proof (induction es arbitrary: st)
  case Nil
  then show ?case by simp
next
  case (Cons e es)
  then show ?case by (auto simp: go_simps intro: net_step)
qed

text \<open>An encoder for the runs: the message itself.\<close>

definition plain_codec :: "('c, 'c message) gob_codec" where
  "plain_codec = \<lparr>gob_enc = (\<lambda>m. m), gob_dec = Some, gob_size = (\<lambda>_. 1)\<rparr>"

lemma plain_reads_back: "reads_back plain_codec"
  by (simp add: reads_back_def plain_codec_def)

text \<open>A call of thread \<open>j\<close> that is the \<open>i\<close>-th of the run, from end to end.\<close>

definition whole_call :: "nat \<Rightarrow> nat \<Rightarrow> 'c net_event list" where
  "whole_call i j = [CallRpc j, Take i False, Dispatch i, HandlerDone i, Answer i False, Return i]"

definition net_elect :: "'c net_event list" where
  "net_elect = [Switch (0, 1) True, Switch (1, 0) True, Local (Tick 0), Local (Campaign 0)] @ whole_call 0 0 @
     [Local (Decide 0), Local (TakeResult 0), Local (Run 2)]"

lemma last_dot_raft [simp]:
  "last_dot ''Raft.HandleRequestVote'' = 4" "last_dot ''Raft.HandleAppendEntries'' = 4"
  using last_dot_at [of "''HandleRequestVote''" "''Raft''"] last_dot_at [of "''HandleAppendEntries''" "''Raft''"]
  by simp_all

lemmas net_defs =
  initial_net_def start_server_def MakeEnd_def net_Connect_def AddServer_def MakeNetwork_def net_Enable_def
  ev_CallRpc_def ev_Take_def ev_Dispatch_def ev_HandlerDone_def ev_Answer_def ev_Return_def
  set_flight_def net_accept_def forwarded_def readEndnameInfo_def Server_dispatch_def Service_dispatch_def
  raft_object_def AddService_def MakeServer_def MakeService_def suitable_def vote_method_def append_method_def
  after_handler_def processReq_def isServerDead_def Call_def plain_codec_def whole_call_def

lemma net_elect_run:
  "case go_bind (initial_net plain_codec 3) (\<lambda>st. net_run plain_codec st net_elect) of
     Inr st \<Rightarrow> State (srv (nodes st) 0) = Leader \<and> VotedFor (srv (nodes st) 1) = 0
   | Inl _ \<Rightarrow> False"
  by (simp add: net_elect_def net_defs run_simps cong: step_congs)

section \<open>The cluster behind the network\<close>

text \<open>C7: The simulated network and its dispatcher implement the network of the cluster: every state that
  clients, elections, replication and crashes reach over \<open>labrpc\<close>, with end points switched on and off,
  dropped requests and replies, servers deleted and replaced while they work, is reachable in the cluster
  by delivering or losing whole messages. A call about to return true hands its caller the reply that the
  handler of the server computed for this very request.\<close>

theorem labrpc_refines_cluster:
  assumes "reads_back cd" and "net_reachable cd n st"
  shows "reachable n (nodes st) \<and> list_all (\<lambda>f. case fl_answer f of
    Some m \<Rightarrow> fl_open f \<longrightarrow> rep_ok m \<longrightarrow> (\<exists>msg. reply_in (threads (nodes st) ! fl_thread f) = Some msg \<and>
      rep_reply m = Some (gob_enc cd msg)) | None \<Rightarrow> True) (flights st)"
proof -
  obtain st0 where st0: "initial_net cd n = Inr st0" "(\<lambda>st st'. \<exists>e. nstep cd st e = Inr st')\<^sup>*\<^sup>* st0 st"
    using net_reachable_moves [OF assms(2)] by blast
  with assms(1) have start: "reads_back cd \<and> initial_net cd n = Inr st0" by simp
  have "reachable n (nodes st)"
    by (rule labrpc.abs_reached [OF start st0(2)]) (auto intro: reach_init reach_step)
  moreover have "flight_ok cd st f" if "f \<in> set (flights st)" for f
    using labrpc.moves_inv [OF st0(2) labrpc.start_inv [OF start]] that by (simp add: net_inv_def)
  ultimately show ?thesis
    by (fastforce simp: list_all_iff flight_ok_def replied_in_def thread_of_def split: option.split)
qed

theorem labrpc_refines_cluster_witness:
  "\<exists>st :: (nat, nat message) raft_net. State (srv (nodes st) 0) = Leader \<and> reachable 3 (nodes st)"
proof -
  obtain st0 st :: "(nat, nat message) raft_net" where "initial_net plain_codec 3 = Inr st0"
    and "net_run plain_codec st0 net_elect = Inr st" and l: "State (srv (nodes st) 0) = Leader"
    using net_elect_run by (auto elim!: go_bindE split: sum.splits simp: go_bind_Inl_iff)
  then have "net_reachable plain_codec 3 st" using net_run_reachable net_init by blast
  from labrpc_refines_cluster [OF plain_reads_back this] l show ?thesis by blast
qed

section \<open>One candidate over the network\<close>

text \<open>Executions over the network in which only \<open>p\<close> campaigns and no killed server that calls itself a
  leader accepts a call of \<open>Start\<close>, \<open>only_candidate\<close> of the cluster behind the network.\<close>

definition only_candidate_over :: "nat \<Rightarrow> ('c, 'b) raft_net \<Rightarrow> 'c net_event \<Rightarrow> bool" where
  "only_candidate_over p st e \<longleftrightarrow> (case e of Local e' \<Rightarrow> only_candidate p (nodes st) e' | _ \<Rightarrow> True)"

inductive stable_net :: "('c, 'b) gob_codec \<Rightarrow> nat \<Rightarrow> nat \<Rightarrow> ('c, 'b) raft_net \<Rightarrow> bool"
  for cd :: "('c, 'b) gob_codec" and n p :: nat where
  stable_net_init: "initial_net cd n = Inr st \<Longrightarrow> stable_net cd n p st"
| stable_net_step: "stable_net cd n p st \<Longrightarrow> only_candidate_over p st e \<Longrightarrow> nstep cd st e = Inr st' \<Longrightarrow>
    stable_net cd n p st'"

lemma message_only_candidate: "message_or_crash e \<Longrightarrow> only_candidate p c e"
  by (cases e) (simp_all add: only_candidate_def)

interpretation stable_labrpc: refinement_map "\<lambda>st. reads_back cd \<and> initial_net cd n = Inr st"
  "\<lambda>st st'. \<exists>e. only_candidate_over p st e \<and> nstep cd st e = Inr st'" "\<lambda>c. c = initial_cluster n"
  "\<lambda>c c'. \<exists>e. only_candidate p c e \<and> cstep c e = Inr c'" nodes "net_inv cd"
  for cd :: "('c, 'b) gob_codec" and n p :: nat
  by unfold_locales (use initial_inv nstep_simulated message_only_candidate in
    \<open>fastforce simp: simulated_def only_candidate_over_def\<close>)+

lemma stable_net_cluster:
  assumes "reads_back cd" and "stable_net cd n p st"
  shows "stable_cluster n p (nodes st)"
proof -
  have "\<exists>st0. initial_net cd n = Inr st0 \<and>
      (\<lambda>st st'. \<exists>e. only_candidate_over p st e \<and> nstep cd st e = Inr st')\<^sup>*\<^sup>* st0 st"
    using assms(2)
  proof (induction rule: stable_net.induct)
    case (stable_net_init st)
    then show ?case by blast
  next
    case (stable_net_step st e st')
    then obtain st0 where "initial_net cd n = Inr st0"
      and r: "(\<lambda>st st'. \<exists>e. only_candidate_over p st e \<and> nstep cd st e = Inr st')\<^sup>*\<^sup>* st0 st" by blast
    moreover from r have "(\<lambda>st st'. \<exists>e. only_candidate_over p st e \<and> nstep cd st e = Inr st')\<^sup>*\<^sup>* st0 st'"
      by (rule rtranclp.rtrancl_into_rtrancl) (use stable_net_step.hyps(2,3) in blast)
    ultimately show ?case by blast
  qed
  then obtain st0 where i: "initial_net cd n = Inr st0"
    and r: "(\<lambda>st st'. \<exists>e. only_candidate_over p st e \<and> nstep cd st e = Inr st')\<^sup>*\<^sup>* st0 st" by blast
  show ?thesis
    by (rule stable_labrpc.abs_reached [of cd n st0, OF _ r])
      (use assms(1) i in \<open>auto intro: stable_init stable_step\<close>)
qed

fun stable_net_run ::
  "nat \<Rightarrow> ('c, 'b) gob_codec \<Rightarrow> ('c, 'b) raft_net \<Rightarrow> 'c net_event list \<Rightarrow> ('c, 'b) raft_net go" where
  "stable_net_run p cd st [] = Inr st"
| "stable_net_run p cd st (e # es) =
     (if only_candidate_over p st e then go_bind (nstep cd st e) (\<lambda>st1. stable_net_run p cd st1 es)
      else Inl Disabled)"

lemma stable_net_run_stable:
  "stable_net cd n p st \<Longrightarrow> stable_net_run p cd st es = Inr st' \<Longrightarrow> stable_net cd n p st'"
proof (induction es arbitrary: st)
  case Nil
  then show ?case by simp
next
  case (Cons e es)
  then show ?case by (auto simp: go_simps split: if_splits intro: stable_net_step)
qed

text \<open>Server 0 is elected over the network and commits \<open>x\<close> with the help of server 1.\<close>

definition net_commit :: "'c \<Rightarrow> 'c net_event list" where
  "net_commit x = net_elect @ map Local [Run 2, Run 3, Run 4, DrainHB 1] @ whole_call 1 4 @
     map Local [ClientStart 0 (Some x), StartAppend 0, Run 7, Run 7, Run 7, Run 7, DrainHB 1] @
     whole_call 2 7"

lemma net_commit_run:
  "case go_bind (initial_net plain_codec 3) (\<lambda>st. stable_net_run 0 plain_codec st (net_commit x)) of
     Inr st \<Rightarrow> applied (srv (nodes st) 0) = [Some x] \<and> commands (srv (nodes st) 1) = [Some x]
   | Inl _ \<Rightarrow> False"
  by (simp add: net_commit_def net_elect_def net_defs only_candidate_over_def only_candidate_def applied_def
      commands_def run_simps cong: step_congs)

text \<open>C8: Agreement over the simulated network: while only \<open>p\<close> starts elections and \<open>Start\<close> is not called at
  another server that has been killed and calls itself a leader, whatever \<open>labrpc\<close> drops, delays or answers
  for a dead server, and however servers are cut off, deleted and started again, every server's log and
  the commands it has applied are prefixes of the log of \<open>p\<close>, any two servers have applied the same
  commands as far as both have come, and no server but \<open>p\<close> leads unless it has been killed.\<close>

theorem labrpc_agreement:
  assumes "reads_back cd" and "stable_net cd n p st"
  shows "prefix (commands (srv (nodes st) s)) (commands (srv (nodes st) p)) \<and>
    prefix (applied (srv (nodes st) s)) (commands (srv (nodes st) p)) \<and>
    (prefix (applied (srv (nodes st) s)) (applied (srv (nodes st) s')) \<or>
      prefix (applied (srv (nodes st) s')) (applied (srv (nodes st) s))) \<and>
    (State (srv (nodes st) s) = Leader \<longrightarrow> s = p \<or> dead (srv (nodes st) s))"
  using stable_agreement [OF stable_net_cluster [OF assms], of s s'] by blast

theorem labrpc_agreement_witness:
  "\<exists>st :: (nat, nat message) raft_net. commands (srv (nodes st) 1) = [Some 10] \<and>
     prefix (commands (srv (nodes st) 1)) (commands (srv (nodes st) 0))"
proof -
  obtain st0 st :: "(nat, nat message) raft_net" where "initial_net plain_codec 3 = Inr st0"
    and "stable_net_run 0 plain_codec st0 (net_commit 10) = Inr st" and l: "commands (srv (nodes st) 1) = [Some 10]"
    using net_commit_run [of "10 :: nat"] by (auto elim!: go_bindE split: sum.splits simp: go_bind_Inl_iff)
  then have "stable_net plain_codec 3 0 st" using stable_net_run_stable stable_net_init by blast
  from labrpc_agreement [OF plain_reads_back this, of 1] l show ?thesis by blast
qed

end
