(* ===== verification/Labgob.thy ===== *)
theory Labgob
  imports Go_Prelude
begin

text \<open>
  \<open>labgob/labgob.go\<close>: the checks around the encoder of the standard library. Types can be recursive, so
  they are numbers that refer to a table of kinds; \<open>checkType\<close> walks that graph and visits every type
  once. The encoder itself is the library's.
\<close>

section \<open>Types and the state of the package\<close>

text \<open>\<open>Elem\<close> is a slice, an array or a pointer; \<open>Plain\<close> is every kind the switch does not name.\<close>

datatype kind = Struct "(string \<times> nat) list" | Elem nat | MapOf nat nat | Plain

record labgob =
  ErrorCount :: int
  checked :: "nat set"
  printed :: "string list"

definition fresh_labgob :: labgob where
  "fresh_labgob = \<lparr>ErrorCount = 0, checked = {}, printed = []\<rparr>"

text \<open>\<open>unicode.IsUpper\<close> of the first rune, for names that start with an ASCII character.\<close>

fun startsUpper :: "string \<Rightarrow> bool" where
  "startsUpper [] = False"
| "startsUpper (ch # _) = (of_char ch \<ge> (65 :: nat) \<and> of_char ch \<le> (90 :: nat))"

text \<open>\<open>checkType\<close> with fuel: a call per type on the way. The loop over the fields is \<open>checkFields\<close>.\<close>

fun checkType :: "nat \<Rightarrow> kind list \<Rightarrow> nat \<Rightarrow> labgob \<Rightarrow> labgob option"
  and checkFields :: "nat \<Rightarrow> kind list \<Rightarrow> (string \<times> nat) list \<Rightarrow> labgob \<Rightarrow> labgob option" where
  "checkType 0 tys t s = None"
| "checkType (Suc fuel) tys t s =
     (if t \<in> checked s then Some s
      else (let s1 = s\<lparr>checked := insert t (checked s)\<rparr> in
        case tys ! t of
          Struct fs \<Rightarrow> checkFields fuel tys fs s1
        | Elem e \<Rightarrow> checkType fuel tys e s1
        | MapOf e k \<Rightarrow> Option.bind (checkType fuel tys e s1) (\<lambda>s2. checkType fuel tys k s2)
        | Plain \<Rightarrow> Some s1))"
| "checkFields fuel tys [] s = Some s"
| "checkFields fuel tys ((name, ft) # fs) s =
     (let s1 = (if startsUpper name then s
                else s\<lparr>ErrorCount := ErrorCount s + 1, printed := printed s @ [name]\<rparr>)
      in Option.bind (checkType fuel tys ft s1) (\<lambda>s2. checkFields fuel tys fs s2))"

section \<open>Values\<close>

text \<open>A value by reflection: the fields of a structure have their names and whether they are embedded;
  \<open>VBasic\<close> is a value of a basic type with its name and whether it is the zero value; \<open>VOther\<close> is of a kind
  that is not looked at.\<close>

datatype gval =
  VStruct "(string \<times> bool \<times> gval) list" | VPtr "gval option" | VBasic string bool | VOther

text \<open>
  The flags of a \<open>reflect.Value\<close> that was reached through fields not exported: \<open>Field\<close> sets the sticky flag
  for a field that is not embedded and the other one for an embedded field, keeps the sticky flag and
  clears the other; \<open>Elem\<close> keeps both; \<open>Interface\<close> panics on a value that has one of them.
\<close>

record ro_flags =
  flagStickyRO :: bool
  flagEmbedRO :: bool

definition exported_value :: ro_flags where
  "exported_value = \<lparr>flagStickyRO = False, flagEmbedRO = False\<rparr>"

definition field_flags :: "ro_flags \<Rightarrow> string \<Rightarrow> bool \<Rightarrow> ro_flags" where
  "field_flags ro field embedded =
     \<lparr>flagStickyRO = (flagStickyRO ro \<or> \<not> startsUpper field \<and> \<not> embedded),
      flagEmbedRO = (\<not> startsUpper field \<and> embedded)\<rparr>"

definition dotted :: "string \<Rightarrow> string \<Rightarrow> string" where
  "dotted name field = (if name \<noteq> [] then name @ ''.'' @ field else field)"

definition warnDefault :: "string \<Rightarrow> string \<Rightarrow> labgob \<Rightarrow> labgob" where
  "warnDefault name tname s =
     (let s1 = (if ErrorCount s < 1
                then s\<lparr>printed := printed s @ [if name = [] then tname else name]\<rparr> else s)
      in s1\<lparr>ErrorCount := ErrorCount s1 + 1\<rparr>)"

function checkDefault1 :: "gval \<Rightarrow> ro_flags \<Rightarrow> nat \<Rightarrow> string \<Rightarrow> labgob \<Rightarrow> labgob go" where
  "checkDefault1 value ro depth name s =
     (if depth > 3 then Inr s
      else (case value of
          VStruct fs \<Rightarrow>
            fold (\<lambda>(field, embedded, vv) r. go_bind r (\<lambda>s.
              checkDefault1 vv (field_flags ro field embedded) (depth + 1) (dotted name field) s)) fs (Inr s)
        | VPtr None \<Rightarrow> Inr s
        | VPtr (Some v) \<Rightarrow> checkDefault1 v ro (depth + 1) name s
        | VBasic tname zero \<Rightarrow>
            if flagStickyRO ro \<or> flagEmbedRO ro then Inl Panic
            else if zero then Inr s else Inr (warnDefault name tname s)
        | VOther \<Rightarrow> Inr s))"
  by pat_completeness auto
termination
  by (relation "measure (\<lambda>(v, ro, d, n, s). 4 - d)") auto

declare checkDefault1.simps [simp del]

text \<open>A nil interface is \<open>None\<close>.\<close>

definition checkDefault :: "gval option \<Rightarrow> labgob \<Rightarrow> labgob go" where
  "checkDefault value s =
     (case value of None \<Rightarrow> Inr s | Some v \<Rightarrow> checkDefault1 v exported_value 1 [] s)"

text \<open>The checks of \<open>Decode\<close>, before the library decodes; \<open>Encode\<close> and \<open>Register\<close> only check the type.\<close>

definition Decode_checks :: "kind list \<Rightarrow> nat \<Rightarrow> gval option \<Rightarrow> labgob \<Rightarrow> labgob go option" where
  "Decode_checks tys t value s = map_option (checkDefault value) (checkType (Suc (length tys)) tys t s)"

section \<open>The walk over the types\<close>

fun refs :: "kind \<Rightarrow> nat set" where
  "refs (Struct fs) = snd ` set fs"
| "refs (Elem e) = {e}"
| "refs (MapOf e k) = {e, k}"
| "refs Plain = {}"

definition refers :: "kind list \<Rightarrow> (nat \<times> nat) set" where
  "refers tys = {(t, u). t < length tys \<and> u \<in> refs (tys ! t)}"

definition closed_table :: "kind list \<Rightarrow> bool" where
  "closed_table tys \<longleftrightarrow> (\<forall>k \<in> set tys. \<forall>u \<in> refs k. u < length tys)"

text \<open>The number of fields of a type whose names do not start with a capital letter.\<close>

fun bad_fields :: "kind \<Rightarrow> int" where
  "bad_fields (Struct fs) = int (length (filter (\<lambda>(name, _). \<not> startsUpper name) fs))"
| "bad_fields _ = 0"

text \<open>
  What a walk from the types \<open>ts\<close> does: it only adds types that are reachable from \<open>ts\<close>, with everything
  they refer to, and counts the bad fields of each type it adds, and \<open>extra\<close>.
\<close>

definition walked :: "kind list \<Rightarrow> nat set \<Rightarrow> int \<Rightarrow> labgob \<Rightarrow> labgob \<Rightarrow> bool" where
  "walked tys ts extra s s' \<longleftrightarrow>
     checked s \<subseteq> checked s' \<and> ts \<subseteq> checked s' \<and>
     checked s' - checked s \<subseteq> (refers tys)\<^sup>* `` ts \<and> checked s' - checked s \<subseteq> {..<length tys} \<and>
     (\<forall>u \<in> checked s' - checked s. refs (tys ! u) \<subseteq> checked s') \<and>
     ErrorCount s' = ErrorCount s + extra + (\<Sum>u \<in> checked s' - checked s. bad_fields (tys ! u))"

lemma walked_refl: "ts \<subseteq> checked s \<Longrightarrow> walked tys ts 0 s s"
  by (simp add: walked_def)

lemma walked_trans:
  assumes "walked tys ts a s s1" and "walked tys us b s1 s2"
  shows "walked tys (ts \<union> us) (a + b) s s2"
proof -
  have d: "checked s2 - checked s = (checked s1 - checked s) \<union> (checked s2 - checked s1)"
    using assms by (auto simp: walked_def)
  have fin: "finite (checked s1 - checked s)" "finite (checked s2 - checked s1)"
    using assms by (auto simp: walked_def intro: finite_subset)
  have "(\<Sum>u \<in> checked s2 - checked s. bad_fields (tys ! u)) =
      (\<Sum>u \<in> checked s1 - checked s. bad_fields (tys ! u)) + (\<Sum>u \<in> checked s2 - checked s1. bad_fields (tys ! u))"
    unfolding d by (rule sum.union_disjoint [OF fin]) auto
  then have "ErrorCount s2 = ErrorCount s + (a + b) + (\<Sum>u \<in> checked s2 - checked s. bad_fields (tys ! u))"
    using assms by (simp add: walked_def)
  moreover have "refs (tys ! u) \<subseteq> checked s2" if "u \<in> checked s2 - checked s" for u
  proof (cases "u \<in> checked s1")
    case True
    with that assms have "refs (tys ! u) \<subseteq> checked s1" "checked s1 \<subseteq> checked s2" by (auto simp: walked_def)
    then show ?thesis by blast
  next
    case False
    with that assms(2) show ?thesis by (simp add: walked_def)
  qed
  moreover have "checked s2 - checked s \<subseteq> (refers tys)\<^sup>* `` (ts \<union> us)"
    unfolding d Image_Un using assms by (intro Un_mono) (simp_all add: walked_def)
  moreover have "checked s2 - checked s \<subseteq> {..<length tys}"
    unfolding d using assms by (intro Un_least) (simp_all add: walked_def)
  moreover have "checked s \<subseteq> checked s2" "ts \<union> us \<subseteq> checked s2"
    using assms by (auto simp: walked_def)
  ultimately show ?thesis by (simp add: walked_def)
qed

text \<open>Visiting a type, and then what it refers to.\<close>

lemma walked_visit:
  assumes "t < length tys" and "t \<notin> checked s"
    and "walked tys (refs (tys ! t)) (bad_fields (tys ! t)) (s\<lparr>checked := insert t (checked s)\<rparr>) s'"
  shows "walked tys {t} 0 s s'"
proof -
  let ?N = "checked s' - insert t (checked s)"
  have d: "checked s' - checked s = insert t ?N" using assms(2,3) by (auto simp: walked_def)
  have sub: "?N \<subseteq> {..<length tys}" using assms(3) by (simp add: walked_def)
  have fin: "finite ?N" by (rule finite_subset [OF sub]) simp
  have "t \<notin> ?N" by simp
  with fin have "(\<Sum>u \<in> checked s' - checked s. bad_fields (tys ! u)) =
      bad_fields (tys ! t) + (\<Sum>u \<in> ?N. bad_fields (tys ! u))"
    unfolding d by (rule sum.insert)
  with assms(3) have e: "ErrorCount s' = ErrorCount s + 0 +
      (\<Sum>u \<in> checked s' - checked s. bad_fields (tys ! u))" by (simp add: walked_def)
  have "(refers tys)\<^sup>* `` refs (tys ! t) \<subseteq> (refers tys)\<^sup>* `` {t}"
    using assms(1) by (auto simp: refers_def intro: converse_rtrancl_into_rtrancl)
  moreover have "?N \<subseteq> (refers tys)\<^sup>* `` refs (tys ! t)" using assms(3) by (simp add: walked_def)
  ultimately have "?N \<subseteq> (refers tys)\<^sup>* `` {t}" by blast
  then have "checked s' - checked s \<subseteq> (refers tys)\<^sup>* `` {t}" unfolding d by blast
  moreover have "checked s' - checked s \<subseteq> {..<length tys}"
    using assms(1,3) unfolding d by (auto simp: walked_def)
  moreover have "\<forall>u \<in> checked s' - checked s. refs (tys ! u) \<subseteq> checked s'"
    using assms(3) unfolding d by (auto simp: walked_def)
  moreover have "checked s \<subseteq> checked s'" "{t} \<subseteq> checked s'" using assms(3) by (auto simp: walked_def)
  ultimately show ?thesis using e unfolding walked_def by blast
qed

text \<open>Fuel goes down by one where a type is added.\<close>

lemma walked_card:
  assumes "walked tys ts a s s'" and "checked s \<subseteq> {..<length tys}"
  shows "checked s' \<subseteq> {..<length tys}" "length tys - card (checked s') \<le> length tys - card (checked s)"
proof -
  show s': "checked s' \<subseteq> {..<length tys}" using assms by (auto simp: walked_def)
  then have "finite (checked s')" by (rule finite_subset) simp
  with assms(1) have "card (checked s) \<le> card (checked s')" by (auto simp: walked_def intro: card_mono)
  then show "length tys - card (checked s') \<le> length tys - card (checked s)" by simp
qed

lemma visit_card:
  assumes "checked s \<subseteq> {..<n}" and "t < n" and "t \<notin> checked s" and "n - card (checked s) < Suc fuel"
  shows "insert t (checked s) \<subseteq> {..<n}" "n - card (insert t (checked s)) < fuel"
proof -
  show i: "insert t (checked s) \<subseteq> {..<n}" using assms by simp
  have fin: "finite (checked s)" using assms(1) by (rule finite_subset) simp
  with card_mono [OF _ i] assms(3) have "Suc (card (checked s)) \<le> n" by simp
  with fin assms(3,4) show "n - card (insert t (checked s)) < fuel" by simp
qed

lemma refs_closed: "closed_table tys \<Longrightarrow> t < length tys \<Longrightarrow> u \<in> refs (tys ! t) \<Longrightarrow> u < length tys"
  by (auto simp: closed_table_def)

lemma walked_bad_field:
  assumes "walked tys ts a (s\<lparr>ErrorCount := ErrorCount s + 1, printed := p\<rparr>) s'"
  shows "walked tys ts (a + 1) s s'"
  using assms by (simp add: walked_def)

lemma checkType_walk:
  shows "closed_table tys \<Longrightarrow> t < length tys \<Longrightarrow> checked s \<subseteq> {..<length tys} \<Longrightarrow>
      length tys - card (checked s) < fuel \<Longrightarrow>
      \<exists>s'. checkType fuel tys t s = Some s' \<and> walked tys {t} 0 s s'"
    and "closed_table tys \<Longrightarrow> snd ` set fs \<subseteq> {..<length tys} \<Longrightarrow> checked s \<subseteq> {..<length tys} \<Longrightarrow>
      length tys - card (checked s) < fuel \<Longrightarrow>
      \<exists>s'. checkFields fuel tys fs s = Some s' \<and>
        walked tys (snd ` set fs) (bad_fields (Struct fs)) s s'"
proof (induction fuel tys t s and fuel tys fs s rule: checkType_checkFields.induct)
  case (2 fuel tys t s)
  show ?case
  proof (cases "t \<in> checked s")
    case True
    then show ?thesis by (auto intro: walked_refl)
  next
    case False
    let ?s = "s\<lparr>checked := insert t (checked s)\<rparr>"
    note v = visit_card [OF "2.prems"(3,2) False "2.prems"(4)]
    have r: "\<And>u. u \<in> refs (tys ! t) \<Longrightarrow> u < length tys" using refs_closed "2.prems"(1,2) by blast
    have "\<exists>s'. checkType (Suc fuel) tys t s = Some s' \<and> walked tys (refs (tys ! t)) (bad_fields (tys ! t)) ?s s'"
    proof (cases "tys ! t")
      case (Struct fs)
      have "\<exists>s'. checkFields fuel tys fs ?s = Some s' \<and>
          walked tys (snd ` set fs) (bad_fields (Struct fs)) ?s s'"
        by (rule "2.IH"(1) [OF False refl Struct]) (use "2.prems" v r Struct in auto)
      with False Struct show ?thesis by (simp add: Let_def)
    next
      case (Elem e)
      have "\<exists>s'. checkType fuel tys e ?s = Some s' \<and> walked tys {e} 0 ?s s'"
        by (rule "2.IH"(2) [OF False refl Elem]) (use "2.prems" v r Elem in auto)
      with False Elem show ?thesis by (simp add: Let_def)
    next
      case (MapOf e k)
      have "\<exists>s'. checkType fuel tys e ?s = Some s' \<and> walked tys {e} 0 ?s s'"
        by (rule "2.IH"(3) [OF False refl MapOf]) (use "2.prems" v r MapOf in auto)
      then obtain s2 where s2: "checkType fuel tys e ?s = Some s2" "walked tys {e} 0 ?s s2" by blast
      note w = walked_card [OF s2(2)]
      have "\<exists>s'. checkType fuel tys k s2 = Some s' \<and> walked tys {k} 0 s2 s'"
        by (rule "2.IH"(4) [OF False refl MapOf]) (use "2.prems" v r MapOf w s2(1) in auto)
      then obtain s3 where s3: "checkType fuel tys k s2 = Some s3" "walked tys {k} 0 s2 s3" by blast
      have "walked tys ({e} \<union> {k}) (0 + 0) ?s s3" by (rule walked_trans [OF s2(2) s3(2)])
      with s2(1) s3(1) False MapOf show ?thesis by (simp add: Let_def insert_commute)
    next
      case Plain
      with False show ?thesis by (simp add: Let_def walked_refl)
    qed
    with walked_visit [OF "2.prems"(2) False] show ?thesis by blast
  qed
next
  case (3 fuel tys s)
  then show ?case by (auto intro: walked_refl)
next
  case (4 fuel tys name ft fs s)
  let ?s = "if startsUpper name then s else s\<lparr>ErrorCount := ErrorCount s + 1, printed := printed s @ [name]\<rparr>"
  have ch: "checked ?s = checked s" by simp
  have "\<exists>s'. checkType fuel tys ft ?s = Some s' \<and> walked tys {ft} 0 ?s s'"
    by (rule "4.IH"(1) [OF refl]) (use "4.prems" in auto)
  then obtain s2 where s2: "checkType fuel tys ft ?s = Some s2" "walked tys {ft} 0 ?s s2" by blast
  note w = walked_card [OF s2(2)]
  have "\<exists>s'. checkFields fuel tys fs s2 = Some s' \<and> walked tys (snd ` set fs) (bad_fields (Struct fs)) s2 s'"
    by (rule "4.IH"(2) [OF refl]) (use "4.prems" w ch s2(1) in auto)
  then obtain s3 where s3: "checkFields fuel tys fs s2 = Some s3"
    "walked tys (snd ` set fs) (bad_fields (Struct fs)) s2 s3" by blast
  have "walked tys ({ft} \<union> snd ` set fs) (0 + bad_fields (Struct fs)) ?s s3"
    by (rule walked_trans [OF s2(2) s3(2)])
  then have "walked tys (snd ` set ((name, ft) # fs)) (bad_fields (Struct ((name, ft) # fs))) s s3"
    by (cases "startsUpper name") (use walked_bad_field in \<open>fastforce simp: ac_simps\<close>)+
  with s2(1) s3(1) show ?case by (simp add: Let_def)
qed simp

section \<open>The walk over a value\<close>

text \<open>The basic values inside a value: at which depth, through which fields, and whether it is the zero value.
  A structure and a pointer are a level each.\<close>

fun leaves :: "gval \<Rightarrow> (string \<times> bool) list \<Rightarrow> nat \<Rightarrow> (nat \<times> (string \<times> bool) list \<times> bool) list" where
  "leaves (VStruct fs) path d = concat (map (\<lambda>(f, e, v). leaves v (path @ [(f, e)]) (d + 1)) fs)"
| "leaves (VPtr None) path d = []"
| "leaves (VPtr (Some v)) path d = leaves v path (d + 1)"
| "leaves (VBasic tname zero) path d = [(d, path, zero)]"
| "leaves VOther path d = []"

text \<open>A path that reflection does not let through: some field on it is not exported and not embedded, or
  the last one is not exported.\<close>

definition hidden :: "(string \<times> bool) list \<Rightarrow> bool" where
  "hidden path \<longleftrightarrow> list_ex (\<lambda>(f, e). \<not> startsUpper f \<and> \<not> e) path \<or> path \<noteq> [] \<and> \<not> startsUpper (fst (last path))"

definition nondefault :: "gval \<Rightarrow> (string \<times> bool) list \<Rightarrow> nat \<Rightarrow> int" where
  "nondefault v path d = int (length (filter (\<lambda>(k, _, zero). k \<le> 3 \<and> \<not> zero) (leaves v path d)))"

definition has_hidden :: "gval \<Rightarrow> (string \<times> bool) list \<Rightarrow> nat \<Rightarrow> bool" where
  "has_hidden v path d \<longleftrightarrow> list_ex (\<lambda>(k, p, _). k \<le> 3 \<and> hidden p) (leaves v path d)"

definition path_flags :: "(string \<times> bool) list \<Rightarrow> ro_flags" where
  "path_flags path = \<lparr>flagStickyRO = list_ex (\<lambda>(f, e). \<not> startsUpper f \<and> \<not> e) path,
     flagEmbedRO = (path \<noteq> [] \<and> \<not> startsUpper (fst (last path)) \<and> snd (last path))\<rparr>"

lemma path_flags_field: "field_flags (path_flags path) f e = path_flags (path @ [(f, e)])"
  by (auto simp: field_flags_def path_flags_def)

lemma path_flags_hidden: "flagStickyRO (path_flags path) \<or> flagEmbedRO (path_flags path) \<longleftrightarrow> hidden path"
  by (cases path rule: rev_cases) (auto simp: path_flags_def hidden_def)

lemma leaves_depth: "x \<in> set (leaves v path d) \<Longrightarrow> d \<le> fst x"
proof (induction v path d rule: leaves.induct)
  case (1 fs path d)
  then show ?case by fastforce
qed auto

lemma walk_deep: "3 < d \<Longrightarrow> nondefault v path d = 0 \<and> \<not> has_hidden v path d"
  using leaves_depth by (fastforce simp: nondefault_def has_hidden_def filter_empty_conv list_ex_iff)

lemma walk_struct:
  "nondefault (VStruct fs) path d = (\<Sum>(f, e, v) \<leftarrow> fs. nondefault v (path @ [(f, e)]) (d + 1))"
  "has_hidden (VStruct fs) path d \<longleftrightarrow> list_ex (\<lambda>(f, e, v). has_hidden v (path @ [(f, e)]) (d + 1)) fs"
proof -
  show "nondefault (VStruct fs) path d = (\<Sum>(f, e, v) \<leftarrow> fs. nondefault v (path @ [(f, e)]) (d + 1))"
    by (induction fs) (auto simp: nondefault_def)
  show "has_hidden (VStruct fs) path d \<longleftrightarrow> list_ex (\<lambda>(f, e, v). has_hidden v (path @ [(f, e)]) (d + 1)) fs"
    by (induction fs) (auto simp: has_hidden_def)
qed

lemma warn_fields:
  "ErrorCount (warnDefault name tname s) = ErrorCount s + 1" "checked (warnDefault name tname s) = checked s"
  by (simp_all add: warnDefault_def Let_def)

text \<open>What the walk returns: it panics exactly when it meets a hidden basic value.\<close>

definition walk_result :: "bool \<Rightarrow> int \<Rightarrow> labgob \<Rightarrow> labgob go \<Rightarrow> bool" where
  "walk_result bad extra s r \<longleftrightarrow>
     (case r of
        Inl e \<Rightarrow> e = Panic \<and> bad
      | Inr s' \<Rightarrow> \<not> bad \<and> ErrorCount s' = ErrorCount s + extra \<and> checked s' = checked s)"

lemma walk_result_bind:
  "walk_result b x s r \<Longrightarrow> (\<And>s'. walk_result b' y s' (f s')) \<Longrightarrow> walk_result (b \<or> b') (x + y) s (go_bind r f)"
  by (cases r) (force simp: walk_result_def split: sum.splits)+

lemma checkDefault1_walk:
  "walk_result (has_hidden v path d) (nondefault v path d) s (checkDefault1 v (path_flags path) d name s)"
proof (induction v "path_flags path" d name s arbitrary: path rule: checkDefault1.induct)
  case (1 v d name s)
  show ?case
  proof (cases "d > 3")
    case True
    then show ?thesis by (simp add: checkDefault1.simps walk_deep walk_result_def)
  next
    case False
    show ?thesis
    proof (cases v)
      case (VStruct fs)
      let ?step = "\<lambda>(f, e, vv) r. go_bind r (\<lambda>s. checkDefault1 vv (field_flags (path_flags path) f e) (d + 1) (dotted name f) s)"
      have "walk_result (b \<or> list_ex (\<lambda>(f, e, v). has_hidden v (path @ [(f, e)]) (d + 1)) gs)
          (x + (\<Sum>(f, e, v) \<leftarrow> gs. nondefault v (path @ [(f, e)]) (d + 1))) s (fold ?step gs r)"
        if "set gs \<subseteq> set fs" and "walk_result b x s r" for gs b x r
        using that
      proof (induction gs arbitrary: b x r)
        case (Cons g gs)
        obtain f e vv where g: "g = (f, e, vv)" by (cases g)
        with Cons.prems(1) have mem: "(f, e, vv) \<in> set fs" by simp
        have "walk_result (has_hidden vv (path @ [(f, e)]) (d + 1)) (nondefault vv (path @ [(f, e)]) (d + 1)) s'
            (checkDefault1 vv (field_flags (path_flags path) f e) (d + 1) (dotted name f) s')" for s'
          using "1.hyps"(1) [OF False VStruct mem refl refl, of "path @ [(f, e)]" s'] by (simp add: path_flags_field)
        from Cons.IH [OF _ walk_result_bind [OF Cons.prems(2) this]] Cons.prems(1) show ?case
          by (simp add: g disj_assoc add.assoc)
      qed simp
      from this [of fs False 0 "Inr s"] False VStruct show ?thesis
        by (simp add: checkDefault1.simps [of "VStruct fs"] walk_struct walk_result_def)
    next
      case (VPtr p)
      show ?thesis
      proof (cases p)
        case None
        with VPtr False show ?thesis
          by (simp add: checkDefault1.simps nondefault_def has_hidden_def walk_result_def)
      next
        case (Some w)
        from "1.hyps"(2) [OF False VPtr Some] False VPtr Some show ?thesis
          by (simp add: checkDefault1.simps [of "VPtr (Some w)"] nondefault_def has_hidden_def)
      qed
    next
      case (VBasic tname zero)
      with False show ?thesis
        by (simp add: checkDefault1.simps path_flags_hidden warn_fields nondefault_def has_hidden_def walk_result_def)
    next
      case VOther
      with False show ?thesis
        by (simp add: checkDefault1.simps nondefault_def has_hidden_def walk_result_def)
    qed
  qed
qed

lemma checkDefault_walk: "walk_result (has_hidden v [] 1) (nondefault v [] 1) s (checkDefault (Some v) s)"
proof -
  have "exported_value = path_flags []" by (simp add: exported_value_def path_flags_def)
  then show ?thesis using checkDefault1_walk [of v "[]" 1 s "[]"] by (simp add: checkDefault_def)
qed

text \<open>A walk that starts with no type checked ends with exactly the reachable ones checked.\<close>

lemma walked_from_empty:
  assumes w: "walked tys ts a s s'" and "checked s = {}"
  shows "checked s' = (refers tys)\<^sup>* `` ts"
proof -
  have "u \<in> checked s'" if "(t, u) \<in> (refers tys)\<^sup>*" "t \<in> ts" for t u
    using that
  proof (induction rule: rtrancl_induct)
    case base
    then show ?case using w by (auto simp: walked_def)
  next
    case (step u v)
    then have "refs (tys ! u) \<subseteq> checked s'" using w assms(2) by (simp add: walked_def)
    with step(2) show ?case by (auto simp: refers_def)
  qed
  then show ?thesis using w assms(2) by (auto simp: walked_def)
qed

section \<open>Properties\<close>

text \<open>C36: The check of a type ends also on recursive types, visits exactly the types it can reach, each once,
  and adds to \<open>ErrorCount\<close> exactly the number of their fields that do not start with a capital letter;
  checking the type again changes nothing.\<close>

theorem checkType_counts_reachable_fields:
  assumes "closed_table tys" and "t < length tys" and "checked s = {}" and "length tys < fuel"
  shows "\<exists>s'. checkType fuel tys t s = Some s' \<and> checked s' = (refers tys)\<^sup>* `` {t} \<and>
    ErrorCount s' = ErrorCount s + (\<Sum>u \<in> (refers tys)\<^sup>* `` {t}. bad_fields (tys ! u)) \<and>
    checkType fuel tys t s' = Some s'"
proof -
  obtain s' where s': "checkType fuel tys t s = Some s'" "walked tys {t} 0 s s'"
    using checkType_walk(1) [of tys t s fuel] assms by auto
  have c: "checked s' = (refers tys)\<^sup>* `` {t}" by (rule walked_from_empty [OF s'(2) assms(3)])
  moreover have "t \<in> checked s'" using c by simp
  then have "checkType fuel tys t s' = Some s'" using assms(4) by (cases fuel) simp_all
  ultimately show ?thesis using s' assms(3) by (simp add: walked_def)
qed

text \<open>A type of lists: a structure with a lower-case field and a pointer to itself.\<close>

definition list_types :: "kind list" where
  "list_types = [Struct [(''Value'', 2), (''next'', 1)], Elem 0, Plain]"

theorem checkType_counts_reachable_fields_witness:
  "\<exists>s'. checkType 4 list_types 0 fresh_labgob = Some s' \<and> ErrorCount s' = 1 \<and> checked s' = {0, 1, 2}"
proof -
  have "closed_table list_types" by (simp add: closed_table_def list_types_def)
  then obtain s' where s': "checkType 4 list_types 0 fresh_labgob = Some s'"
    using checkType_counts_reachable_fields [of list_types 0 fresh_labgob 4]
    by (auto simp: fresh_labgob_def list_types_def)
  moreover have "checkType 4 list_types 0 fresh_labgob =
      Some \<lparr>ErrorCount = 1, checked = {0, 1, 2}, printed = [''next'']\<rparr>"
    by (simp add: list_types_def fresh_labgob_def eval_nat_numeral Let_def insert_commute)
  ultimately have "s' = \<lparr>ErrorCount = 1, checked = {0, 1, 2}, printed = [''next'']\<rparr>" by simp
  with s' show ?thesis by simp
qed

text \<open>C38: The check before decoding panics exactly when the variable has a basic value at depth 3 or less, a
  structure or a pointer being a level, that reflection does not let through: a field on the way to it
  has a lower-case name and is not embedded, or the last field on the way has a lower-case name.
  Otherwise it adds to \<open>ErrorCount\<close> exactly the number of basic values at depth 3 or less that are not
  zero, so a fresh reply is not warned about, and what lies deeper is not seen.\<close>

theorem checkDefault_counts_nonzero:
  "case checkDefault (Some v) s of
     Inl e \<Rightarrow> e = Panic \<and> list_ex (\<lambda>(depth, path, zero). depth \<le> 3 \<and> hidden path) (leaves v [] 1)
   | Inr s' \<Rightarrow> \<not> list_ex (\<lambda>(depth, path, zero). depth \<le> 3 \<and> hidden path) (leaves v [] 1) \<and>
       ErrorCount s' =
         ErrorCount s + int (length (filter (\<lambda>(depth, path, zero). depth \<le> 3 \<and> \<not> zero) (leaves v [] 1))) \<and>
       checked s' = checked s"
  using checkDefault_walk [of v s] unfolding walk_result_def has_hidden_def nondefault_def .

text \<open>A reply with a lower-case field of a basic type: the check that is there to warn about it panics.\<close>

lemma lower_case_field_panics:
  "checkDefault (Some (VPtr (Some (VStruct [(''Err'', False, VBasic ''string'' True),
     (''index'', False, VBasic ''int'' True)])))) fresh_labgob = Inl Panic"
  by code_simp

end
