(* ===== verification/Labgob_Codec.thy ===== *)
theory Labgob_Codec
  imports Labgob
begin

text \<open>
  The encoder and the decoder of \<open>labgob.go\<close>: each value is checked and handed to the encoder of the
  standard library, which is an argument: \<open>gobEncode\<close> takes the state of the library's encoder and a
  value, \<open>gobDecode\<close> the state of its decoder and the variable to fill.
\<close>

section \<open>Encoder and decoder\<close>

record 'g LabEncoder =
  enc_gob :: 'g

record 'd LabDecoder =
  dec_gob :: 'd

definition NewEncoder :: "('w \<Rightarrow> 'g) \<Rightarrow> 'w \<Rightarrow> 'g LabEncoder" where
  "NewEncoder gobNewEncoder w = \<lparr>enc_gob = gobNewEncoder w\<rparr>"

definition NewDecoder :: "('r \<Rightarrow> 'd) \<Rightarrow> 'r \<Rightarrow> 'd LabDecoder" where
  "NewDecoder gobNewDecoder r = \<lparr>dec_gob = gobNewDecoder r\<rparr>"

text \<open>\<open>t\<close> is the type of the value, a position in the table.\<close>

definition checkValue :: "kind list \<Rightarrow> nat \<Rightarrow> labgob \<Rightarrow> labgob option" where
  "checkValue tys t s = checkType (Suc (length tys)) tys t s"

text \<open>\<open>Encode\<close> and \<open>EncodeValue\<close>, which unwraps its argument first, return whether the library succeeded.\<close>

definition Encode ::
  "('g \<Rightarrow> 'v \<Rightarrow> 'g \<times> bool) \<Rightarrow> kind list \<Rightarrow> 'g LabEncoder \<Rightarrow> nat \<times> 'v \<Rightarrow> labgob \<Rightarrow>
     ('g LabEncoder \<times> bool \<times> labgob) option" where
  "Encode gobEncode tys enc e s =
     map_option (\<lambda>s'. let (g, good) = gobEncode (enc_gob enc) (snd e) in (enc\<lparr>enc_gob := g\<rparr>, good, s'))
       (checkValue tys (fst e) s)"

definition EncodeValue ::
  "('g \<Rightarrow> 'v \<Rightarrow> 'g \<times> bool) \<Rightarrow> ('rv \<Rightarrow> nat \<times> 'v) \<Rightarrow> kind list \<Rightarrow> 'g LabEncoder \<Rightarrow> 'rv \<Rightarrow> labgob \<Rightarrow>
     ('g LabEncoder \<times> bool \<times> labgob) option" where
  "EncodeValue gobEncodeValue Interface tys enc value s =
     Encode gobEncodeValue tys enc (Interface value) s"

text \<open>\<open>reflect\<close> is what reflection shows of the variable before it is filled; the check of the variable may
  panic.\<close>

definition Decode ::
  "('d \<Rightarrow> 'v \<Rightarrow> 'd \<times> 'v \<times> bool) \<Rightarrow> ('v \<Rightarrow> gval) \<Rightarrow> kind list \<Rightarrow> 'd LabDecoder \<Rightarrow> nat \<times> 'v \<Rightarrow> labgob \<Rightarrow>
     ('d LabDecoder \<times> 'v \<times> bool \<times> labgob) go option" where
  "Decode gobDecode reflect tys dec e s =
     map_option (\<lambda>r. go_bind r (\<lambda>s'.
         let (d, v, good) = gobDecode (dec_gob dec) (snd e) in Inr (dec\<lparr>dec_gob := d\<rparr>, v, good, s')))
       (Decode_checks tys (fst e) (Some (reflect (snd e))) s)"

definition Register :: "('reg \<Rightarrow> nat \<Rightarrow> 'reg) \<Rightarrow> kind list \<Rightarrow> nat \<Rightarrow> 'reg \<Rightarrow> labgob \<Rightarrow> ('reg \<times> labgob) option" where
  "Register gobRegister tys t reg s = map_option (\<lambda>s'. (gobRegister reg t, s')) (checkValue tys t s)"

definition RegisterName ::
  "('reg \<Rightarrow> string \<Rightarrow> nat \<Rightarrow> 'reg) \<Rightarrow> kind list \<Rightarrow> string \<Rightarrow> nat \<Rightarrow> 'reg \<Rightarrow> labgob \<Rightarrow> ('reg \<times> labgob) option" where
  "RegisterName gobRegisterName tys name t reg s =
     map_option (\<lambda>s'. (gobRegisterName reg name t, s')) (checkValue tys t s)"

section \<open>Sessions\<close>

text \<open>Encoding values one after the other, as \<open>persist\<close> does, and decoding them into variables.\<close>

fun encode_all ::
  "('g \<Rightarrow> 'v \<Rightarrow> 'g \<times> bool) \<Rightarrow> kind list \<Rightarrow> 'g LabEncoder \<Rightarrow> (nat \<times> 'v) list \<Rightarrow> labgob \<Rightarrow>
     ('g LabEncoder \<times> labgob) option" where
  "encode_all gobEncode tys enc [] s = Some (enc, s)"
| "encode_all gobEncode tys enc (e # es) s =
     Option.bind (Encode gobEncode tys enc e s) (\<lambda>(enc', good, s'). encode_all gobEncode tys enc' es s')"

fun decode_all ::
  "('d \<Rightarrow> 'v \<Rightarrow> 'd \<times> 'v \<times> bool) \<Rightarrow> ('v \<Rightarrow> gval) \<Rightarrow> kind list \<Rightarrow> 'd LabDecoder \<Rightarrow> (nat \<times> 'v) list \<Rightarrow> labgob \<Rightarrow>
     ('v list \<times> labgob) go option" where
  "decode_all gobDecode reflect tys dec [] s = Some (Inr ([], s))"
| "decode_all gobDecode reflect tys dec (e # es) s =
     Option.bind (Decode gobDecode reflect tys dec e s) (\<lambda>r.
       case r of
         Inl err \<Rightarrow> Some (Inl err)
       | Inr (dec', v, good, s') \<Rightarrow>
           map_option (\<lambda>r'. go_bind r' (\<lambda>(vs, s''). Inr (v # vs, s'')))
             (decode_all gobDecode reflect tys dec' es s'))"

text \<open>What the library alone makes of the same values, and its promise: reading back what was written,
  into variables with their zero values, gives the values.\<close>

fun gob_decodes :: "('d \<Rightarrow> 'v \<Rightarrow> 'd \<times> 'v \<times> bool) \<Rightarrow> 'd \<Rightarrow> 'v list \<Rightarrow> 'v list" where
  "gob_decodes gobDecode d [] = []"
| "gob_decodes gobDecode d (z # zs) =
     (case gobDecode d z of (d', v, good) \<Rightarrow> v # gob_decodes gobDecode d' zs)"

definition gob_reads_back ::
  "('g \<Rightarrow> 'v \<Rightarrow> 'g \<times> bool) \<Rightarrow> 'g \<Rightarrow> ('g \<Rightarrow> 'd) \<Rightarrow> ('d \<Rightarrow> 'v \<Rightarrow> 'd \<times> 'v \<times> bool) \<Rightarrow> 'v list \<Rightarrow> 'v list \<Rightarrow> bool" where
  "gob_reads_back gobEncode g0 reader gobDecode zeros vs \<longleftrightarrow>
     gob_decodes gobDecode (reader (fold (\<lambda>v g. fst (gobEncode g v)) vs g0)) zeros = vs"

lemma checkValue_walk:
  assumes "closed_table tys" and "t < length tys" and "checked s \<subseteq> {..<length tys}"
  obtains s' where "checkValue tys t s = Some s'" and "walked tys {t} 0 s s'"
  using checkType_walk(1) [OF assms, of "Suc (length tys)"]
  by (auto simp: checkValue_def less_Suc_eq_le simp del: checkType.simps)

lemma Decode_checkValue:
  "Decode_checks tys t target s = map_option (checkDefault target) (checkValue tys t s)"
  by (simp add: Decode_checks_def checkValue_def)

lemma encode_all_walk:
  assumes c: "closed_table tys" and "\<forall>e \<in> set es. fst e < length tys" and "checked s \<subseteq> {..<length tys}"
  shows "\<exists>enc' s'. encode_all gobEncode tys enc es s = Some (enc', s') \<and>
    enc_gob enc' = fold (\<lambda>v g. fst (gobEncode g v)) (map snd es) (enc_gob enc) \<and>
    walked tys (fst ` set es) 0 s s'"
  using assms(2,3)
proof (induction es arbitrary: enc s)
  case Nil
  then show ?case by (simp add: walked_refl)
next
  case (Cons e es)
  then have "fst e < length tys" by simp
  then obtain s1 where s1: "checkValue tys (fst e) s = Some s1" "walked tys {fst e} 0 s s1"
    by (rule checkValue_walk [OF c _ Cons.prems(2)])
  let ?enc = "enc\<lparr>enc_gob := fst (gobEncode (enc_gob enc) (snd e))\<rparr>"
  from Cons.IH [of s1 ?enc] Cons.prems(1) walked_card(1) [OF s1(2) Cons.prems(2)] obtain enc' s' where
    "encode_all gobEncode tys ?enc es s1 = Some (enc', s')"
    "enc_gob enc' = fold (\<lambda>v g. fst (gobEncode g v)) (map snd es) (fst (gobEncode (enc_gob enc) (snd e)))"
    "walked tys (fst ` set es) 0 s1 s'" by auto
  with walked_trans [OF s1(2) this(3)] s1(1) show ?case
    by (auto simp: Encode_def split_beta)
qed

text \<open>The variables have their zero values as far as the check looks: decoding panics when reflection does not
  let a basic value of one of them through, and otherwise reads what the library reads.\<close>

lemma decode_all_walk:
  assumes c: "closed_table tys" and "\<forall>e \<in> set es. fst e < length tys \<and> nondefault (reflect (snd e)) [] 1 = 0"
    and "checked s \<subseteq> {..<length tys}"
  shows "if list_ex (\<lambda>e. has_hidden (reflect (snd e)) [] 1) es
    then decode_all gobDecode reflect tys dec es s = Some (Inl Panic)
    else \<exists>s'. decode_all gobDecode reflect tys dec es s =
      Some (Inr (gob_decodes gobDecode (dec_gob dec) (map snd es), s')) \<and> walked tys (fst ` set es) 0 s s'"
  using assms(2,3)
proof (induction es arbitrary: dec s)
  case Nil
  then show ?case by (simp add: walked_refl)
next
  case (Cons e es)
  then have t: "fst e < length tys" "nondefault (reflect (snd e)) [] 1 = 0" by simp_all
  from t(1) obtain s1 where s1: "checkValue tys (fst e) s = Some s1" "walked tys {fst e} 0 s s1"
    by (rule checkValue_walk [OF c _ Cons.prems(2)])
  note walk = checkDefault_walk [of "reflect (snd e)" s1]
  show ?case
  proof (cases "has_hidden (reflect (snd e)) [] 1")
    case True
    with walk have "checkDefault (Some (reflect (snd e))) s1 = Inl Panic"
      by (auto simp: walk_result_def split: sum.splits)
    with True s1(1) show ?thesis by (simp add: Decode_def Decode_checkValue)
  next
    case False
    with walk t(2) obtain s2 where s2: "checkDefault (Some (reflect (snd e))) s1 = Inr s2"
      "checked s2 = checked s1" "ErrorCount s2 = ErrorCount s1"
      by (auto simp: walk_result_def split: sum.splits)
    then have w: "walked tys {fst e} 0 s s2" using s1(2) by (simp add: walked_def)
    let ?dec = "dec\<lparr>dec_gob := fst (gobDecode (dec_gob dec) (snd e))\<rparr>"
    have step: "decode_all gobDecode reflect tys dec (e # es) s =
        map_option (\<lambda>r'. go_bind r' (\<lambda>(vs, s''). Inr (fst (snd (gobDecode (dec_gob dec) (snd e))) # vs, s'')))
          (decode_all gobDecode reflect tys ?dec es s2)"
      using s1(1) s2(1) by (simp add: Decode_def Decode_checkValue split_beta)
    from Cons.IH [of s2 ?dec] Cons.prems(1) walked_card(1) [OF w Cons.prems(2)] walked_trans [OF w] False
    show ?thesis unfolding step by (auto simp: split_beta split: if_splits)
  qed
qed

section \<open>A session of the wrapper\<close>

text \<open>C37: The wrapper changes nothing of what is sent: values encoded one after the other and decoded into
  variables that have their zero values as far as the check looks come back, whatever their types, unless
  one of these variables has a basic value at depth 3 or less behind a field with a lower-case name: then
  \<open>Decode\<close> panics. Otherwise the whole session reports exactly the badly named fields of the types that
  occur, each once: decoding reports nothing more for a type that was encoded, and warns about no
  variable.\<close>

theorem labgob_session:
  assumes c: "closed_table tys" and types: "list_all (\<lambda>e. fst e < length tys) es"
    and vars: "list_all (\<lambda>z. fst z < length tys \<and> nondefault (reflect (snd z)) [] 1 = 0) zs"
    and gob: "gob_reads_back gobEncode g0 reader gobDecode (map snd zs) (map snd es)"
  shows "\<exists>enc s1. encode_all gobEncode tys (NewEncoder (\<lambda>_. g0) ()) es fresh_labgob = Some (enc, s1) \<and>
    (if list_ex (\<lambda>z. has_hidden (reflect (snd z)) [] 1) zs
     then decode_all gobDecode reflect tys (NewDecoder reader (enc_gob enc)) zs s1 = Some (Inl Panic)
     else \<exists>s2. decode_all gobDecode reflect tys (NewDecoder reader (enc_gob enc)) zs s1 =
         Some (Inr (map snd es, s2)) \<and>
       checked s2 = (refers tys)\<^sup>* `` (fst ` set es \<union> fst ` set zs) \<and>
       ErrorCount s2 = (\<Sum>u \<in> (refers tys)\<^sup>* `` (fst ` set es \<union> fst ` set zs). bad_fields (tys ! u)))"
proof -
  have f: "checked fresh_labgob = {}" "ErrorCount fresh_labgob = 0" by (simp_all add: fresh_labgob_def)
  obtain enc s1 where e: "encode_all gobEncode tys (NewEncoder (\<lambda>_. g0) ()) es fresh_labgob = Some (enc, s1)"
    "enc_gob enc = fold (\<lambda>v g. fst (gobEncode g v)) (map snd es) g0"
    "walked tys (fst ` set es) 0 fresh_labgob s1"
    using encode_all_walk [OF c, of es fresh_labgob gobEncode "NewEncoder (\<lambda>_. g0) ()"] types f
    by (auto simp: NewEncoder_def list_all_iff)
  have s1: "checked s1 \<subseteq> {..<length tys}" by (rule walked_card(1) [OF e(3)]) (simp add: f)
  have "\<forall>z \<in> set zs. fst z < length tys \<and> nondefault (reflect (snd z)) [] 1 = 0"
    using vars by (simp add: list_all_iff)
  note walk = decode_all_walk [OF c this s1, of gobDecode "NewDecoder reader (enc_gob enc)"]
  have decoded: "gob_decodes gobDecode (dec_gob (NewDecoder reader (enc_gob enc))) (map snd zs) = map snd es"
    using gob by (simp add: NewDecoder_def gob_reads_back_def e(2))
  show ?thesis
  proof (cases "list_ex (\<lambda>z. has_hidden (reflect (snd z)) [] 1) zs")
    case True
    with walk e(1) show ?thesis by auto
  next
    case False
    with walk obtain s2 where d: "decode_all gobDecode reflect tys (NewDecoder reader (enc_gob enc)) zs s1 =
        Some (Inr (map snd es, s2))" "walked tys (fst ` set zs) 0 s1 s2"
      by (auto simp: decoded)
    from walked_trans [OF e(3) d(2)] have w: "walked tys (fst ` set es \<union> fst ` set zs) 0 fresh_labgob s2" by simp
    note reach = walked_from_empty [OF w f(1)]
    from w have "ErrorCount s2 = (\<Sum>u \<in> checked s2. bad_fields (tys ! u))" by (simp add: walked_def f)
    then have "ErrorCount s2 = (\<Sum>u \<in> (refers tys)\<^sup>* `` (fst ` set es \<union> fst ` set zs). bad_fields (tys ! u))"
      by (simp only: reach)
    with False e(1) d(1) reach show ?thesis by auto
  qed
qed

text \<open>The witness: a stream is the list of its values, and a value is the one of a list with a single element
  (the pointer to the rest has a lower-case name, and is not looked at).\<close>

definition list_value :: "int \<Rightarrow> gval" where
  "list_value v = VPtr (Some (VStruct [(''Value'', False, VBasic ''int'' (v = 0)), (''next'', False, VPtr None)]))"

theorem labgob_session_witness:
  "\<exists>enc s1 s2.
    encode_all (\<lambda>g v. (g @ [v], True)) list_types (NewEncoder (\<lambda>_. []) ()) [(0, 7), (0, 8)] fresh_labgob = Some (enc, s1) \<and>
    decode_all (\<lambda>d z. (tl d, hd d, True)) list_value list_types (NewDecoder (\<lambda>g. g) (enc_gob enc))
      [(1, 0), (1, 0)] s1 = Some (Inr ([7, 8], s2)) \<and> ErrorCount s2 = 1"
proof -
  have c: "closed_table list_types" by (simp add: closed_table_def list_types_def)
  have t: "list_all (\<lambda>e. fst e < length list_types) [(0 :: nat, 7 :: int), (0, 8)]" by (simp add: list_types_def)
  have z: "list_all (\<lambda>z. fst z < length list_types \<and> nondefault (list_value (snd z)) [] 1 = 0)
      [(1 :: nat, 0 :: int), (1, 0)]" by (simp add: list_types_def nondefault_def list_value_def)
  have h: "\<not> list_ex (\<lambda>z. has_hidden (list_value (snd z)) [] 1) [(1 :: nat, 0 :: int), (1, 0)]"
    by (simp add: has_hidden_def hidden_def list_value_def)
  have g: "gob_reads_back (\<lambda>g v. (g @ [v], True)) [] (\<lambda>g. g) (\<lambda>d z. (tl d, hd d, True))
      (map snd [(1 :: nat, 0 :: int), (1, 0)]) (map snd [(0 :: nat, 7 :: int), (0, 8)])"
    by (simp add: gob_reads_back_def)
  have r: "(refers list_types)\<^sup>* `` {0, 1} = {0, 1, 2}"
  proof
    have e: "refers list_types = {(0, 2), (0, 1), (1, 0)}"
      by (auto simp: refers_def list_types_def less_Suc_eq numeral_3_eq_3)
    have "y \<in> {0, 1, 2}" if "(x, y) \<in> (refers list_types)\<^sup>*" "x \<in> {0, 1}" for x y
      using that by (induction rule: rtrancl_induct) (auto simp: e)
    then show "(refers list_types)\<^sup>* `` {0, 1} \<subseteq> {0, 1, 2}" by blast
    have "(0, 2) \<in> (refers list_types)\<^sup>*" by (rule r_into_rtrancl) (simp add: e)
    then show "{0, 1, 2} \<subseteq> (refers list_types)\<^sup>* `` {0, 1}" by auto
  qed
  have sum: "(\<Sum>u \<in> {0, 1, 2}. bad_fields (list_types ! u)) = 1" by (simp add: list_types_def)
  have ts: "fst ` set [(0 :: nat, 7 :: int), (0, 8)] \<union> fst ` set [(1 :: nat, 0 :: int), (1, 0)] = {0, 1}"
    by auto
  obtain enc s1 s2 where
    "encode_all (\<lambda>g v. (g @ [v], True)) list_types (NewEncoder (\<lambda>_. []) ()) [(0, 7), (0, 8)] fresh_labgob = Some (enc, s1)"
    "decode_all (\<lambda>d z. (tl d, hd d, True)) list_value list_types (NewDecoder (\<lambda>g. g) (enc_gob enc))
      [(1, 0), (1, 0)] s1 = Some (Inr (map snd [(0 :: nat, 7 :: int), (0, 8)], s2))"
    "ErrorCount s2 = (\<Sum>u \<in> {0, 1, 2}. bad_fields (list_types ! u))"
    using labgob_session [OF c t z g] unfolding ts r if_not_P [OF h] by blast
  then show ?thesis unfolding sum by (intro exI [of _ enc] exI [of _ s1] exI [of _ s2]) simp
qed

end
