(* ===== verification/Spec2Isabelle.thy ===== *)
theory Spec2Isabelle
  imports Raft_Properties Raft_Recover Kv_Properties Kv_Console Runner Porc_Events Porc_Page Store_Lost
    Store_Progress Net_Refines Labgob_Codec
begin

text \<open>
  A verification development for the Raft key-value store of this repository (Go, under \<open>src/\<close>).

  The program. A cluster of servers replicates a log of commands (package \<open>raft\<close>). A key-value server
  (package \<open>kvraft\<close>) hands each client request to its Raft server with \<open>Start\<close>, and an apply loop
  executes the commands that Raft delivers on the channel \<open>ApplyChan\<close>; the RPC handlers poll the table
  of executed requests and answer. The clerk repeats an RPC over all servers until one answers OK.
  The tests record the clerks' operations and hand them to a linearizability checker (package
  \<open>porcupine\<close>) with the model of a key-value store (package \<open>models\<close>). In the tests the servers talk over
  a simulated network (\<open>labrpc\<close>, \<open>labgob\<close>); in run mode (\<open>raftRun.go\<close>, \<open>serverRun.go\<close>, \<open>clientRun.go\<close>)
  over the RPC library, with a JSON file per server as its disk, a console menu per process, and the
  programs under \<open>runner\<close> to start them.

  Conventions. A locked region of the code is one function on the record of the server's state; the
  result type \<open>go\<close> (\<open>Go_Prelude\<close>) has the faults \<open>Panic\<close> (slice bounds, nil), \<open>WouldBlock\<close> (a send on a
  full channel) and \<open>Disabled\<close> (a step that the scheduler cannot take). Go maps are maps, Go ints are
  \<open>int\<close> (terms and indexes grow by one per event, so their width plays no role), bitsets are words.

  Raft.
  \<^item> \<open>Raft_Types\<close>: \<open>raft/rpc.go\<close> and the struct \<open>Raft\<close>. \<open>Raft_Log\<close>: \<open>getters.go\<close>. \<open>Raft_Persist\<close>: the
    persister, \<open>persist\<close>, \<open>readPersist\<close>, \<open>Make\<close>; the locale \<open>durable_store\<close> is what a restart relies on.
  \<^item> \<open>Raft_Handlers\<close> (\<open>handler.go\<close>), \<open>Raft_Candidate\<close> (\<open>startAsCand\<close>), \<open>Raft_Leader\<close> (\<open>startAsLeader\<close>,
    heart beats, \<open>Start\<close>, \<open>StartOnePeerAppend\<close>, commit): one definition per locked region.
  \<^item> \<open>Raft_Server\<close>: the invariant of one server and that every region keeps it.
  \<^item> \<open>Raft_Cluster\<close>: the step relation. Its events are the regions, taken in any order, with messages
    that are lost, duplicated and delayed at will, and crashes with a restart from disk; \<open>reachable\<close>.
  \<^item> \<open>Raft_Safety\<close>, \<open>Raft_Election\<close>, \<open>Raft_Winners\<close>: invariants of reachable clusters (no panics but one,
    votes and their persistence, majorities). \<open>Raft_Runs\<close>: schedules, evaluated step by step.
    \<open>Raft_Catchup\<close>: the resend loop against an answering follower.
  \<^item> \<open>Raft_Properties\<close>: the properties. Some say what the code fails to do: two leaders in one term and
    different commands applied at one index are reachable, with the schedule as the proof.
  \<^item> \<open>Raft_Progress\<close>: what a leader can always do. A round of heart beats finds the followers that are up, and
    a round of \<open>StartOnePeerAppend\<close> threads replicates a new command to them, so a majority commits it. The
    schedules consist of turns of threads only (\<open>calm\<close>). \<open>Raft_Recover\<close>: a server whose log is up to date for a
    majority that is up can be elected after whatever has happened, and then commits. Both need another
    server, and commit and apply indexes within the log (\<open>can_lead\<close>, \<open>electable\<close>). That some schedule does it
    is not to say that all do.

  Key-value store.
  \<^item> \<open>Kv_Server\<close>: \<open>kvraft/rpc.go\<close> and \<open>server.go\<close>. \<open>Kv_Machine\<close>: the locale \<open>exactly_once\<close>, the contract of
    the apply loop over an abstract map, interpreted on the server. \<open>Kv_Properties\<close>: each request is
    executed once, and what an answer OK means.
  \<^item> \<open>Kv_Client\<close>: the clerk; its loop may run forever, so it is a partial function and the theorems say
    exactly when it returns. \<open>Kv_Run\<close>: the network switch, the RPC wrappers and the JSON file.
  \<^item> \<open>Go_Text\<close>: words, scanning and printing. \<open>Kv_Console\<close>: the menus of clerk and server as turns that read
    words and write text, \<open>PrintLog\<close>, \<open>PrintStateMachine\<close> and what a start prints of the file. \<open>Runner\<close> (\<open>sRun.go\<close>, \<open>cRun.go\<close>): from the file
    of servers to a running server, which reads back what it had persisted.

  Checker.
  \<^item> \<open>Porc_Model\<close> (\<open>model.go\<close>, \<open>models/kv.go\<close>), \<open>Porc_Bitset\<close> (\<open>bitset.go\<close>; the locale \<open>id_set\<close> is the
    interface of a set of ids), \<open>Porc_Checker\<close> (\<open>checker.go\<close>, \<open>porcupine.go\<close>): entries, the heap of linked
    nodes, one turn of the search, the select loop.
  \<^item> \<open>Porc_Links\<close>: heaps as lists of addresses; \<open>lift\<close> and \<open>unlift\<close>. \<open>Porc_Spec\<close>: what a linearization is.
    \<open>Porc_Search\<close>, \<open>Porc_Turns\<close>: the invariant of the search, how a turn moves the stack and the cursor, its
    weight. \<open>Porc_Partial\<close>: the record of partial linearizations is sound whenever the search is stopped and
    complete when it fails; the search decides linearizability. \<open>Porc_History\<close>: from operations to sorted entries. \<open>Porc_Locality\<close>: a store is
    linearizable exactly when each key's part is. \<open>Porc_Properties\<close>: the properties; verdicts are ordered
    from \<open>Ok\<close> to \<open>Illegal\<close>, and a check gives the worst of what it was told. \<open>Porc_Events\<close>: the same
    for histories of events.
  \<^item> \<open>Porc_Visual\<close>, \<open>Porc_Page\<close>: the information a verbose check collects, also from searches that a timeout
    has killed, and \<open>computeVisualizationData\<close> of \<open>visualization.go\<close>, which replays it, and the writing of the
    page from it.

  The parts together.
  \<^item> \<open>Store_System\<close>: delivered messages and the apply loop on top of them.
  \<^item> \<open>Raft_Prefix\<close>, \<open>Raft_Stable\<close>: executions with one candidate (\<open>only_candidate\<close>): one server starts elections,
    and \<open>Start\<close> is not called at another server that has been killed and calls itself a leader (\<open>startElection\<close>
    runs \<open>startAsLeader\<close> also at a killed server; \<open>killed_leader_diverges\<close> shows that the condition is needed).
    Every log is a prefix of the log of the candidate, so no two servers apply different commands, no step
    panics, and the log of the candidate never loses a command, whatever is lost, delayed, repeated, killed
    or restarted. The store and the network below have the same executions.
  \<^item> \<open>Store_Steps\<close>: the small steps of the whole store: clerks that send an RPC to one server after the
    other, handlers \<open>Get\<close> and \<open>PutAppend\<close> as threads that take one lock per step (\<open>run_local_Get\<close>,
    \<open>run_local_PutAppend\<close>: the steps compute the functions of \<open>Kv_Server\<close>), apply loops, and the cluster.
    The clock counts the calls and returns of the clerks. A call is enabled when the clerk has no other
    (\<open>ck.mu\<close>) and with an identity the client has not used before (the code takes the time in nanoseconds).
  \<^item> \<open>Store_Log\<close>: the locale \<open>log_machine\<close>, a log that is executed exactly once per request and explains the
    answers of calls has a linearization of them; interpreted on the key-value machine.
    \<open>Store_Invariant\<close>: the invariant that every step of a store with one candidate keeps. \<open>Store_Linear\<close>: the
    history the clerks record is linearizable, and \<open>CheckOperations\<close> accepts it. \<open>Store_Lost\<close>: with two
    candidates it is not; a session in which an append that was answered OK is lost.
  \<^item> \<open>Store_Progress\<close>: with one candidate that leads a majority that is up, the call of a clerk can be answered:
    the runs of \<open>Raft_Progress\<close> are runs of the store, the apply loop catches up, and the handler then finds
    what it polls for.

  Test infrastructure.
  \<^item> \<open>Labrpc\<close> (\<open>labrpc.go\<close>): the network's tables, one request from end to end, dispatch; the locale \<open>wiring\<close>
    is what the tests rely on when they connect, disable and restart servers.
  \<^item> \<open>Net_Steps\<close>: the cluster on this network, one event per step of a call: \<open>Call\<close> encodes and the network
    accepts, \<open>processReq\<close> looks the end point up, the handler goroutine dispatches by name to a server object,
    the waiting loop receives its reply or looks at the network, the answer is sent, the caller goes on. A
    server object has an address; a server that is started again is a new object with new end points, and
    the old object may still run handlers. Server states and goroutines are those of \<open>Raft_Cluster\<close>.
  \<^item> \<open>Refinement_Map\<close>: the locale \<open>refinement_map\<close>, executions of a machine under an invariant are executions
    of another. \<open>Net_Invariant\<close>: what is known of every call in progress. \<open>Net_Refines\<close>: interpreted twice, every
    execution over \<open>labrpc\<close> is one of the cluster, and with one candidate one of the stable cluster, so the
    theorems on \<open>reachable\<close> and \<open>stable_cluster\<close> hold over \<open>labrpc\<close>. The encoding is an argument that reads back
    what it wrote (\<open>reads_back\<close>).
  \<^item> \<open>Labgob\<close> (\<open>labgob.go\<close>): the walks over types and values that precede encoding and decoding, with the
    read-only flags of reflection, which make the walk over a value panic at a lower-case field.
    \<open>Labgob_Codec\<close>: the encoder and decoder around an encoder of the standard library, which is an argument;
    what is assumed of it is that it reads back what it wrote.

  Bounds and fuel. The search runs with fuel; \<open>check_fuel\<close> (2n entries give \<open>2n (2n + 1)^n + 1\<close>) is proved to
  be enough, so the theorems state results, not partial correctness; \<open>checkType\<close> needs one more than the
  number of types. \<open>startApply\<close>, \<open>commitLoop\<close> and
  \<open>collectEntries\<close> terminate by measures. A history has fewer than \<open>2^62\<close> operations, so ids fit a \<open>uint\<close>.

  Where the model merges or simplifies steps.
  \<^item> \<open>startAsCand_reply\<close> reads \<open>needReturn\<close> in its locked region; the code reads it just before it takes the lock.
  \<^item> \<open>listenApplyCh\<close> and \<open>ev_Consume\<close> test for a kill before each message; the code, waiting in its receive when
    the server is killed, applies one more message. The channel to the apply loop, of capacity 1, is a list
    of all messages, so \<open>startApply\<close> never waits for the loop.
  \<^item> \<open>ErrorCount\<close> of \<open>labgob\<close> does not wrap around.
  \<^item> \<open>collect\<close> gives None when the arrivals so far do not make it leave its loop; whether it waits for ever
    is a matter of what else can arrive.

  Not modelled, and why.
  \<^item> Time: timers fire at any moment, and sleeping is a step that does nothing.
  \<^item> Sharing of backing arrays: a message carries a copy of the entries at the moment it is sent. The
    simulated network encodes a message when it is sent, so only writes in the short window between
    the construction of the arguments and the call are lost by this.
  \<^item> \<open>sort.Sort\<close> is not stable: the theorems quantify over every function that sorts by time.
  \<^item> \<open>DPrintf\<close> and progress messages, registering and serving, \<open>runner/ip\<close>, \<open>nrand\<close> (never called), the unused
    message types and constants of \<open>rpc.go\<close>.
  \<^item> The text of the page of \<open>porcupine/visualization.go\<close>: an HTML and JavaScript template. Sequences are told
    apart by value and not by address, and maps are iterated in an arbitrary order.
  \<^item> Text is a list of characters of the first 256 code points; the console of the clerk leaves out what
    is printed between retries. A session is any number of turns, since the menus never end.
  \<^item> The RPCs of the clerks do not run on the model of \<open>labrpc\<close>: in \<open>Store_Steps\<close> they are delivered, lost and
    delayed at will, as those of \<open>Raft_Cluster\<close>. Encoding itself is the standard library's.
  \<^item> The JSON text of a string is taken to decode to the string that was encoded.
\<close>

end
